(* ===== verification/Prelude.thy ===== *)
theory Prelude
  imports Main "HOL-Library.Word"
begin

text \<open>
  The ground every component stands on.

  \<^item> Machine types: a Go \<^verbatim>\<open>byte\<close>, \<^verbatim>\<open>uint32\<close> and \<^verbatim>\<open>uint64\<close> is a word of its width,
    a \<^verbatim>\<open>[]byte\<close> a list of bytes, a nil-able slice or pointer an \<open>option\<close>.
    A Go \<^verbatim>\<open>int\<close> that only ever holds a length or an index is a \<open>nat\<close>; one that a
    remote caller chooses is an \<open>int\<close> with 64-bit wrap-around (\<open>wrap_int\<close>).
  \<^item> Outcomes: a call returns a value (\<open>Ret\<close>), panics (\<open>Panic\<close>) or does not
    return when run from the given state (\<open>Hang\<close>: a lock that is held, a rejection loop that
    rejects for ever).  Go errors are ordinary return values.
  \<^item> Randomness: a reader is an infinite sequence of bytes, and theorems hold for every sequence.
  \<^item> Big-endian integers of \<^verbatim>\<open>encoding/binary\<close>, slicing and \<^verbatim>\<open>copy\<close>.
\<close>

section \<open>Machine types\<close>

type_synonym byte = "8 word"
type_synonym bytes = "byte list"
type_synonym u32 = "32 word"
type_synonym u64 = "64 word"

named_theorems wire_simps \<open>encoders, decoders and the sizes of wire formats\<close>
named_theorems outcome_simps \<open>case analysis of outcomes\<close>
named_theorems len_simps \<open>lengths of what the operations return\<close>

definition wrap_int :: "int \<Rightarrow> int" where
  "wrap_int x = (x + 2 ^ 63) mod 2 ^ 64 - 2 ^ 63"

lemma wrap_int_id: "- (2 ^ 63) \<le> x \<Longrightarrow> x < 2 ^ 63 \<Longrightarrow> wrap_int x = x"
  by (simp add: wrap_int_def)

lemma wrap_int_range: "- (2 ^ 63) \<le> wrap_int x \<and> wrap_int x < 2 ^ 63"
proof -
  have "0 \<le> (x + 2 ^ 63) mod 2 ^ 64" "(x + 2 ^ 63) mod 2 ^ 64 < (2 ^ 64 :: int)"
    by simp_all
  then show ?thesis by (simp add: wrap_int_def)
qed

lemma even_wrap_int: "even (wrap_int x) \<longleftrightarrow> even x"
proof -
  have "even ((x + 2 ^ 63) mod 2 ^ 64) \<longleftrightarrow> even (x + 2 ^ 63)"
    by (rule dvd_mod_iff) simp
  then show ?thesis by (simp add: wrap_int_def)
qed

lemma wrap_int_sum:
  assumes "0 \<le> a" "a < 2 ^ 63" "- (2 ^ 63) \<le> b" "b < 2 ^ 63" "0 \<le> wrap_int (a + b)"
  shows "wrap_int (a + b) = a + b"
proof (cases "a + b < 2 ^ 63")
  case True
  then show ?thesis using assms by (intro wrap_int_id) linarith+
next
  case False
  have "(a + b + 2 ^ 63) mod 2 ^ 64 = a + b + 2 ^ 63 - 2 ^ 64"
    using False assms(2,4) by (intro int_mod_pos_eq [where q = 1]) simp_all
  then have "wrap_int (a + b) < 0" using assms(2,4) by (simp add: wrap_int_def)
  with assms(5) show ?thesis by simp
qed

section \<open>Outcomes\<close>

datatype 'a outcome = Ret 'a | Panic | Hang

primrec obind :: "'a outcome \<Rightarrow> ('a \<Rightarrow> 'b outcome) \<Rightarrow> 'b outcome" where
  "obind (Ret x) f = f x"
| "obind Panic f = Panic"
| "obind Hang f = Hang"

lemma obind_eq_Ret [outcome_simps]: "obind m f = Ret y \<longleftrightarrow> (\<exists>x. m = Ret x \<and> f x = Ret y)"
  by (cases m) auto

lemma obind_assoc: "obind (obind m f) g = obind m (\<lambda>x. obind (f x) g)"
  by (cases m) auto

lemma obind_split:
  "P (obind m f) = ((\<forall>x. m = Ret x \<longrightarrow> P (f x)) \<and> (m = Panic \<longrightarrow> P Panic) \<and> (m = Hang \<longrightarrow> P Hang))"
  by (cases m) simp_all

lemma obind_Ret [simp]: "obind m Ret = m"
  by (cases m) auto

text \<open>A value that may fail to be produced: \<open>None\<close> is a loop that never ends.\<close>

definition of_opt :: "'a option \<Rightarrow> 'a outcome" where
  "of_opt x = (case x of None \<Rightarrow> Hang | Some y \<Rightarrow> Ret y)"

text \<open>A pointer that is dereferenced: nil panics.\<close>

definition deref :: "'a option \<Rightarrow> 'a outcome" where
  "deref p = (case p of None \<Rightarrow> Panic | Some y \<Rightarrow> Ret y)"

lemma of_opt_simps [simp]: "of_opt (Some x) = Ret x" "of_opt None = Hang"
  by (simp_all add: of_opt_def)

lemma deref_simps [simp]: "deref (Some x) = Ret x" "deref None = Panic"
  by (simp_all add: deref_def)

lemma of_opt_Ret [outcome_simps]: "of_opt x = Ret y \<longleftrightarrow> x = Some y"
  by (cases x) auto

lemma deref_Ret [outcome_simps]: "deref x = Ret y \<longleftrightarrow> x = Some y"
  by (cases x) auto

lemma case_sum_Ret [outcome_simps]:
  "(case x of Inl e \<Rightarrow> f e | Inr y \<Rightarrow> g y) = Ret z \<longleftrightarrow> (\<exists>e. x = Inl e \<and> f e = Ret z) \<or> (\<exists>y. x = Inr y \<and> g y = Ret z)"
  by (cases x) auto

text \<open>An indexed read of a slice: out of range panics.\<close>

definition idx :: "'a list \<Rightarrow> nat \<Rightarrow> 'a outcome" where
  "idx xs i = (if i < length xs then Ret (xs ! i) else Panic)"

lemma idx_Ret [outcome_simps]: "idx xs i = Ret y \<longleftrightarrow> i < length xs \<and> xs ! i = y"
  by (auto simp: idx_def)

lemma idx_ok [simp]: "i < length xs \<Longrightarrow> idx xs i = Ret (xs ! i)"
  by (simp add: idx_def)

text \<open>A loop whose body threads a state through the elements of a list and collects results.\<close>

primrec omap :: "('x \<Rightarrow> 's \<Rightarrow> ('y \<times> 's) outcome) \<Rightarrow> 'x list \<Rightarrow> 's \<Rightarrow> ('y list \<times> 's) outcome" where
  "omap f [] s = Ret ([], s)"
| "omap f (x # xs) s =
     obind (f x s) (\<lambda>(y, s'). obind (omap f xs s') (\<lambda>(ys, s''). Ret (y # ys, s'')))"

lemma omap_length [len_simps]: "omap f xs s = Ret (ys, s') \<Longrightarrow> length ys = length xs"
  by (induction xs arbitrary: s ys s') (auto simp: outcome_simps)

lemma omap_all:
  assumes "omap f xs s = Ret (ys, s')"
    and "\<And>x s y s'. x \<in> set xs \<Longrightarrow> f x s = Ret (y, s') \<Longrightarrow> P x y"
  shows "list_all2 P xs ys"
  using assms
proof (induction xs arbitrary: s ys s')
  case Nil
  then show ?case by simp
next
  case (Cons x xs)
  from Cons.prems(1) obtain y s1 ys1 where step: "f x s = Ret (y, s1)"
    and rest: "omap f xs s1 = Ret (ys1, s')" and ys: "ys = y # ys1"
    by (auto simp: outcome_simps)
  have "list_all2 P xs ys1"
    using rest Cons.prems(2) by (rule Cons.IH) auto
  moreover have "P x y"
    using step by (rule Cons.prems(2) [rotated]) simp
  ultimately show ?case by (simp add: ys)
qed

lemma omap_set:
  assumes "omap f xs s = Ret (ys, s')" "\<And>x s y s'. f x s = Ret (y, s') \<Longrightarrow> P y"
  shows "\<forall>y \<in> set ys. P y"
  using omap_all [OF assms(1), of "\<lambda>_. P"] assms(2) by (metis in_set_conv_nth list_all2_conv_all_nth)

lemma omap_total:
  assumes "\<And>x s. x \<in> set xs \<Longrightarrow> \<exists>y s'. f x s = Ret (y, s')"
  shows "\<exists>ys s'. omap f xs s = Ret (ys, s')"
  using assms
proof (induction xs arbitrary: s)
  case Nil
  then show ?case by simp
next
  case (Cons x xs)
  obtain y s1 where "f x s = Ret (y, s1)" using Cons.prems by fastforce
  moreover obtain ys s2 where "omap f xs s1 = Ret (ys, s2)"
    using Cons.IH [of s1] Cons.prems by fastforce
  ultimately show ?case by simp
qed

section \<open>Errors\<close>

text \<open>
  The error values the code returns.  \<open>Wrapped\<close> is \<^verbatim>\<open>fmt.Errorf("context: %s", err)\<close>; the
  status numbers of \<open>RoundStatus\<close> are the ones the message prints.
\<close>

datatype gerr =
    EOF
  | UnexpectedEOF
  | RoundNotFound u32
  | RoundStatus u32 nat nat
  | RoundExists u32
  | OverflowingOnions int nat int
  | NotLastServer
  | ShortKey
  | UnknownMessageType byte
  | UnexpectedMessageType byte
  | Foreign string
  | Wrapped string gerr

section \<open>Random bytes\<close>

type_synonym rng = "nat \<Rightarrow> byte"

definition rread :: "nat \<Rightarrow> rng \<Rightarrow> bytes \<times> rng" where
  "rread n r = (map r [0..<n], \<lambda>i. r (i + n))"

lemma length_rread [simp]: "length (fst (rread n r)) = n"
  by (simp add: rread_def)

lemma rread_lenD [len_simps]: "rread n r = (b, r') \<Longrightarrow> length b = n"
  by (auto simp: rread_def)

section \<open>Slices\<close>

definition slice :: "nat \<Rightarrow> nat \<Rightarrow> 'a list \<Rightarrow> 'a list" where
  "slice i j xs = take (j - i) (drop i xs)"

definition copy_into :: "'a list \<Rightarrow> 'a list \<Rightarrow> 'a list" where
  "copy_into dst src = take (length dst) src @ drop (length src) dst"

lemma length_copy_into [simp]: "length (copy_into dst src) = length dst"
  by (simp add: copy_into_def)

lemma copy_into_exact [simp]: "length src = length dst \<Longrightarrow> copy_into dst src = src"
  by (simp add: copy_into_def)

lemma length_slice [simp]: "length (slice i j xs) = min (j - i) (length xs - i)"
  by (simp add: slice_def)

lemma take_drop_take: "m \<le> n \<Longrightarrow> take m xs @ drop m (take n xs) = take n xs"
  by (metis append_take_drop_id min.absorb1 take_take)

lemma upt_split: "i \<le> j \<Longrightarrow> j \<le> k \<Longrightarrow> [i..<j] @ [j..<k] = [i..<k]"
  using upt_add_eq_append [of i j "k - j"] by simp

lemma upt_0_Suc: "[0..<Suc n] = 0 # map Suc [0..<n]"
  by (simp add: map_Suc_upt upt_conv_Cons del: upt_Suc)

lemma sum_list_zeros [simp]: "sum_list (replicate n (0 :: 'a::comm_monoid_add)) = 0"
  by (induction n) auto

section \<open>Big-endian integers\<close>

primrec be_put :: "nat \<Rightarrow> 'a::len word \<Rightarrow> bytes" where
  "be_put 0 v = []"
| "be_put (Suc n) v = ucast (drop_bit (8 * n) v) # be_put n v"

primrec be_get :: "bytes \<Rightarrow> 'a::len word" where
  "be_get [] = 0"
| "be_get (b # bs) = or (push_bit (8 * length bs) (ucast b)) (be_get bs)"

lemma length_be_put [simp]: "length (be_put n v) = n"
  by (induction n) auto

lemma be_get_put_take: "be_get (be_put n v) = take_bit (8 * n) (v :: 'a::len word)"
proof (induction n)
  case 0
  then show ?case by simp
next
  case (Suc n)
  show ?case
    by (rule bit_word_eqI)
      (auto simp: Suc.IH bit_simps not_less)
qed

lemma be_get_put [wire_simps]:
  "LENGTH('a) \<le> 8 * n \<Longrightarrow> be_get (be_put n v) = (v :: 'a::len word)"
  by (simp add: be_get_put_take take_bit_word_eq_self)

lemma bit_be_get_high: "8 * length bs \<le> k \<Longrightarrow> \<not> bit (be_get bs :: 'a::len word) k"
proof (induction bs arbitrary: k)
  case Nil
  then show ?case by simp
next
  case (Cons b bs)
  have "8 * length bs \<le> k" "8 \<le> k - 8 * length bs" using Cons.prems by simp_all
  moreover have "\<not> bit b (k - 8 * length bs)"
    using \<open>8 \<le> k - 8 * length bs\<close> bit_imp_le_length [of b "k - 8 * length bs"] by auto
  ultimately show ?case by (simp add: bit_simps Cons.IH)
qed

lemma be_put_get [wire_simps]:
  "8 * length bs \<le> LENGTH('a) \<Longrightarrow> be_put (length bs) (be_get bs :: 'a::len word) = bs"
proof -
  have put_or: "be_put n (or (push_bit (8 * m) w) v) = be_put n v" if "n \<le> m"
    for n m and w v :: "'a word"
    using that
  proof (induction n)
    case (Suc n)
    have "ucast (drop_bit (8 * n) (or (push_bit (8 * m) w) v)) = (ucast (drop_bit (8 * n) v) :: byte)"
      by (rule bit_word_eqI) (use Suc.prems in \<open>auto simp: bit_simps\<close>)
    with Suc show ?case by simp
  qed simp
  assume "8 * length bs \<le> LENGTH('a)"
  then show ?thesis
  proof (induction bs)
    case Nil
    then show ?case by simp
  next
    case (Cons b bs)
    have "ucast (drop_bit (8 * length bs) (be_get (b # bs) :: 'a word)) = b"
      by (rule bit_word_eqI) (use Cons.prems in \<open>auto simp: bit_simps bit_be_get_high\<close>)
    with Cons show ?case by (simp add: put_or)
  qed
qed

lemma be_get_inj:
  assumes "length bs = length cs" "8 * length bs \<le> LENGTH('a)"
    "(be_get bs :: 'a::len word) = be_get cs"
  shows "bs = cs"
proof -
  have "bs = be_put (length bs) (be_get bs :: 'a word)"
    using assms(2) by (rule be_put_get [symmetric])
  also have "\<dots> = be_put (length cs) (be_get cs :: 'a word)"
    by (simp only: assms(1,3))
  also have "\<dots> = cs"
    using assms(1,2) by (intro be_put_get) simp
  finally show ?thesis .
qed

text \<open>\<^verbatim>\<open>binary.BigEndian\<close>: \<open>Uint32\<close> and \<open>Uint64\<close> read the first 4 or 8 bytes.\<close>

definition PutUint32 :: "u32 \<Rightarrow> bytes" where
  "PutUint32 v = be_put 4 v"

definition Uint32 :: "bytes \<Rightarrow> u32" where
  "Uint32 b = be_get (take 4 b)"

definition Uint64 :: "bytes \<Rightarrow> u64" where
  "Uint64 b = be_get (take 8 b)"

lemma length_PutUint32 [simp]: "length (PutUint32 v) = 4"
  by (simp add: PutUint32_def)

lemma Uint32_PutUint32 [simp]: "Uint32 (PutUint32 v @ b) = v"
  by (simp add: Uint32_def PutUint32_def be_get_put)

lemma PutUint32_inj [simp]: "PutUint32 v = PutUint32 w \<longleftrightarrow> v = w"
  by (metis Uint32_PutUint32)

lemma PutUint32_Uint32: "length b = 4 \<Longrightarrow> PutUint32 (Uint32 b) = b"
  using be_put_get [of b, where 'a=32] by (simp add: PutUint32_def Uint32_def)

lemma Uint64_inj: "length b = 8 \<Longrightarrow> length c = 8 \<Longrightarrow> Uint64 b = Uint64 c \<longleftrightarrow> b = c"
  using be_get_inj [of b c, where 'a=64] by (auto simp: Uint64_def)

end
