(* ===== verification/Spans.thy ===== *)
theory Spans
  imports Prelude
begin

text \<open>
  Splitting a batch of onions into spans, \<^verbatim>\<open>internal/span.go\<close>.  \<^verbatim>\<open>RunConvoRound\<close> and
  \<^verbatim>\<open>RunDialRound\<close> cut their batches with \<open>Spans total 4000\<close> and send one call per span.
\<close>

record Span =
  Start :: nat
  Count :: nat

text \<open>The loop of \<^verbatim>\<open>Spans\<close>; \<open>i\<close> is the loop variable.\<close>

function spans_loop :: "nat \<Rightarrow> nat \<Rightarrow> nat \<Rightarrow> Span list" where
  "spans_loop i tot spanSize =
     (if i < tot \<and> 0 < spanSize then
        (let c = (if i + spanSize \<le> tot then spanSize else tot - i)
         in \<lparr>Start = i, Count = c\<rparr> # spans_loop (i + c) tot spanSize)
      else [])"
  by pat_completeness auto
termination
  by (relation "measure (\<lambda>(i, tot, spanSize). tot - i)") auto

declare spans_loop.simps [simp del]

text \<open>
  The capacity of the result is \<open>(total + spanSize - 1) / spanSize\<close>, so a span size of 0
  panics with a division by zero before the loop.
\<close>

definition Spans :: "nat \<Rightarrow> nat \<Rightarrow> Span list outcome" where
  "Spans tot spanSize = (if spanSize = 0 then Panic else Ret (spans_loop 0 tot spanSize))"

definition span_range :: "Span \<Rightarrow> nat list" where
  "span_range s = [Start s..<Start s + Count s]"

definition span_of :: "'a list \<Rightarrow> Span \<Rightarrow> 'a list" where
  "span_of xs s = slice (Start s) (Start s + Count s) xs"

section \<open>The spans partition the batch\<close>

lemma span_range_make [simp]: "span_range \<lparr>Start = i, Count = c\<rparr> = [i..<i + c]"
  by (simp add: span_range_def)

lemma spans_loop_ranges:
  assumes "0 < k" "i \<le> tot"
  shows "concat (map span_range (spans_loop i tot k)) = [i..<tot]"
  using assms
proof (induction i tot k rule: spans_loop.induct)
  case (1 i tot k)
  show ?case
  proof (cases "i < tot")
    case True
    define c where "c = (if i + k \<le> tot then k else tot - i)"
    have c: "i + c \<le> tot" using True by (auto simp: c_def)
    have "concat (map span_range (spans_loop (i + c) tot k)) = [i + c..<tot]"
      using "1.IH" [of c] True "1.prems" c by (simp add: c_def)
    moreover have "[i..<i + c] @ [i + c..<tot] = [i..<tot]"
      using c by (intro upt_split) auto
    ultimately show ?thesis
      using True "1.prems"
      by (simp add: spans_loop.simps [of i] c_def [symmetric] Let_def)
  next
    case False
    then show ?thesis by (simp add: spans_loop.simps [of i])
  qed
qed

lemma spans_loop_counts:
  "\<forall>s \<in> set (spans_loop i tot k). 0 < Count s \<and> Count s \<le> k \<and> i \<le> Start s \<and> Start s + Count s \<le> tot"
proof (induction i tot k rule: spans_loop.induct)
  case (1 i tot k)
  show ?case
  proof (cases "i < tot \<and> 0 < k")
    case True
    then show ?thesis
      using "1.IH" [OF True refl] by (subst spans_loop.simps) (fastforce simp: Let_def)
  next
    case False
    then show ?thesis by (subst spans_loop.simps) auto
  qed
qed

lemma spans_loop_length:
  assumes "0 < k" "i \<le> tot"
  shows "length (spans_loop i tot k) = (tot - i + k - 1) div k"
  using assms
proof (induction i tot k rule: spans_loop.induct)
  case (1 i tot k)
  define c where "c = (if i + k \<le> tot then k else tot - i)"
  show ?case
  proof (cases "i < tot")
    case True
    have IH: "length (spans_loop (i + c) tot k) = (tot - (i + c) + k - 1) div k"
      using "1.IH" [of c] True "1.prems" by (simp add: c_def)
    have "Suc ((tot - (i + c) + k - 1) div k) = (tot - i + k - 1) div k"
    proof (cases "i + k \<le> tot")
      case True
      then have "tot - i + k - 1 = (tot - (i + k) + k - 1) + k"
        using \<open>0 < k\<close> by simp
      then have "(tot - i + k - 1) div k = Suc ((tot - (i + k) + k - 1) div k)"
        using \<open>0 < k\<close> by (simp only: div_add_self2)
      then show ?thesis using True by (simp add: c_def)
    next
      case False
      then have "tot - i + k - 1 = (tot - i - 1) + k" "tot - i - 1 < k"
        using \<open>i < tot\<close> by simp_all
      then have "(tot - i + k - 1) div k = Suc 0"
        using \<open>0 < k\<close> by (simp only: div_add_self2) simp
      then show ?thesis using False \<open>0 < k\<close> \<open>i < tot\<close> by (simp add: c_def)
    qed
    with True "1.prems" IH show ?thesis
      by (simp add: spans_loop.simps [of i] c_def [symmetric] Let_def)
  next
    case False
    then show ?thesis using "1.prems" by (subst spans_loop.simps) simp
  qed
qed

lemma slice_conv_nth: "j \<le> length xs \<Longrightarrow> slice i j xs = map ((!) xs) [i..<j]"
  by (rule nth_equalityI) (auto simp: slice_def)

lemma spans_concat:
  assumes "Spans (length xs) k = Ret ss"
  shows "concat (map (span_of xs) ss) = xs"
proof -
  from assms have k: "0 < k" and ss: "ss = spans_loop 0 (length xs) k"
    by (auto simp: Spans_def split: if_splits)
  have "map (span_of xs) ss = map (\<lambda>s. map ((!) xs) (span_range s)) ss"
    using spans_loop_counts [of 0 "length xs" k]
    by (auto simp: span_of_def span_range_def slice_conv_nth ss)
  then have "concat (map (span_of xs) ss) = map ((!) xs) (concat (map span_range ss))"
    by (simp only: map_concat map_map comp_def)
  also have "\<dots> = xs"
    using spans_loop_ranges [OF k, of 0 "length xs"] by (simp add: ss map_nth)
  finally show ?thesis .
qed

text \<open>
  For every positive span size, \<open>Spans\<close> returns spans that cut any batch of that many
  elements into consecutive pieces whose concatenation is the batch, none empty and none longer
  than the span size, and exactly as many as the capacity the code reserves.
\<close>

theorem Spans_partition:
  assumes "0 < k"
  shows "\<exists>ss. Spans (length xs) k = Ret ss \<and> concat (map (span_of xs) ss) = xs
    \<and> (\<forall>s \<in> set ss. 0 < Count s \<and> Count s \<le> k \<and> Start s + Count s \<le> length xs)
    \<and> concat (map span_range ss) = [0..<length xs]
    \<and> length ss = (length xs + k - 1) div k"
proof -
  have run: "Spans (length xs) k = Ret (spans_loop 0 (length xs) k)"
    using assms by (simp add: Spans_def)
  show ?thesis
    using run spans_concat [OF run] spans_loop_counts [of 0 "length xs" k]
      spans_loop_ranges [OF assms, of 0] spans_loop_length [OF assms, of 0]
    by auto
qed

theorem Spans_partition_witness:
  "\<exists>ss. Spans (length ''abcde'') 2 = Ret ss \<and> concat (map (span_of ''abcde'') ss) = ''abcde''
    \<and> length ss = 3"
  using Spans_partition [of 2 "''abcde''"] by auto

end
