(* ===== verification/ParallelFor.thy ===== *)
theory ParallelFor
  imports Prelude "HOL-Library.Multiset"
begin

text \<open>
  The work-sharing loop of \<^verbatim>\<open>internal/parallelfor.go\<close>.  \<^verbatim>\<open>ParallelFor(n, f)\<close> starts one
  goroutine per CPU; each draws indices with \<^verbatim>\<open>P.Next\<close>, which takes chunks of \<^verbatim>\<open>step\<close> indices
  from a shared counter with one atomic addition.  The goroutines interleave freely, so the loop
  is a step relation: a step is one goroutine calling \<^verbatim>\<open>P.Next\<close> and, when an index came back,
  running the loop body on it.  \<open>taken\<close> records the indices in the order they were drawn.

  What the library shows: in every completed execution each index is drawn exactly once, every
  execution ends, and a loop whose bodies write their own slot computes a \<open>map\<close>.  The last is
  what lets the other theories write such loops as \<open>map\<close>s and folds.
\<close>

record GP =
  gp_max :: int
  gp_current :: int
  gp_step :: int

record P =
  p_max :: int
  p_current :: int

definition GP_Next :: "GP \<Rightarrow> (int \<times> bool) \<times> GP" where
  "GP_Next gp =
     (let gp' = gp\<lparr>gp_current := wrap_int (gp_current gp + gp_step gp)\<rparr>;
          base = wrap_int (gp_current gp' - gp_step gp')
      in if gp_max gp' \<le> base then ((0, False), gp') else ((base, True), gp'))"

definition P_Next :: "P \<Rightarrow> GP \<Rightarrow> (int \<times> bool) \<times> P \<times> GP" where
  "P_Next p gp =
     (if p_max p \<le> p_current p then
        (case GP_Next gp of
           ((r, ok), gp') \<Rightarrow>
             if \<not> ok then ((0, False), p, gp')
             else
               (let m = wrap_int (r + gp_step gp');
                    m' = (if gp_max gp' < m then gp_max gp' else m)
                in ((r, True), \<lparr>p_max = m', p_current = wrap_int (r + 1)\<rparr>, gp')))
      else ((p_current p, True), p\<lparr>p_current := wrap_int (p_current p + 1)\<rparr>, gp))"

text \<open>The state of one \<^verbatim>\<open>ParallelFor\<close>: \<open>live\<close> goroutines have not called \<^verbatim>\<open>wg.Done\<close> yet.\<close>

record 's pfor =
  pf_gp :: GP
  pf_ps :: "P list"
  pf_live :: "bool list"
  pf_taken :: "nat list"
  pf_shared :: 's

definition pf_step_size :: "nat \<Rightarrow> nat \<Rightarrow> int" where
  "pf_step_size n ncpu = (let step = int n div int ncpu div 100 in if step < 10 then 10 else step)"

definition pf_init :: "nat \<Rightarrow> nat \<Rightarrow> 's \<Rightarrow> 's pfor" where
  "pf_init n ncpu sh =
     \<lparr>pf_gp = \<lparr>gp_max = int n, gp_current = 0, gp_step = pf_step_size n ncpu\<rparr>,
      pf_ps = replicate ncpu \<lparr>p_max = 0, p_current = 0\<rparr>,
      pf_live = replicate ncpu True, pf_taken = [], pf_shared = sh\<rparr>"

inductive pf_step :: "(nat \<Rightarrow> 's \<Rightarrow> 's) \<Rightarrow> 's pfor \<Rightarrow> 's pfor \<Rightarrow> bool" for body where
  pf_iter: "w < length (pf_ps s) \<Longrightarrow> pf_live s ! w \<Longrightarrow>
     P_Next (pf_ps s ! w) (pf_gp s) = ((i, True), p', gp') \<Longrightarrow>
     pf_step body s (s\<lparr>pf_gp := gp', pf_ps := (pf_ps s)[w := p'],
       pf_taken := pf_taken s @ [nat i], pf_shared := body (nat i) (pf_shared s)\<rparr>)"
| pf_stop: "w < length (pf_ps s) \<Longrightarrow> pf_live s ! w \<Longrightarrow>
     P_Next (pf_ps s ! w) (pf_gp s) = ((i, False), p', gp') \<Longrightarrow>
     pf_step body s (s\<lparr>pf_gp := gp', pf_ps := (pf_ps s)[w := p'],
       pf_live := (pf_live s)[w := False]\<rparr>)"

definition pf_finished :: "'s pfor \<Rightarrow> bool" where
  "pf_finished s \<longleftrightarrow> True \<notin> set (pf_live s)"

text \<open>
  The shared counter overshoots \<open>n\<close> by at most one step per goroutine and one more;
  \<open>pf_fits\<close> says that this stays within a signed 64-bit integer.
\<close>

definition pf_fits :: "nat \<Rightarrow> nat \<Rightarrow> bool" where
  "pf_fits n ncpu \<longleftrightarrow> 0 < ncpu \<and> int n + (int ncpu + 2) * pf_step_size n ncpu < 2 ^ 63"

section \<open>The invariant\<close>

definition p_range :: "P \<Rightarrow> nat list" where
  "p_range p = [nat (p_current p)..<nat (p_max p)]"

definition live_count :: "'s pfor \<Rightarrow> nat" where
  "live_count s = length (filter id (pf_live s))"

definition pf_inv :: "(nat \<Rightarrow> 's \<Rightarrow> 's) \<Rightarrow> nat \<Rightarrow> nat \<Rightarrow> 's \<Rightarrow> 's pfor \<Rightarrow> bool" where
  "pf_inv body n ncpu sh s \<longleftrightarrow>
     gp_max (pf_gp s) = int n \<and> gp_step (pf_gp s) = pf_step_size n ncpu \<and>
     length (pf_ps s) = ncpu \<and> length (pf_live s) = ncpu \<and>
     0 \<le> gp_current (pf_gp s) \<and>
     gp_current (pf_gp s) \<le> int n + (int (ncpu - live_count s) + 1) * pf_step_size n ncpu \<and>
     (\<forall>p \<in> set (pf_ps s). 0 \<le> p_current p \<and> p_max p \<le> int n) \<and>
     (\<forall>w < ncpu. \<not> pf_live s ! w \<longrightarrow> p_max (pf_ps s ! w) \<le> p_current (pf_ps s ! w) \<and> int n \<le> gp_current (pf_gp s)) \<and>
     mset (pf_taken s) + (\<Sum>p\<leftarrow>pf_ps s. mset (p_range p)) = mset [0..<min n (nat (gp_current (pf_gp s)))] \<and>
     pf_shared s = fold body (pf_taken s) sh"

lemma pf_step_size_pos: "10 \<le> pf_step_size n ncpu"
  by (simp add: pf_step_size_def Let_def)

lemma sum_list_update_comm:
  fixes f :: "'b \<Rightarrow> 'c::comm_monoid_add"
  shows "i < length xs \<Longrightarrow> (\<Sum>x\<leftarrow>xs[i := y]. f x) + f (xs ! i) = (\<Sum>x\<leftarrow>xs. f x) + f y"
proof (induction xs arbitrary: i)
  case (Cons x xs)
  show ?case
  proof (cases i)
    case 0
    then show ?thesis by (simp add: ac_simps)
  next
    case (Suc j)
    then show ?thesis using Cons by (simp add: add.assoc)
  qed
qed simp

lemma live_count_update:
  "w < length (pf_live s) \<Longrightarrow> pf_live s ! w \<Longrightarrow>
   live_count (s\<lparr>pf_live := (pf_live s)[w := False]\<rparr>) + 1 = live_count s"
proof -
  have "i < length bs \<Longrightarrow> bs ! i \<Longrightarrow> length (filter id (bs[i := False])) + 1 = length (filter id bs)"
    for i and bs :: "bool list"
  proof (induction bs arbitrary: i)
    case (Cons b bs)
    then show ?case by (cases i) simp_all
  qed simp
  then show "w < length (pf_live s) \<Longrightarrow> pf_live s ! w \<Longrightarrow> ?thesis"
    by (simp add: live_count_def)
qed

lemma live_count_le: "live_count s \<le> length (pf_live s)"
  by (simp add: live_count_def)

lemma live_count_pos: "w < length (pf_live s) \<Longrightarrow> pf_live s ! w \<Longrightarrow> 0 < live_count s"
  using nth_mem [of w "pf_live s"] by (auto simp: live_count_def filter_empty_conv)

section \<open>What one call of \<^verbatim>\<open>P.Next\<close> does\<close>

lemma P_Next_local:
  assumes "p_current p < p_max p" "0 \<le> p_current p" "p_max p < 2 ^ 63"
  shows "P_Next p gp = ((p_current p, True), p\<lparr>p_current := p_current p + 1\<rparr>, gp)"
  using assms by (simp add: P_Next_def wrap_int_id)

lemma P_Next_chunk:
  assumes "p_max p \<le> p_current p" "gp_current gp < gp_max gp" "0 \<le> gp_current gp"
    "0 < gp_step gp" "gp_current gp + gp_step gp < 2 ^ 63"
  shows "P_Next p gp =
    ((gp_current gp, True),
     \<lparr>p_max = min (gp_max gp) (gp_current gp + gp_step gp), p_current = gp_current gp + 1\<rparr>,
     gp\<lparr>gp_current := gp_current gp + gp_step gp\<rparr>)"
  using assms by (simp add: P_Next_def GP_Next_def wrap_int_id Let_def)

lemma P_Next_stop:
  assumes "p_max p \<le> p_current p" "gp_max gp \<le> gp_current gp" "0 \<le> gp_current gp"
    "0 < gp_step gp" "gp_current gp + gp_step gp < 2 ^ 63"
  shows "P_Next p gp = ((0, False), p, gp\<lparr>gp_current := gp_current gp + gp_step gp\<rparr>)"
  using assms by (simp add: P_Next_def GP_Next_def wrap_int_id Let_def)

text \<open>The three cases, for a goroutine that is still running in a state that satisfies the invariant.\<close>

lemma pf_inv_fits:
  assumes "pf_inv body n ncpu sh s" "pf_fits n ncpu" "w < ncpu" "pf_live s ! w"
  shows "gp_current (pf_gp s) + pf_step_size n ncpu < 2 ^ 63"
proof -
  let ?st = "pf_step_size n ncpu"
  have live: "0 < live_count s" "live_count s \<le> ncpu"
    using assms live_count_pos [of w s] live_count_le [of s] by (auto simp: pf_inv_def)
  then have "int (ncpu - live_count s) + 1 \<le> int ncpu" by simp
  then have "(int (ncpu - live_count s) + 1) * ?st \<le> int ncpu * ?st"
    using pf_step_size_pos [of n ncpu] by (intro mult_right_mono) auto
  moreover have "gp_current (pf_gp s) \<le> int n + (int (ncpu - live_count s) + 1) * ?st"
    using assms(1) by (simp add: pf_inv_def)
  moreover have "int n + int ncpu * ?st + 2 * ?st < 2 ^ 63"
    using assms(2) by (simp add: pf_fits_def algebra_simps)
  ultimately show ?thesis using pf_step_size_pos [of n ncpu] by linarith
qed

lemma pf_inv_n: "pf_fits n ncpu \<Longrightarrow> int n < 2 ^ 63"
proof -
  assume "pf_fits n ncpu"
  moreover have "0 \<le> (int ncpu + 2) * pf_step_size n ncpu"
    using pf_step_size_pos [of n ncpu] by simp
  ultimately show "int n < 2 ^ 63" unfolding pf_fits_def by linarith
qed

lemma P_Next_cases:
  assumes inv: "pf_inv body n ncpu sh s" and fits: "pf_fits n ncpu"
    and w: "w < ncpu" "pf_live s ! w"
    and nxt: "P_Next (pf_ps s ! w) (pf_gp s) = ((i, ok), p', gp')"
  obtains
    (local) "ok" "p_current (pf_ps s ! w) < p_max (pf_ps s ! w)" "i = p_current (pf_ps s ! w)"
      "p' = (pf_ps s ! w)\<lparr>p_current := i + 1\<rparr>" "gp' = pf_gp s"
  | (chunk) "ok" "p_max (pf_ps s ! w) \<le> p_current (pf_ps s ! w)" "i = gp_current (pf_gp s)" "i < int n"
      "p' = \<lparr>p_max = min (int n) (i + pf_step_size n ncpu), p_current = i + 1\<rparr>"
      "gp' = (pf_gp s)\<lparr>gp_current := i + pf_step_size n ncpu\<rparr>"
  | (stop) "\<not> ok" "p_max (pf_ps s ! w) \<le> p_current (pf_ps s ! w)" "int n \<le> gp_current (pf_gp s)"
      "p' = pf_ps s ! w"
      "gp' = (pf_gp s)\<lparr>gp_current := gp_current (pf_gp s) + pf_step_size n ncpu\<rparr>"
proof -
  let ?p = "pf_ps s ! w" and ?gp = "pf_gp s"
  have mem: "?p \<in> set (pf_ps s)" using inv w by (simp add: pf_inv_def)
  have p: "0 \<le> p_current ?p" "p_max ?p \<le> int n"
    using inv mem by (auto simp: pf_inv_def)
  have gp: "gp_max ?gp = int n" "gp_step ?gp = pf_step_size n ncpu" "0 \<le> gp_current ?gp"
    using inv by (auto simp: pf_inv_def)
  have pos: "0 < gp_step ?gp" using gp pf_step_size_pos [of n ncpu] by simp
  have room: "gp_current ?gp + gp_step ?gp < 2 ^ 63"
    using pf_inv_fits [OF inv fits w] gp by simp
  have n: "p_max ?p < 2 ^ 63" using p pf_inv_n [OF fits] by simp
  show thesis
  proof (cases "p_current ?p < p_max ?p")
    case True
    then show thesis using P_Next_local [OF True p(1) n, of ?gp] nxt local by auto
  next
    case False
    then have exhausted: "p_max ?p \<le> p_current ?p" by simp
    show thesis
    proof (cases "gp_current ?gp < gp_max ?gp")
      case True
      then show thesis
        using P_Next_chunk [OF exhausted True gp(3) pos room] nxt gp exhausted chunk by auto
    next
      case False
      then show thesis
        using P_Next_stop [OF exhausted _ gp(3) pos room] nxt gp exhausted stop by auto
    qed
  qed
qed

section \<open>Every step keeps the invariant\<close>

lemma ranges_update:
  assumes "w < length ps"
  shows "(\<Sum>p\<leftarrow>ps[w := p']. mset (p_range p)) + mset (p_range (ps ! w)) =
    (\<Sum>p\<leftarrow>ps. mset (p_range p)) + mset (p_range p')"
  using assms by (rule sum_list_update_comm)

lemma pf_inv_local:
  assumes inv: "pf_inv body n ncpu sh s" and w: "w < ncpu" "pf_live s ! w"
    and c: "p_current (pf_ps s ! w) < p_max (pf_ps s ! w)" "i = p_current (pf_ps s ! w)"
      "p' = (pf_ps s ! w)\<lparr>p_current := i + 1\<rparr>"
  shows "pf_inv body n ncpu sh (s\<lparr>pf_gp := pf_gp s, pf_ps := (pf_ps s)[w := p'],
       pf_taken := pf_taken s @ [nat i], pf_shared := body (nat i) (pf_shared s)\<rparr>)"
proof -
  have mem: "pf_ps s ! w \<in> set (pf_ps s)" and len: "w < length (pf_ps s)"
    using inv w by (auto simp: pf_inv_def)
  then have "0 \<le> p_current (pf_ps s ! w) \<and> p_max (pf_ps s ! w) \<le> int n"
    using inv unfolding pf_inv_def by blast
  then have i: "0 \<le> i" "i < int n" using c by linarith+
  have "p_range (pf_ps s ! w) = nat i # p_range p'"
    using i c by (simp add: p_range_def upt_conv_Cons nat_add_distrib)
  then have "(\<Sum>p\<leftarrow>pf_ps s. mset (p_range p)) = {#nat i#} + (\<Sum>p\<leftarrow>(pf_ps s)[w := p']. mset (p_range p))"
    using ranges_update [OF len, of p'] by simp
  then have "mset (pf_taken s @ [nat i]) + (\<Sum>p\<leftarrow>(pf_ps s)[w := p']. mset (p_range p)) =
      mset [0..<min n (nat (gp_current (pf_gp s)))]"
    using inv by (simp add: pf_inv_def)
  moreover have "\<forall>p \<in> set ((pf_ps s)[w := p']). 0 \<le> p_current p \<and> p_max p \<le> int n"
    using inv mem i c set_update_subset_insert [of "pf_ps s" w p'] by (auto simp: pf_inv_def)
  ultimately show ?thesis
    using inv w by (auto simp: pf_inv_def live_count_def nth_list_update)
qed

lemma pf_inv_chunk:
  assumes inv: "pf_inv body n ncpu sh s" and w: "w < ncpu" "pf_live s ! w"
    and c: "p_max (pf_ps s ! w) \<le> p_current (pf_ps s ! w)" "i = gp_current (pf_gp s)" "i < int n"
      "p' = \<lparr>p_max = min (int n) (i + pf_step_size n ncpu), p_current = i + 1\<rparr>"
      "gp' = (pf_gp s)\<lparr>gp_current := i + pf_step_size n ncpu\<rparr>"
  shows "pf_inv body n ncpu sh (s\<lparr>pf_gp := gp', pf_ps := (pf_ps s)[w := p'],
       pf_taken := pf_taken s @ [nat i], pf_shared := body (nat i) (pf_shared s)\<rparr>)"
proof -
  let ?st = "pf_step_size n ncpu" and ?m = "nat (min (int n) (i + pf_step_size n ncpu))"
  have len: "w < length (pf_ps s)" using inv w by (simp add: pf_inv_def)
  have i: "0 \<le> i" using inv c by (auto simp: pf_inv_def)
  have st: "10 \<le> ?st" by (rule pf_step_size_pos)
  have m: "nat i < ?m" "?m = min n (nat (i + ?st))" using i st c by auto
  have "p_range (pf_ps s ! w) = []" using c by (simp add: p_range_def)
  then have sum: "(\<Sum>p\<leftarrow>(pf_ps s)[w := p']. mset (p_range p)) =
      (\<Sum>p\<leftarrow>pf_ps s. mset (p_range p)) + mset [Suc (nat i)..<?m]"
    using ranges_update [OF len, of p'] i c by (simp add: p_range_def nat_add_distrib)
  have "[0..<?m] = [0..<nat i] @ nat i # [Suc (nat i)..<?m]"
    using upt_split [of 0 "nat i" ?m, OF le0 less_imp_le [OF m(1)]] upt_conv_Cons [OF m(1)] by simp
  moreover have "mset (pf_taken s) + (\<Sum>p\<leftarrow>pf_ps s. mset (p_range p)) = mset [0..<nat i]"
    using inv c i by (simp add: pf_inv_def min_def split: if_splits)
  ultimately have taken: "mset (pf_taken s @ [nat i]) + (\<Sum>p\<leftarrow>(pf_ps s)[w := p']. mset (p_range p)) =
      mset [0..<min n (nat (i + ?st))]"
    unfolding m(2) [symmetric] by (simp add: sum add.assoc [symmetric])
  have "\<forall>p \<in> set ((pf_ps s)[w := p']). 0 \<le> p_current p \<and> p_max p \<le> int n"
    using inv i c set_update_subset_insert [of "pf_ps s" w p'] by (auto simp: pf_inv_def)
  moreover have "i + ?st \<le> int n + (int (ncpu - live_count s) + 1) * ?st"
  proof -
    have "0 \<le> int (ncpu - live_count s) * ?st" using st by simp
    then show ?thesis using c(3) unfolding distrib_right by simp
  qed
  ultimately show ?thesis
    using inv w taken i c st
    by (auto simp: pf_inv_def live_count_def nth_list_update)
qed

lemma pf_inv_stop:
  assumes inv: "pf_inv body n ncpu sh s" and w: "w < ncpu" "pf_live s ! w"
    and c: "p_max (pf_ps s ! w) \<le> p_current (pf_ps s ! w)" "int n \<le> gp_current (pf_gp s)"
      "gp' = (pf_gp s)\<lparr>gp_current := gp_current (pf_gp s) + pf_step_size n ncpu\<rparr>"
  shows "pf_inv body n ncpu sh (s\<lparr>pf_gp := gp', pf_ps := (pf_ps s)[w := pf_ps s ! w],
       pf_live := (pf_live s)[w := False]\<rparr>)"
proof -
  let ?st = "pf_step_size n ncpu"
  have st: "10 \<le> ?st" by (rule pf_step_size_pos)
  have live: "live_count (s\<lparr>pf_live := (pf_live s)[w := False]\<rparr>) + 1 = live_count s"
    using inv w by (intro live_count_update) (auto simp: pf_inv_def)
  have le: "live_count s \<le> ncpu" using inv live_count_le [of s] by (simp add: pf_inv_def)
  have "int (ncpu - (live_count s - 1)) = int (ncpu - live_count s) + 1" using le live by auto
  then have "gp_current (pf_gp s) + ?st \<le> int n + (int (ncpu - (live_count s - 1)) + 1) * ?st"
    using inv by (simp add: pf_inv_def algebra_simps)
  moreover have "live_count (s\<lparr>pf_gp := gp', pf_ps := pf_ps s, pf_live := (pf_live s)[w := False]\<rparr>) = live_count s - 1"
    using live by (simp add: live_count_def)
  ultimately show ?thesis
    using inv w c st by (auto simp: pf_inv_def nth_list_update min_def)
qed

lemma pf_inv_step:
  assumes "pf_step body s t" "pf_inv body n ncpu sh s" "pf_fits n ncpu"
  shows "pf_inv body n ncpu sh t"
  using assms(1)
proof cases
  case (pf_iter w i p' gp')
  then have w: "w < ncpu" using assms(2) by (simp add: pf_inv_def)
  show ?thesis
    using assms(2,3) w pf_iter(3,4)
  proof (cases rule: P_Next_cases)
    case local
    then show ?thesis using pf_inv_local [OF assms(2) w pf_iter(3)] pf_iter(1) by simp
  next
    case chunk
    then show ?thesis using pf_inv_chunk [OF assms(2) w pf_iter(3)] pf_iter(1) by simp
  qed simp
next
  case (pf_stop w i p' gp')
  then have w: "w < ncpu" using assms(2) by (simp add: pf_inv_def)
  show ?thesis
    using assms(2,3) w pf_stop(3,4)
  proof (cases rule: P_Next_cases)
    case stop
    then show ?thesis using pf_inv_stop [OF assms(2) w pf_stop(3)] pf_stop(1) by simp
  qed simp_all
qed

lemma pf_inv_init: "pf_inv body n ncpu sh (pf_init n ncpu sh)"
  using pf_step_size_pos [of n ncpu]
  by (simp add: pf_inv_def pf_init_def p_range_def live_count_def)

lemma pf_inv_reachable:
  assumes "(pf_step body)\<^sup>*\<^sup>* (pf_init n ncpu sh) s" "pf_fits n ncpu"
  shows "pf_inv body n ncpu sh s"
  using assms(1)
proof (induction rule: rtranclp_induct)
  case base
  show ?case by (rule pf_inv_init)
next
  case (step s t)
  show ?case by (rule pf_inv_step [OF step.hyps(2) step.IH assms(2)])
qed

section \<open>Termination\<close>

text \<open>Each step draws an index that was not drawn before or retires a goroutine.\<close>

definition pf_left :: "nat \<Rightarrow> 's pfor \<Rightarrow> nat" where
  "pf_left n s = n - length (pf_taken s) + live_count s"

lemma pf_taken_le:
  assumes "pf_inv body n ncpu sh s"
  shows "length (pf_taken s) \<le> n"
proof -
  have "mset (pf_taken s) \<subseteq># mset [0..<min n (nat (gp_current (pf_gp s)))]"
    using assms unfolding pf_inv_def by (metis mset_subset_eq_add_left)
  then show ?thesis by (drule_tac size_mset_mono) simp
qed

lemma pf_step_left:
  assumes step: "pf_step body s t" and inv: "pf_inv body n ncpu sh s" and fits: "pf_fits n ncpu"
  shows "Suc (pf_left n t) = pf_left n s"
  using step
proof cases
  case (pf_iter w i p' gp')
  then have "length (pf_taken t) = Suc (length (pf_taken s))" "live_count t = live_count s"
    by (simp_all add: live_count_def)
  then show ?thesis
    using pf_taken_le [OF pf_inv_step [OF step inv fits]] by (simp add: pf_left_def)
next
  case (pf_stop w i p' gp')
  then have "live_count t + 1 = live_count s"
    using live_count_update [of w s] inv by (simp add: pf_inv_def live_count_def)
  then show ?thesis using pf_stop by (simp add: pf_left_def)
qed

lemma pf_steps_left:
  assumes "(pf_step body ^^ k) (pf_init n ncpu sh) s" "pf_fits n ncpu"
  shows "k + pf_left n s = n + ncpu"
  using assms(1)
proof (induction k arbitrary: s)
  case 0
  then have "s = pf_init n ncpu sh" by simp
  then show ?case by (simp add: pf_left_def pf_init_def live_count_def)
next
  case (Suc k)
  then obtain t where run: "(pf_step body ^^ k) (pf_init n ncpu sh) t" and st: "pf_step body t s"
    by auto
  have inv: "pf_inv body n ncpu sh t"
    using run assms(2) relpowp_imp_rtranclp pf_inv_reachable by metis
  show ?case using pf_step_left [OF st inv assms(2)] Suc.IH [OF run] by simp
qed

lemma pf_progress:
  assumes "pf_inv body n ncpu sh s" "\<not> pf_finished s"
  shows "\<exists>t. pf_step body s t"
proof -
  obtain w where w: "w < ncpu" "pf_live s ! w"
    using assms by (auto simp: pf_finished_def pf_inv_def in_set_conv_nth)
  obtain i ok p' gp' where "P_Next (pf_ps s ! w) (pf_gp s) = ((i, ok), p', gp')"
    by (metis prod.collapse)
  then show ?thesis
    using w assms(1) pf_iter [of w s i p' gp' body] pf_stop [of w s i p' gp' body]
    by (cases ok) (auto simp: pf_inv_def)
qed

lemma pf_finished_perm:
  assumes "pf_inv body n ncpu sh s" "pf_finished s" "0 < ncpu"
  shows "mset (pf_taken s) = mset [0..<n]"
proof -
  have dead: "\<not> pf_live s ! w" if "w < ncpu" for w
    using that assms(1,2) nth_mem [of w "pf_live s"] unfolding pf_finished_def pf_inv_def by metis
  have "p_range p = []" if "p \<in> set (pf_ps s)" for p
    using that assms(1) dead by (auto simp: pf_inv_def p_range_def in_set_conv_nth)
  then have "(\<Sum>p\<leftarrow>pf_ps s. mset (p_range p)) = {#}"
    by (simp cong: map_cong add: map_replicate_const)
  moreover have "int n \<le> gp_current (pf_gp s)"
    using assms(1,3) dead [of 0] by (auto simp: pf_inv_def)
  ultimately show ?thesis
    using assms(1) by (simp add: pf_inv_def min_def split: if_splits)
qed

lemma pf_completes_from:
  assumes "pf_inv body n ncpu sh s" "pf_fits n ncpu"
  shows "\<exists>t. (pf_step body)\<^sup>*\<^sup>* s t \<and> pf_finished t"
  using assms(1)
proof (induction "pf_left n s" arbitrary: s rule: less_induct)
  case less
  show ?case
  proof (cases "pf_finished s")
    case False
    obtain t where t: "pf_step body s t" using pf_progress [OF less.prems False] ..
    have "pf_left n t < pf_left n s"
      using pf_step_left [OF t less.prems assms(2)] by simp
    then obtain u where "(pf_step body)\<^sup>*\<^sup>* t u" "pf_finished u"
      using less.hyps [OF _ pf_inv_step [OF t less.prems assms(2)]] by blast
    with t show ?thesis by (blast intro: converse_rtranclp_into_rtranclp)
  qed auto
qed

section \<open>The contract of a loop that runs each index once\<close>

text \<open>
  The order in which the bodies of such a loop run is any permutation of the indices.  The two
  consequences clients use: commuting bodies may be run in index order, and bodies that each fill
  their own slot compute a \<open>map\<close>.
\<close>

locale exactly_once =
  fixes runs :: "nat \<Rightarrow> nat list \<Rightarrow> bool"
  assumes runs_perm: "runs n ks \<Longrightarrow> mset ks = mset [0..<n]"
begin

lemma commuting_bodies:
  assumes "runs n ks"
    and "\<And>i j. i < n \<Longrightarrow> j < n \<Longrightarrow> body i \<circ> body j = body j \<circ> body i"
  shows "fold body ks = fold body [0..<n]"
proof (rule fold_multiset_equiv)
  have ks: "set ks = {0..<n}"
    using runs_perm [OF assms(1)] mset_eq_setD by fastforce
  show "body i \<circ> body j = body j \<circ> body i" if "i \<in> set ks" "j \<in> set ks" for i j
    using that assms(2) by (simp add: ks)
  show "mset ks = mset [0..<n]" using assms(1) by (rule runs_perm)
qed

lemma slot_writes:
  assumes "runs n ks" "length dest = n"
  shows "fold (\<lambda>i m. m[i := g i]) ks dest = map g [0..<n]"
proof -
  have "fold (\<lambda>i m. m[i := g i]) ks = fold (\<lambda>i m. m[i := g i]) [0..<n]"
    using assms(1)
  proof (rule commuting_bodies)
    fix i j
    show "(\<lambda>m. m[i := g i]) \<circ> (\<lambda>m. m[j := g j]) = (\<lambda>m. m[j := g j]) \<circ> (\<lambda>m. m[i := g i])"
      by (cases "i = j") (simp_all add: fun_eq_iff list_update_swap)
  qed
  moreover have "k \<le> n \<Longrightarrow> fold (\<lambda>i m. m[i := g i]) [0..<k] dest = map g [0..<k] @ drop k dest" for k
  proof (induction k)
    case (Suc k)
    then have "drop k dest = dest ! k # drop (Suc k) dest"
      using assms(2) by (simp add: Cons_nth_drop_Suc)
    with Suc show ?case by (simp add: list_update_append)
  qed simp
  from this [of n] have "fold (\<lambda>i m. m[i := g i]) [0..<n] dest = map g [0..<n]"
    using assms(2) by simp
  ultimately show ?thesis by simp
qed

end

text \<open>The draw orders of the completed executions of \<^verbatim>\<open>ParallelFor\<close>.\<close>

definition pf_order :: "nat \<Rightarrow> nat list \<Rightarrow> bool" where
  "pf_order n ks \<longleftrightarrow> (\<exists>ncpu s. pf_fits n ncpu \<and>
     (pf_step (\<lambda>_. id))\<^sup>*\<^sup>* (pf_init n ncpu ()) s \<and> pf_finished s \<and> pf_taken s = ks)"

interpretation pfor: exactly_once pf_order
proof
  fix n ks
  assume "pf_order n ks"
  then obtain ncpu s where fits: "pf_fits n ncpu"
    and run: "(pf_step (\<lambda>_. id))\<^sup>*\<^sup>* (pf_init n ncpu ()) s" and fin: "pf_finished s" "pf_taken s = ks"
    by (auto simp: pf_order_def)
  have "0 < ncpu" using fits by (simp add: pf_fits_def)
  then show "mset ks = mset [0..<n]"
    using pf_finished_perm [OF pf_inv_reachable [OF run fits]] fin by blast
qed

text \<open>Which indices are drawn does not depend on what the bodies do.\<close>

definition pf_erase :: "'s pfor \<Rightarrow> unit pfor" where
  "pf_erase s = \<lparr>pf_gp = pf_gp s, pf_ps = pf_ps s, pf_live = pf_live s, pf_taken = pf_taken s, pf_shared = ()\<rparr>"

lemma pf_erase_step:
  assumes "pf_step body s t"
  shows "pf_step (\<lambda>_. id) (pf_erase s) (pf_erase t)"
  using assms
proof cases
  case (pf_iter w i p' gp')
  then show ?thesis
    using pf_step.pf_iter [of w "pf_erase s" i p' gp' "\<lambda>_. id"] by (simp add: pf_erase_def)
next
  case (pf_stop w i p' gp')
  then show ?thesis
    using pf_step.pf_stop [of w "pf_erase s" i p' gp' "\<lambda>_. id"] by (simp add: pf_erase_def)
qed

lemma pf_order_run:
  assumes "(pf_step body)\<^sup>*\<^sup>* (pf_init n ncpu sh) s" "pf_finished s" "pf_fits n ncpu"
  shows "pf_order n (pf_taken s)"
proof -
  have "(pf_step (\<lambda>_. id))\<^sup>*\<^sup>* (pf_erase (pf_init n ncpu sh)) (pf_erase s)"
    using assms(1)
  proof (induction rule: rtranclp_induct)
    case base
    show ?case by (rule rtranclp.rtrancl_refl)
  next
    case (step t u)
    show ?case by (rule rtranclp.rtrancl_into_rtrancl [OF step.IH pf_erase_step [OF step.hyps(2)]])
  qed
  moreover have "pf_erase (pf_init n ncpu sh) = pf_init n ncpu ()"
    by (simp add: pf_erase_def pf_init_def)
  moreover have "pf_finished (pf_erase s)" "pf_taken (pf_erase s) = pf_taken s"
    using assms(2) by (simp_all add: pf_finished_def pf_erase_def)
  ultimately show ?thesis using assms(3) unfolding pf_order_def by metis
qed

section \<open>Properties of \<^verbatim>\<open>ParallelFor\<close>\<close>

text \<open>
  C18: in every execution of \<^verbatim>\<open>ParallelFor\<close> that has returned, however the goroutines were
  scheduled, the indices drawn are exactly \<open>0..n-1\<close>, each once, and the shared state is what the
  bodies give when run in the order of the draws.
\<close>

theorem ParallelFor_exactly_once:
  assumes "pf_fits n ncpu" "(pf_step body)\<^sup>*\<^sup>* (pf_init n ncpu sh) s" "pf_finished s"
  shows "distinct (pf_taken s) \<and> set (pf_taken s) = {0..<n} \<and> pf_shared s = fold body (pf_taken s) sh"
proof -
  have perm: "mset (pf_taken s) = mset [0..<n]"
    using pf_order_run [OF assms(2,3,1)] by (rule pfor.runs_perm)
  have "distinct (pf_taken s)"
    using perm mset_eq_imp_distinct_iff [OF perm] by simp
  moreover have "set (pf_taken s) = {0..<n}"
    using mset_eq_setD [OF perm] by simp
  moreover have "pf_shared s = fold body (pf_taken s) sh"
    using pf_inv_reachable [OF assms(2,1)] by (simp add: pf_inv_def)
  ultimately show ?thesis by blast
qed

text \<open>
  A \<^verbatim>\<open>ParallelFor\<close> whose body on index \<open>i\<close> stores \<open>g i\<close> in slot \<open>i\<close> of a slice of length
  \<open>n\<close> leaves exactly \<open>g 0, ..., g (n-1)\<close> in it, under every schedule and every number of CPUs.
\<close>

theorem ParallelFor_map:
  assumes "pf_fits n ncpu" "length dest = n"
    and "(pf_step (\<lambda>i m. m[i := g i]))\<^sup>*\<^sup>* (pf_init n ncpu dest) s" "pf_finished s"
  shows "pf_shared s = map g [0..<n]"
proof -
  have "pf_shared s = fold (\<lambda>i m. m[i := g i]) (pf_taken s) dest"
    using pf_inv_reachable [OF assms(3,1)] by (simp add: pf_inv_def)
  also have "\<dots> = map g [0..<n]"
    using pf_order_run [OF assms(3,4,1)] assms(2) by (rule pfor.slot_writes)
  finally show ?thesis .
qed

text \<open>
  C19: \<^verbatim>\<open>ParallelFor\<close> always returns: an execution never takes more than \<open>n\<close> plus the number of
  goroutines steps, an execution that has not returned can go on, and one that has taken that many
  steps has returned.
\<close>

theorem ParallelFor_terminates:
  assumes "pf_fits n ncpu" "(pf_step body ^^ k) (pf_init n ncpu sh) s"
  shows "k \<le> n + ncpu \<and> (k = n + ncpu \<longrightarrow> pf_finished s) \<and> (pf_finished s \<or> (\<exists>t. pf_step body s t))"
proof -
  have inv: "pf_inv body n ncpu sh s"
    using assms relpowp_imp_rtranclp pf_inv_reachable by metis
  have k: "k + pf_left n s = n + ncpu" by (rule pf_steps_left [OF assms(2,1)])
  have "pf_finished s" if "pf_left n s = 0"
    using that by (auto simp: pf_left_def pf_finished_def live_count_def filter_empty_conv)
  then show ?thesis using k pf_progress [OF inv] by auto
qed

section \<open>Witnesses\<close>

lemma pf_fits_small: "pf_fits 3 2"
  by (simp add: pf_fits_def pf_step_size_def)

theorem ParallelFor_exactly_once_witness:
  "\<exists>s. (pf_step (\<lambda>i (m::nat). m + i))\<^sup>*\<^sup>* (pf_init 3 2 0) s \<and> pf_finished s \<and> set (pf_taken s) = {0..<3}"
proof -
  obtain s where s: "(pf_step (\<lambda>i (m::nat). m + i))\<^sup>*\<^sup>* (pf_init 3 2 0) s" "pf_finished s"
    using pf_completes_from [OF pf_inv_init [of "\<lambda>i (m::nat). m + i"] pf_fits_small] by auto
  show ?thesis using s ParallelFor_exactly_once [OF pf_fits_small s] by blast
qed

theorem ParallelFor_map_witness:
  "\<exists>s. (pf_step (\<lambda>i m. m[i := i * i]))\<^sup>*\<^sup>* (pf_init 3 2 [0, 0, 0]) s \<and> pf_finished s
     \<and> pf_shared s = map (\<lambda>i. i * i) [0..<3]"
proof -
  obtain s where s: "(pf_step (\<lambda>i m. m[i := i * i]))\<^sup>*\<^sup>* (pf_init 3 2 [0, 0, 0]) s" "pf_finished s"
    using pf_completes_from [OF pf_inv_init [of "\<lambda>i m. m[i := i * i]"] pf_fits_small] by auto
  then have "pf_shared s = map (\<lambda>i. i * i) [0..<3]"
    by (intro ParallelFor_map [OF pf_fits_small]) simp_all
  with s show ?thesis by blast
qed

theorem ParallelFor_terminates_witness:
  "\<exists>t. pf_step (\<lambda>i (m::nat). m + i) (pf_init 3 2 0) t"
proof -
  have "(pf_step (\<lambda>i (m::nat). m + i) ^^ 0) (pf_init 3 2 0) (pf_init 3 2 0)" by simp
  from ParallelFor_terminates [OF pf_fits_small this] show ?thesis
    by (simp add: pf_finished_def pf_init_def)
qed

end
