(* ===== verification/Shuffle.thy ===== *)
theory Shuffle
  imports Prelude "HOL-Library.Multiset"
begin

text \<open>
  The permutation each mix server applies to a batch, \<^verbatim>\<open>shuffle.go\<close>: \<open>Intn\<close> draws an
  unbiased index by rejection, \<open>NewShuffler\<close> draws one index per position, \<open>Shuffle\<close> swaps
  forwards and \<open>Unshuffle\<close> swaps backwards.

  The rejection loop of \<open>Intn\<close> may run for ever on a bad reader, so it is a partial function:
  \<open>None\<close> is "does not return".  The lemmas show when it returns, that each value is hit by the
  same number of 32-bit words, that \<open>Unshuffle\<close> undoes \<open>Shuffle\<close>, and that shufflers and
  permutations are in bijection.
\<close>

type_synonym Shuffler = "nat list"

section \<open>The code\<close>

text \<open>\<open>max - m\<close>: words from here on are rejected.\<close>

definition intn_limit :: "u32 \<Rightarrow> u32" where
  "intn_limit n = (let max = not 0; m = max mod n in max - m)"

partial_function (option) intn_loop :: "u32 \<Rightarrow> rng \<Rightarrow> (nat \<times> rng) option" where
  "intn_loop n r =
     (let (b, r') = rread 4 r; x = Uint32 b
      in if x < intn_limit n then Some (unat (x mod n), r') else intn_loop n r')"

text \<open>\<^verbatim>\<open>max % uint32(n)\<close> panics when \<open>n\<close> is 0 modulo \<open>2 ^ 32\<close>.\<close>

definition Intn :: "nat \<Rightarrow> rng \<Rightarrow> (nat \<times> rng) outcome" where
  "Intn n r = (if (of_nat n :: u32) = 0 then Panic else of_opt (intn_loop (of_nat n) r))"

definition NewShuffler :: "rng \<Rightarrow> nat \<Rightarrow> (Shuffler \<times> rng) outcome" where
  "NewShuffler r n = omap (\<lambda>i. Intn (i + 1)) [0..<n] r"

definition swap_at :: "'a list \<Rightarrow> nat \<Rightarrow> nat \<Rightarrow> 'a list" where
  "swap_at x i j = x[i := x ! j, j := x ! i]"

primrec swaps :: "Shuffler \<Rightarrow> nat list \<Rightarrow> 'a list \<Rightarrow> 'a list outcome" where
  "swaps s [] x = Ret x"
| "swaps s (i # ks) x =
     obind (idx s i) (\<lambda>j.
       if i < length x \<and> j < length x then swaps s ks (swap_at x i j) else Panic)"

definition Shuffle :: "Shuffler \<Rightarrow> 'a list \<Rightarrow> 'a list outcome" where
  "Shuffle s x = swaps s [0..<length x] x"

definition Unshuffle :: "Shuffler \<Rightarrow> 'a list \<Rightarrow> 'a list outcome" where
  "Unshuffle s x = swaps s (rev [0..<length x]) x"

section \<open>Drawing an index\<close>

text \<open>The rejection loop returns at the first accepted block of four bytes.\<close>

definition block :: "rng \<Rightarrow> nat \<Rightarrow> u32" where
  "block r j = Uint32 (map r [4 * j..<4 * j + 4])"

lemma block_shift: "block (\<lambda>i. r (i + 4)) j = block r (Suc j)"
  unfolding block_def by (rule arg_cong [of _ _ Uint32], rule nth_equalityI) (simp_all add: algebra_simps)

lemma intn_loop_step:
  "intn_loop n r =
     (if block r 0 < intn_limit n then Some (unat (block r 0 mod n), \<lambda>i. r (i + 4))
      else intn_loop n (\<lambda>i. r (i + 4)))"
  by (subst intn_loop.simps) (simp add: rread_def block_def Let_def)

lemma intn_loop_first:
  assumes "block r j < intn_limit n" "\<And>i. i < j \<Longrightarrow> \<not> block r i < intn_limit n"
  shows "intn_loop n r = Some (unat (block r j mod n), \<lambda>i. r (i + 4 * Suc j))"
  using assms
proof (induction j arbitrary: r)
  case 0
  then show ?case by (subst intn_loop_step) simp
next
  case (Suc j)
  have "intn_loop n (\<lambda>i. r (i + 4)) = Some (unat (block r (Suc j) mod n), \<lambda>i. r (i + 4 * Suc j + 4))"
    using Suc.IH [of "\<lambda>i. r (i + 4)"] Suc.prems by (simp add: block_shift)
  moreover have "\<not> block r 0 < intn_limit n" using Suc.prems by simp
  ultimately show ?case by (subst intn_loop_step) (simp add: algebra_simps)
qed

lemma intn_loop_Some:
  assumes "intn_loop n r = Some (k, r')"
  shows "\<exists>j. block r j < intn_limit n \<and> k = unat (block r j mod n)"
proof -
  have "\<exists>x. x < intn_limit n \<and> fst kr = unat (x mod n) \<and> (\<exists>j. block r j = x)"
    if "intn_loop n r = Some kr" for kr
  proof (rule intn_loop.raw_induct [where P = "\<lambda>n r kr. \<exists>x. x < intn_limit n \<and> fst kr = unat (x mod n) \<and> (\<exists>j. block r j = x)", OF _ that])
    fix f n r kr
    assume IH: "\<And>n r kr. f n r = Some kr \<Longrightarrow> \<exists>x. x < intn_limit n \<and> fst kr = unat (x mod n) \<and> (\<exists>j. block r j = x)"
      and eq: "(let (b, r') = rread 4 r; x = Uint32 b
        in if x < intn_limit n then Some (unat (x mod n), r') else f n r') = Some kr"
    show "\<exists>x. x < intn_limit n \<and> fst kr = unat (x mod n) \<and> (\<exists>j. block r j = x)"
    proof (cases "block r 0 < intn_limit n")
      case True
      then have "fst kr = unat (block r 0 mod n)"
        using eq by (auto simp: rread_def block_def Let_def)
      with True show ?thesis by blast
    next
      case False
      then have "f n (\<lambda>i. r (i + 4)) = Some kr"
        using eq by (simp add: rread_def block_def Let_def)
      from IH [OF this] show ?thesis by (auto simp: block_shift)
    qed
  qed
  from this [OF assms] show ?thesis by auto
qed

lemma intn_limit_unat:
  assumes "n \<noteq> 0"
  shows "unat (intn_limit n) = unat n * ((2 ^ 32 - 1) div unat n)"
proof -
  have max: "unat (not 0 :: u32) = 2 ^ 32 - 1"
    by (simp add: unsigned_minus_1_eq_mask mask_eq_exp_minus_1)
  have m: "unat ((not 0 :: u32) mod n) = (2 ^ 32 - 1) mod unat n"
    by (simp only: unat_mod max)
  have "unat (intn_limit n) = 2 ^ 32 - 1 - (2 ^ 32 - 1) mod unat n"
    unfolding intn_limit_def Let_def
    by (subst unat_sub) (simp_all only: m max word_le_nat_alt mod_less_eq_dividend)
  also have "\<dots> = unat n * ((2 ^ 32 - 1) div unat n)"
    by (rule minus_mod_eq_mult_div)
  finally show ?thesis .
qed

text \<open>How many of the numbers below a multiple of \<open>n\<close> have remainder \<open>k\<close>.\<close>

lemma card_residue:
  assumes "k < (n::nat)"
  shows "card {x. x < n * q \<and> x mod n = k} = q"
proof -
  have "{x. x < n * q \<and> x mod n = k} = (\<lambda>i. n * i + k) ` {0..<q}"
  proof (intro set_eqI iffI)
    fix x
    assume x: "x \<in> {x. x < n * q \<and> x mod n = k}"
    then have "x = n * (x div n) + k" by auto
    moreover have "x div n < q"
      using x assms by (simp add: div_less_iff_less_mult mult.commute)
    ultimately show "x \<in> (\<lambda>i. n * i + k) ` {0..<q}" by auto
  next
    fix x
    assume "x \<in> (\<lambda>i. n * i + k) ` {0..<q}"
    then obtain i where i: "i < q" "x = n * i + k" by auto
    have "n * i + k < n * Suc i" using assms by simp
    also have "\<dots> \<le> n * q" using i by (intro mult_le_mono2) simp
    finally show "x \<in> {x. x < n * q \<and> x mod n = k}" using i assms by simp
  qed
  moreover have "inj_on (\<lambda>i. n * i + k) {0..<q}"
    using assms by (auto simp: inj_on_def)
  ultimately show ?thesis by (simp add: card_image)
qed

lemma unat_of_nat32: "n < 2 ^ 32 \<Longrightarrow> unat (of_nat n :: u32) = n"
  by (simp add: unat_of_nat take_bit_nat_eq_self_iff)

lemma card_word_residue:
  assumes "0 < n" "n < 2 ^ 32" "k < n"
  shows "card {x :: u32. x < intn_limit (of_nat n) \<and> unat (x mod of_nat n) = k} = (2 ^ 32 - 1) div n"
proof -
  have n: "unat (of_nat n :: u32) = n" using assms(2) by (rule unat_of_nat32)
  have nz: "(of_nat n :: u32) \<noteq> 0" using n assms(1) by (metis unat_0 less_irrefl)
  have lim: "unat (intn_limit (of_nat n)) = n * ((2 ^ 32 - 1) div n)"
    using intn_limit_unat [OF nz] n by simp
  have img: "unat ` {x :: u32. x < intn_limit (of_nat n) \<and> unat (x mod of_nat n) = k} =
      {x. x < n * ((2 ^ 32 - 1) div n) \<and> x mod n = k}"
  proof (intro set_eqI iffI)
    fix y
    assume y: "y \<in> {x. x < n * ((2 ^ 32 - 1) div n) \<and> x mod n = k}"
    have "y < n * ((2 ^ 32 - 1) div n)" using y by simp
    also have "\<dots> \<le> 2 ^ 32 - 1" by (rule times_div_less_eq_dividend)
    finally have "y < 2 ^ 32" by simp
    then have "unat (of_nat y :: u32) = y" by (rule unat_of_nat32)
    with y show "y \<in> unat ` {x :: u32. x < intn_limit (of_nat n) \<and> unat (x mod of_nat n) = k}"
      by (intro image_eqI [of _ _ "of_nat y"]) (simp_all add: word_less_nat_alt lim unat_mod n)
  qed (auto simp: word_less_nat_alt lim unat_mod n)
  have "inj_on unat {x :: u32. x < intn_limit (of_nat n) \<and> unat (x mod of_nat n) = k}"
    by (rule inj_onI) (rule unsigned_word_eqI)
  from card_image [OF this, unfolded img] show ?thesis
    using card_residue [OF assms(3), of "(2 ^ 32 - 1) div n"] by simp
qed

lemma Intn_less:
  assumes "Intn n r = Ret (k, r')" "n < 2 ^ 32"
  shows "k < n"
proof -
  have nz: "(of_nat n :: u32) \<noteq> 0" and run: "intn_loop (of_nat n) r = Some (k, r')"
    using assms(1) by (auto simp: Intn_def outcome_simps split: if_splits)
  obtain j where "k = unat (block r j mod of_nat n)" using intn_loop_Some [OF run] by blast
  moreover have "unat (of_nat n :: u32) = n" using assms(2) by (rule unat_of_nat32)
  moreover have "0 < n" using nz by (cases n) auto
  ultimately show ?thesis by (simp add: unat_mod)
qed

section \<open>Shuffling and unshuffling\<close>

definition valid_shuffler :: "Shuffler \<Rightarrow> bool" where
  "valid_shuffler s \<longleftrightarrow> (\<forall>i < length s. s ! i \<le> i)"

abbreviation swap_all :: "Shuffler \<Rightarrow> nat list \<Rightarrow> 'a list \<Rightarrow> 'a list" where
  "swap_all s ks \<equiv> fold (\<lambda>i x. swap_at x i (s ! i)) ks"

lemma length_swap_at [simp]: "length (swap_at x i j) = length x"
  by (simp add: swap_at_def)

lemma nth_swap_at:
  "i < length x \<Longrightarrow> j < length x \<Longrightarrow> k < length x \<Longrightarrow>
   swap_at x i j ! k = (if k = i then x ! j else if k = j then x ! i else x ! k)"
  by (auto simp: swap_at_def nth_list_update)

lemma swap_at_swap_at [simp]:
  "i < length x \<Longrightarrow> j < length x \<Longrightarrow> swap_at (swap_at x i j) i j = x"
  by (rule nth_equalityI) (auto simp: nth_swap_at)

lemma mset_swap_at [simp]: "i < length x \<Longrightarrow> j < length x \<Longrightarrow> mset (swap_at x i j) = mset x"
  by (simp add: swap_at_def mset_swap)

lemma map_swap_at: "i < length x \<Longrightarrow> j < length x \<Longrightarrow> map f (swap_at x i j) = swap_at (map f x) i j"
  by (simp add: swap_at_def map_update)

lemma length_swap_all [simp]: "length (swap_all s ks x) = length x"
  by (induction ks arbitrary: x) auto

lemma valid_less: "valid_shuffler s \<Longrightarrow> i < length s \<Longrightarrow> i < n \<Longrightarrow> s ! i < n"
  by (auto simp: valid_shuffler_def intro: le_less_trans)

lemma swaps_ok:
  assumes "valid_shuffler s" "length x \<le> length s" "\<forall>i \<in> set ks. i < length x"
  shows "swaps s ks x = Ret (swap_all s ks x)"
  using assms
proof (induction ks arbitrary: x)
  case (Cons i ks)
  have i: "i < length s" "i < length x" using Cons.prems by auto
  then have "s ! i < length x" using valid_less [OF Cons.prems(1)] by fastforce
  with i Cons show ?case by simp
qed simp

lemma swap_all_map:
  assumes "\<forall>i \<in> set ks. i < length x \<and> s ! i < length x"
  shows "swap_all s ks (map f x) = map f (swap_all s ks x)"
  using assms by (induction ks arbitrary: x) (simp_all add: map_swap_at [symmetric])

lemma swap_all_mset:
  assumes "\<forall>i \<in> set ks. i < length x \<and> s ! i < length x"
  shows "mset (swap_all s ks x) = mset x"
  using assms by (induction ks arbitrary: x) simp_all

lemma swap_all_rev:
  assumes "\<forall>i \<in> set ks. i < length x \<and> s ! i < length x"
  shows "swap_all s (rev ks) (swap_all s ks x) = x"
  using assms by (induction ks arbitrary: x) simp_all

lemma valid_in_range:
  assumes "valid_shuffler s" "length x \<le> length s"
  shows "\<forall>i \<in> set [0..<length x]. i < length x \<and> s ! i < length x"
  using assms valid_less [OF assms(1)] by simp

lemma Shuffle_ok:
  "valid_shuffler s \<Longrightarrow> length x \<le> length s \<Longrightarrow> Shuffle s x = Ret (swap_all s [0..<length x] x)"
  by (simp add: Shuffle_def swaps_ok)

lemma Unshuffle_ok:
  "valid_shuffler s \<Longrightarrow> length x \<le> length s \<Longrightarrow> Unshuffle s x = Ret (swap_all s (rev [0..<length x]) x)"
  by (simp add: Unshuffle_def swaps_ok)

lemma Unshuffle_Shuffle:
  assumes "valid_shuffler s" "length x \<le> length s" "Shuffle s x = Ret y"
  shows "Unshuffle s y = Ret x"
proof -
  have y: "y = swap_all s [0..<length x] x" using Shuffle_ok [OF assms(1,2)] assms(3) by simp
  then show ?thesis
    using assms swap_all_rev [OF valid_in_range [OF assms(1,2)]] by (simp add: Unshuffle_ok)
qed

lemma swaps_mset: "swaps s ks x = Ret y \<Longrightarrow> mset y = mset x"
  by (induction ks arbitrary: x) (auto simp: outcome_simps split: if_splits)

lemma swaps_not_Hang: "swaps s ks x \<noteq> Hang"
  by (induction ks arbitrary: x) (auto simp: idx_def)

lemma Shuffle_mset: "Shuffle s x = Ret y \<Longrightarrow> mset y = mset x"
  unfolding Shuffle_def by (rule swaps_mset)

lemma Unshuffle_length: "Unshuffle s x = Ret y \<Longrightarrow> length y = length x"
  unfolding Unshuffle_def by (metis swaps_mset size_mset)

text \<open>The positions: \<open>shuffle_pos s n i\<close> is where the element of position \<open>i\<close> goes.\<close>

definition shuffle_src :: "Shuffler \<Rightarrow> nat \<Rightarrow> nat list" where
  "shuffle_src s n = swap_all s [0..<n] [0..<n]"

definition shuffle_pos :: "Shuffler \<Rightarrow> nat \<Rightarrow> nat \<Rightarrow> nat" where
  "shuffle_pos s n = inv_into {..<n} ((!) (shuffle_src s n))"

lemma shuffle_src_mset:
  assumes "valid_shuffler s" "n \<le> length s"
  shows "mset (shuffle_src s n) = mset [0..<n]"
  using swap_all_mset [OF valid_in_range [of s "[0..<n]"]] assms by (simp add: shuffle_src_def)

lemma shuffle_src_bij:
  assumes "valid_shuffler s" "n \<le> length s"
  shows "bij_betw ((!) (shuffle_src s n)) {..<n} {..<n}"
proof -
  have len: "length (shuffle_src s n) = n" by (simp add: shuffle_src_def)
  have "distinct (shuffle_src s n)"
    by (rule mset_eq_imp_distinct_iff [OF shuffle_src_mset [OF assms], THEN iffD2]) simp
  moreover have "set (shuffle_src s n) = {..<n}"
    by (subst mset_eq_setD [OF shuffle_src_mset [OF assms]]) auto
  ultimately show ?thesis by (intro bij_betw_nth) (simp_all add: len)
qed

lemma Shuffle_src:
  assumes "valid_shuffler s" "length x \<le> length s"
  shows "Shuffle s x = Ret (map ((!) x) (shuffle_src s (length x)))"
proof -
  have "swap_all s [0..<length x] (map ((!) x) [0..<length x]) = map ((!) x) (shuffle_src s (length x))"
    unfolding shuffle_src_def
    by (rule swap_all_map) (use valid_in_range [OF assms] in simp)
  then show ?thesis using Shuffle_ok [OF assms] by (simp add: map_nth)
qed

lemma shuffle_pos_bij:
  assumes "valid_shuffler s" "n \<le> length s"
  shows "bij_betw (shuffle_pos s n) {..<n} {..<n}"
  unfolding shuffle_pos_def by (rule bij_betw_inv_into [OF shuffle_src_bij [OF assms]])

lemma shuffle_src_pos:
  assumes "valid_shuffler s" "n \<le> length s" "i < n"
  shows "shuffle_src s n ! shuffle_pos s n i = i" "shuffle_pos s n (shuffle_src s n ! i) = i"
    "shuffle_pos s n i < n"
  using bij_betw_inv_into_right [OF shuffle_src_bij [OF assms(1,2)]]
    bij_betw_inv_into_left [OF shuffle_src_bij [OF assms(1,2)]]
    bij_betw_apply [OF shuffle_pos_bij [OF assms(1,2)]] assms(3)
  by (auto simp: shuffle_pos_def)

lemma Shuffle_pos:
  assumes "valid_shuffler s" "length x \<le> length s" "Shuffle s x = Ret y" "i < length x"
  shows "y ! shuffle_pos s (length x) i = x ! i"
proof -
  have "y = map ((!) x) (shuffle_src s (length x))" using Shuffle_src [OF assms(1,2)] assms(3) by simp
  then show ?thesis
    using shuffle_src_pos [OF assms(1,2,4)] by (simp add: shuffle_src_def)
qed

lemma Unshuffle_pos:
  assumes "valid_shuffler s" "length z \<le> length s"
  shows "Unshuffle s z = Ret (map (\<lambda>i. z ! shuffle_pos s (length z) i) [0..<length z])"
proof -
  let ?n = "length z" and ?w = "map (\<lambda>i. z ! shuffle_pos s (length z) i) [0..<length z]"
  have "map ((!) ?w) (shuffle_src s ?n) = z"
  proof (rule nth_equalityI)
    fix i
    assume "i < length (map ((!) ?w) (shuffle_src s ?n))"
    then have i: "i < ?n" by (simp add: shuffle_src_def)
    then have "shuffle_src s ?n ! i < ?n"
      using bij_betw_apply [OF shuffle_src_bij [OF assms]] by auto
    then show "map ((!) ?w) (shuffle_src s ?n) ! i = z ! i"
      using shuffle_src_pos(2) [OF assms i] i by (simp add: shuffle_src_def)
  qed (simp add: shuffle_src_def)
  then have "Shuffle s ?w = Ret z" using Shuffle_src [OF assms(1), of ?w] assms(2) by simp
  then show ?thesis using Unshuffle_Shuffle [OF assms(1), of ?w z] assms(2) by simp
qed

lemma NewShuffler_valid:
  assumes "NewShuffler r n = Ret (s, r')" "n < 2 ^ 32"
  shows "length s = n" "valid_shuffler s"
proof -
  have run: "omap (\<lambda>i. Intn (i + 1)) [0..<n] r = Ret (s, r')"
    using assms(1) by (simp add: NewShuffler_def)
  have "list_all2 (\<lambda>i j. j < i + 1) [0..<n] s"
    using run
  proof (rule omap_all)
    fix i r j r'
    assume "i \<in> set [0..<n]" "Intn (i + 1) r = Ret (j, r')"
    then show "j < i + 1" using Intn_less [of "i + 1" r j r'] assms(2) by simp
  qed
  then show "length s = n" "valid_shuffler s"
    by (auto simp: list_all2_conv_all_nth valid_shuffler_def less_Suc_eq_le)
qed

text \<open>Drawing the shuffler of a batch of \<open>2 ^ 32\<close> onions panics, so one that was drawn is valid.\<close>

lemma NewShuffler_small:
  assumes "NewShuffler r n = Ret (s, r')"
  shows "n < 2 ^ 32"
proof (rule ccontr)
  assume "\<not> n < 2 ^ 32"
  then have mem: "2 ^ 32 - 1 \<in> set [0..<n]" by simp
  have "list_all2 (\<lambda>i j. (of_nat (i + 1) :: u32) \<noteq> 0) [0..<n] s"
    using assms unfolding NewShuffler_def by (rule omap_all) (auto simp: Intn_def split: if_splits)
  then have "\<forall>i \<in> set [0..<n]. (of_nat (i + 1) :: u32) \<noteq> 0"
    by (metis (mono_tags, lifting) in_set_conv_nth list_all2_conv_all_nth)
  from bspec [OF this mem] show False by simp
qed

lemmas NewShuffler_ok = NewShuffler_valid [OF _ NewShuffler_small]

section \<open>The contract of a mix\<close>

text \<open>
  What a mix server relies on: a permutation that depends only on the key and the batch size, that
  \<open>mix\<close> applies and \<open>unmix\<close> takes back, whatever was put in the slots in between.
\<close>

locale mix_net =
  fixes valid :: "'k \<Rightarrow> nat \<Rightarrow> bool"
    and mix :: "'k \<Rightarrow> 'a list \<Rightarrow> 'a list outcome"
    and unmix :: "'k \<Rightarrow> 'b list \<Rightarrow> 'b list outcome"
  assumes mix_perm: "valid k n \<Longrightarrow> \<exists>\<pi>. bij_betw \<pi> {..<n} {..<n} \<and>
      (\<forall>x. length x = n \<longrightarrow> (\<exists>y. mix k x = Ret y \<and> length y = n \<and> (\<forall>i < n. y ! \<pi> i = x ! i))) \<and>
      (\<forall>z. length z = n \<longrightarrow> (\<exists>w. unmix k z = Ret w \<and> length w = n \<and> (\<forall>i < n. w ! i = z ! \<pi> i)))"
begin

text \<open>The batch that comes back is the served batch, seen at the positions of the original.\<close>

lemma mix_serve:
  assumes "valid k (length x)"
  shows "\<exists>y \<pi>. mix k x = Ret y \<and> length y = length x \<and> bij_betw \<pi> {..<length x} {..<length x} \<and>
    (\<forall>i < length x. y ! \<pi> i = x ! i) \<and>
    (\<forall>z. length z = length x \<longrightarrow>
      (\<exists>w. unmix k z = Ret w \<and> length w = length x \<and> (\<forall>i < length x. w ! i = z ! \<pi> i)))"
  using mix_perm [OF assms] by metis

lemma mix_ret: "valid k (length x) \<Longrightarrow> \<exists>y. mix k x = Ret y \<and> length y = length x"
  using mix_serve by metis

lemma mix_mset:
  assumes "valid k (length x)" "mix k x = Ret y"
  shows "mset y = mset x"
proof -
  let ?n = "length x"
  obtain \<pi> where bij: "bij_betw \<pi> {..<?n} {..<?n}" and y: "length y = ?n" "\<forall>i < ?n. y ! \<pi> i = x ! i"
    using mix_serve [OF assms(1)] assms(2) by auto
  have "mset y = image_mset ((!) y) (mset_set {..<?n})"
    using y(1) by (metis atLeast0LessThan map_nth mset_map mset_upt)
  also have "mset_set {..<?n} = image_mset \<pi> (mset_set {..<?n})"
    using bij by (simp add: bij_betw_def image_mset_mset_set)
  also have "image_mset ((!) y) (image_mset \<pi> (mset_set {..<?n})) = image_mset ((!) x) (mset_set {..<?n})"
    unfolding image_mset.compositionality comp_def by (rule image_mset_cong) (use y(2) in simp)
  also have "\<dots> = mset x"
    by (metis atLeast0LessThan map_nth mset_map mset_upt)
  finally show ?thesis .
qed

lemma unmix_rel:
  assumes "valid k (length x)" "mix k x = Ret y" "list_all2 Q y z"
  shows "\<exists>w. unmix k z = Ret w \<and> list_all2 Q x w"
proof -
  have zl: "length z = length y" and Q: "\<And>j. j < length y \<Longrightarrow> Q (y ! j) (z ! j)"
    using assms(3) by (auto simp: list_all2_conv_all_nth)
  obtain \<pi> where bij: "bij_betw \<pi> {..<length x} {..<length x}" and yl: "length y = length x"
    and y: "\<And>i. i < length x \<Longrightarrow> y ! \<pi> i = x ! i"
    and un: "\<forall>z. length z = length x \<longrightarrow>
      (\<exists>w. unmix k z = Ret w \<and> length w = length x \<and> (\<forall>i < length x. w ! i = z ! \<pi> i))"
    using mix_serve [OF assms(1)] assms(2) by auto
  obtain w where w: "unmix k z = Ret w" "length w = length x" "\<forall>i < length x. w ! i = z ! \<pi> i"
    using un zl yl by auto
  have "Q (x ! i) (w ! i)" if "i < length x" for i
  proof -
    have "\<pi> i < length y" using bij_betw_apply [OF bij, of i] that yl by simp
    from Q [OF this] show ?thesis using y [OF that] w(3) that by simp
  qed
  then have "list_all2 Q x w" using w(2) by (simp add: list_all2_conv_all_nth)
  with w(1) show ?thesis by blast
qed

end

interpretation shuf: mix_net "\<lambda>s n. valid_shuffler s \<and> n \<le> length s" Shuffle Unshuffle
proof
  fix k :: Shuffler and n
  assume k: "valid_shuffler k \<and> n \<le> length k"
  have "\<exists>y. Shuffle k x = Ret y \<and> length y = n \<and> (\<forall>i < n. y ! shuffle_pos k n i = x ! i)"
    if "length x = n" for x
    using that k Shuffle_src [of k x] Shuffle_pos [of k x] by (auto simp: shuffle_src_def)
  moreover have "\<exists>w. Unshuffle k z = Ret w \<and> length w = n \<and> (\<forall>i < n. w ! i = z ! shuffle_pos k n i)"
    if "length z = n" for z
    using that k Unshuffle_pos [of k z] by auto
  ultimately show "\<exists>\<pi>. bij_betw \<pi> {..<n} {..<n} \<and>
      (\<forall>x. length x = n \<longrightarrow> (\<exists>y. Shuffle k x = Ret y \<and> length y = n \<and> (\<forall>i < n. y ! \<pi> i = x ! i))) \<and>
      (\<forall>z. length z = n \<longrightarrow> (\<exists>w. Unshuffle k z = Ret w \<and> length w = n \<and> (\<forall>i < n. w ! i = z ! \<pi> i)))"
    using shuffle_pos_bij [of k n] k by (intro exI [of _ "shuffle_pos k n"]) auto
qed

section \<open>Shufflers and permutations\<close>

lemma valid_shuffler_snoc [simp]: "valid_shuffler (s @ [j]) \<longleftrightarrow> valid_shuffler s \<and> j \<le> length s"
  by (auto simp: valid_shuffler_def nth_append less_Suc_eq)

lemma swap_at_snoc: "i < length x \<Longrightarrow> k < length x \<Longrightarrow> swap_at (x @ [a]) i k = swap_at x i k @ [a]"
  by (simp add: swap_at_def nth_append list_update_append)

lemma swap_all_snoc:
  assumes "\<forall>i \<in> set ks. i < length x \<and> i < length s \<and> s ! i < length x"
  shows "swap_all (s @ [j]) ks (x @ [a]) = swap_all s ks x @ [a]"
  using assms by (induction ks arbitrary: x) (simp_all add: swap_at_snoc nth_append)

lemma Shuffle_snoc:
  assumes "valid_shuffler s" "length s = length x" "j \<le> length s"
  shows "Shuffle (s @ [j]) (x @ [a]) = Ret (swap_at (swap_all s [0..<length x] x @ [a]) (length x) j)"
proof -
  have "swap_all (s @ [j]) [0..<length x] (x @ [a]) = swap_all s [0..<length x] x @ [a]"
    using valid_in_range [OF assms(1)] assms(2) by (intro swap_all_snoc) auto
  then show ?thesis using assms by (simp add: Shuffle_ok nth_append)
qed

lemma snoc_of: "length xs = Suc n \<Longrightarrow> \<exists>ys y. xs = ys @ [y] \<and> length ys = n"
  by (cases xs rule: rev_cases) auto

lemma Shuffle_bijective:
  assumes "distinct x" "mset y = mset x"
  shows "\<exists>!s. valid_shuffler s \<and> length s = length x \<and> Shuffle s x = Ret y"
  using assms
proof (induction x arbitrary: y rule: rev_induct)
  case Nil
  then show ?case by (auto simp: valid_shuffler_def Shuffle_def)
next
  case (snoc a x)
  let ?n = "length x"
  have len: "length y = Suc ?n" using snoc.prems(2) by (metis length_append_singleton size_mset)
  have dist: "distinct y" using snoc.prems mset_eq_imp_distinct_iff by blast
  have "a \<in> set y" using snoc.prems(2) mset_eq_setD by fastforce
  then obtain j where j: "j < length y" "y ! j = a" by (auto simp: in_set_conv_nth)
  obtain z b where z: "swap_at y ?n j = z @ [b]" "length z = ?n"
    using snoc_of [of "swap_at y ?n j" ?n] len by auto
  have b: "b = a" using z j len nth_swap_at [of ?n y j ?n] by (simp add: nth_append)
  have "mset (z @ [a]) = mset y" using z(1) b j len mset_swap_at [of ?n y j] by simp
  then have mz: "mset z = mset x" using snoc.prems(2) by simp
  have ex: "\<exists>!s. valid_shuffler s \<and> length s = ?n \<and> Shuffle s x = Ret z"
    by (rule snoc.IH) (use snoc.prems(1) mz in simp_all)
  then obtain s where s: "valid_shuffler s" "length s = ?n" "Shuffle s x = Ret z" by blast
  have uniq: "t = s" if "valid_shuffler t" "length t = ?n" "Shuffle t x = Ret z" for t
    using ex s that by blast
  have zs: "swap_all s [0..<?n] x = z" using s Shuffle_ok [OF s(1), of x] by simp
  have undo: "swap_at (z @ [a]) ?n j = y" using z b j len swap_at_swap_at [of ?n y j] by simp
  show ?case
  proof (rule ex1I [of _ "s @ [j]"])
    show "valid_shuffler (s @ [j]) \<and> length (s @ [j]) = length (x @ [a]) \<and> Shuffle (s @ [j]) (x @ [a]) = Ret y"
      using s j len undo by (simp add: Shuffle_snoc zs)
  next
    fix t
    assume t: "valid_shuffler t \<and> length t = length (x @ [a]) \<and> Shuffle t (x @ [a]) = Ret y"
    then obtain s' j' where t': "t = s' @ [j']" "length s' = ?n" using snoc_of [of t ?n] by auto
    let ?z = "swap_all s' [0..<?n] x"
    have v: "valid_shuffler s'" "j' \<le> ?n" using t t' by auto
    have y: "swap_at (?z @ [a]) ?n j' = y"
      using t t' v Shuffle_snoc [of s' x j' a] by simp
    have "y ! j' = a"
      using nth_swap_at [of ?n "?z @ [a]" j' j'] v(2) y by (auto simp: nth_append)
    then have j': "j' = j" using nth_eq_iff_index_eq [OF dist, of j' j] j v(2) len by simp
    have "swap_at (swap_at (?z @ [a]) ?n j') ?n j' = ?z @ [a]"
      by (rule swap_at_swap_at) (use v(2) in simp_all)
    then have "?z @ [a] = swap_at y ?n j" unfolding y j' [symmetric] by (rule sym)
    then have "?z = z" using z b by simp
    then have "s' = s" using uniq [OF v(1) t'(2)] Shuffle_ok [OF v(1), of x] t'(2) by simp
    then show "t = s @ [j]" using t'(1) j' by simp
  qed
qed

section \<open>Properties\<close>

lemma intn_limit_pos:
  assumes "0 < n" "n < 2 ^ 32"
  shows "0 < intn_limit (of_nat n)"
proof -
  have n: "unat (of_nat n :: u32) = n" using assms(2) by (rule unat_of_nat32)
  then have "(of_nat n :: u32) \<noteq> 0" using assms(1) by (metis unat_0 less_irrefl)
  then have "unat (intn_limit (of_nat n)) = n * ((2 ^ 32 - 1) div n)"
    using intn_limit_unat n by simp
  moreover have "0 < (2 ^ 32 - 1) div n" using assms by (simp add: div_greater_zero_iff)
  ultimately show ?thesis using assms(1) by (simp add: word_less_nat_alt)
qed

lemma of_nat32_nonzero: "0 < n \<Longrightarrow> n < 2 ^ 32 \<Longrightarrow> (of_nat n :: u32) \<noteq> 0"
  using unat_of_nat32 [of n] by (metis unat_0 less_irrefl)

lemma Intn_first:
  assumes "0 < n" "n < 2 ^ 32" "block r j < intn_limit (of_nat n)"
    "\<And>i. i < j \<Longrightarrow> \<not> block r i < intn_limit (of_nat n)"
  shows "Intn n r = Ret (unat (block r j) mod n, \<lambda>i. r (i + 4 * Suc j))"
  using intn_loop_first [OF assms(3,4)] of_nat32_nonzero [OF assms(1,2)] unat_of_nat32 [OF assms(2)]
  by (simp add: Intn_def unat_mod)

text \<open>
  C21: \<open>Intn\<close> is unbiased.  It returns the remainder of the first accepted 32-bit block of the
  reader, and for every result \<open>k < n\<close> the number of accepted words that give \<open>k\<close> is the same.
\<close>

theorem Intn_unbiased:
  assumes "0 < n" "n < 2 ^ 32"
  shows "(\<forall>r j. block r j < intn_limit (of_nat n) \<and> (\<forall>i < j. \<not> block r i < intn_limit (of_nat n)) \<longrightarrow>
      Intn n r = Ret (unat (block r j) mod n, \<lambda>i. r (i + 4 * Suc j)))
    \<and> (\<forall>k < n. card {w. w < intn_limit (of_nat n) \<and> unat w mod n = k} = (2 ^ 32 - 1) div n)"
proof -
  have "card {w. w < intn_limit (of_nat n) \<and> unat w mod n = k} = (2 ^ 32 - 1) div n" if "k < n" for k
    using card_word_residue [OF assms that] unat_of_nat32 [OF assms(2)] by (simp add: unat_mod)
  then show ?thesis using Intn_first [OF assms] by blast
qed

theorem Intn_unbiased_witness:
  "card {w. w < intn_limit 6 \<and> unat w mod 6 = 5} = (2 ^ 32 - 1) div 6"
  using Intn_unbiased [of 6] by simp

text \<open>
  \<open>Intn\<close> returns exactly when the reader has an accepted block, and then returns an index
  below \<open>n\<close>; on a reader with none it loops for ever.
\<close>

theorem Intn_returns:
  assumes "0 < n" "n < 2 ^ 32"
  shows "((\<exists>k r'. Intn n r = Ret (k, r') \<and> k < n) \<longleftrightarrow> (\<exists>j. block r j < intn_limit (of_nat n))) \<and> ((\<forall>j. \<not> block r j < intn_limit (of_nat n)) \<longrightarrow> Intn n r = Hang)"
proof -
  have some: "\<exists>k r'. Intn n r = Ret (k, r') \<and> k < n" if "\<exists>j. block r j < intn_limit (of_nat n)"
  proof -
    define j where "j = (LEAST j. block r j < intn_limit (of_nat n))"
    have "block r j < intn_limit (of_nat n)" unfolding j_def using that by (rule LeastI_ex)
    moreover have "\<not> block r i < intn_limit (of_nat n)" if "i < j" for i
      using that not_less_Least unfolding j_def by blast
    ultimately show ?thesis using Intn_first [OF assms] assms(1) mod_less_divisor by blast
  qed
  have none: "intn_loop (of_nat n) r = None" if "\<forall>j. \<not> block r j < intn_limit (of_nat n)"
    using that intn_loop_Some [of "of_nat n" r] by (cases "intn_loop (of_nat n) r") auto
  have hang: "Intn n r = Hang" if "\<forall>j. \<not> block r j < intn_limit (of_nat n)"
    using none [OF that] of_nat32_nonzero [OF assms] by (simp add: Intn_def)
  show ?thesis using some hang by (metis outcome.distinct(3))
qed

lemma Intn_zero:
  assumes "0 < n" "n < 2 ^ 32"
  shows "Intn n (\<lambda>_. 0) = Ret (0, \<lambda>_. 0)"
proof -
  have "block (\<lambda>_. 0) 0 = 0" by (simp add: block_def Uint32_def upt_rec)
  then show ?thesis
    using Intn_first [OF assms, of "\<lambda>_. 0" 0] intn_limit_pos [OF assms] by simp
qed

theorem Intn_returns_witness: "\<exists>k r'. Intn 6 (\<lambda>_. 0) = Ret (k, r') \<and> k < 6"
proof -
  have "block (\<lambda>_. 0) 0 < intn_limit (of_nat 6)"
    using intn_limit_pos [of 6] by (simp add: block_def Uint32_def upt_rec)
  then show ?thesis using Intn_returns [of 6 "\<lambda>_. 0"] by auto
qed

lemma NewShuffler_zero:
  "n < 2 ^ 32 \<Longrightarrow> NewShuffler (\<lambda>_. 0) n = Ret (replicate n 0, \<lambda>_. 0)"
proof -
  have "omap (\<lambda>i. Intn (i + 1)) ks (\<lambda>_. 0) = Ret (replicate (length ks) 0, \<lambda>_. 0)"
    if "\<forall>i \<in> set ks. i + 1 < 2 ^ 32" for ks
    using that by (induction ks) (simp_all add: Intn_zero)
  from this [of "[0..<n]"] show "n < 2 ^ 32 \<Longrightarrow> ?thesis" by (simp add: NewShuffler_def)
qed

text \<open>
  C17: whatever the reader, a shuffler that \<open>NewShuffler\<close> returns for a batch permutes that
  batch, and \<open>Unshuffle\<close> takes the permutation back exactly, without a panic on either side.
\<close>

theorem Shuffle_round_trip:
  assumes "length x < 2 ^ 32" "NewShuffler r (length x) = Ret (s, r')"
  shows "\<exists>y. Shuffle s x = Ret y \<and> mset y = mset x \<and> Unshuffle s y = Ret x"
proof -
  have s: "length s = length x" "valid_shuffler s" using NewShuffler_valid [OF assms(2,1)] by auto
  then obtain y where "Shuffle s x = Ret y" using shuf.mix_ret [of s x] by auto
  with s show ?thesis using shuf.mix_mset [of s x y] Unshuffle_Shuffle [of s x y] by auto
qed

theorem Shuffle_round_trip_witness:
  "\<exists>y. Shuffle [0, 0, 0] ''abc'' = Ret y \<and> mset y = mset ''abc'' \<and> Unshuffle [0, 0, 0] y = Ret ''abc''"
proof -
  have "NewShuffler (\<lambda>_. 0) (length ''abc'') = Ret ([0, 0, 0], \<lambda>_. 0)"
    using NewShuffler_zero [of 3] by (simp add: numeral_3_eq_3)
  from Shuffle_round_trip [OF _ this] show ?thesis by simp
qed

text \<open>
  C20: for every batch of distinct elements and every rearrangement of it there is exactly one
  shuffler that produces it, so unbiased draws give every permutation the same chance.
\<close>

theorem Shuffle_permutations:
  assumes "distinct x" "mset y = mset x"
  shows "\<exists>!s. valid_shuffler s \<and> length s = length x \<and> Shuffle s x = Ret y"
  using assms by (rule Shuffle_bijective)

theorem Shuffle_permutations_witness:
  "\<exists>!s. valid_shuffler s \<and> length s = length ''abc'' \<and> Shuffle s ''abc'' = Ret ''cab''"
  by (rule Shuffle_permutations) simp_all

end
