(* ===== verification/Nacl.thy ===== *)
theory Nacl
  imports Prelude
begin

text \<open>
  The cryptography the program calls but does not contain: \<^verbatim>\<open>golang.org/x/crypto/nacl/box\<close>.
  It is a parameter of every definition that uses it, a record \<open>N\<close> of functions, and the
  behaviour its documentation promises is the hypothesis \<open>nacl_ok N\<close>: the overhead is the 16
  bytes of a Poly1305 tag, opening a sealed message gives the message back and its length, the
  combined calls are the precomputed ones on the shared key, key generation with a working reader
  succeeds with 32-byte keys, and both ends of a key pair agree on the shared key.
  \<open>box_PublicOf\<close> names the public key of a private key; only hypotheses mention it.
\<close>

record nacl =
  box_Overhead :: nat
  box_Precompute :: "bytes \<Rightarrow> bytes \<Rightarrow> bytes"
  box_SealAfterPrecomputation :: "bytes \<Rightarrow> bytes \<Rightarrow> bytes \<Rightarrow> bytes"
  box_OpenAfterPrecomputation :: "bytes \<Rightarrow> bytes \<Rightarrow> bytes \<Rightarrow> bytes option"
  box_Seal :: "bytes \<Rightarrow> bytes \<Rightarrow> bytes \<Rightarrow> bytes \<Rightarrow> bytes"
  box_Open :: "bytes \<Rightarrow> bytes \<Rightarrow> bytes \<Rightarrow> bytes \<Rightarrow> bytes option"
  box_GenerateKey :: "rng \<Rightarrow> (bytes \<times> bytes) option \<times> rng"
  box_PublicOf :: "bytes \<Rightarrow> bytes"

definition nacl_ok :: "nacl \<Rightarrow> bool" where
  "nacl_ok N \<longleftrightarrow>
     box_Overhead N = 16 \<and>
     (\<forall>m n k. length (box_SealAfterPrecomputation N m n k) = length m + box_Overhead N) \<and>
     (\<forall>m n k. box_OpenAfterPrecomputation N (box_SealAfterPrecomputation N m n k) n k = Some m) \<and>
     (\<forall>c n k m. box_OpenAfterPrecomputation N c n k = Some m \<longrightarrow> length c = length m + box_Overhead N) \<and>
     (\<forall>m n pk sk. box_Seal N m n pk sk = box_SealAfterPrecomputation N m n (box_Precompute N pk sk)) \<and>
     (\<forall>c n pk sk. box_Open N c n pk sk = box_OpenAfterPrecomputation N c n (box_Precompute N pk sk)) \<and>
     (\<forall>r. \<exists>sk r'. box_GenerateKey N r = (Some (box_PublicOf N sk, sk), r') \<and> length sk = 32) \<and>
     (\<forall>sk. length (box_PublicOf N sk) = 32) \<and>
     (\<forall>a b. box_Precompute N (box_PublicOf N a) b = box_Precompute N (box_PublicOf N b) a)"

lemma nacl_overhead: "nacl_ok N \<Longrightarrow> box_Overhead N = 16"
  by (simp add: nacl_ok_def)

lemma nacl_seal_length [len_simps]:
  "nacl_ok N \<Longrightarrow> length (box_SealAfterPrecomputation N m n k) = length m + 16"
  by (simp add: nacl_ok_def)

lemma nacl_open_seal:
  "nacl_ok N \<Longrightarrow> box_OpenAfterPrecomputation N (box_SealAfterPrecomputation N m n k) n k = Some m"
  by (simp add: nacl_ok_def)

lemma nacl_open_length:
  "nacl_ok N \<Longrightarrow> box_OpenAfterPrecomputation N c n k = Some m \<Longrightarrow> length c = length m + 16"
  unfolding nacl_ok_def by metis

lemma nacl_seal: "nacl_ok N \<Longrightarrow> box_Seal N m n pk sk = box_SealAfterPrecomputation N m n (box_Precompute N pk sk)"
  by (simp add: nacl_ok_def)

lemma nacl_open: "nacl_ok N \<Longrightarrow> box_Open N c n pk sk = box_OpenAfterPrecomputation N c n (box_Precompute N pk sk)"
  by (simp add: nacl_ok_def)

lemma nacl_keygen:
  "nacl_ok N \<Longrightarrow> \<exists>sk r'. box_GenerateKey N r = (Some (box_PublicOf N sk, sk), r') \<and> length sk = 32"
  by (simp add: nacl_ok_def)

lemma nacl_public_length [len_simps]: "nacl_ok N \<Longrightarrow> length (box_PublicOf N sk) = 32"
  by (simp add: nacl_ok_def)

lemma nacl_agree:
  "nacl_ok N \<Longrightarrow> box_Precompute N (box_PublicOf N a) b = box_Precompute N (box_PublicOf N b) a"
  unfolding nacl_ok_def by blast

section \<open>A concrete instance\<close>

text \<open>
  A box that is no cipher but keeps every promise of \<open>nacl_ok\<close>: the tag is taken from the key and
  the nonce, and a wrong key or a wrong nonce fails to open.  It shows that the hypothesis can hold
  and lets witnesses run.
\<close>

definition clear_tag :: "bytes \<Rightarrow> bytes \<Rightarrow> bytes" where
  "clear_tag n k = take 16 (map2 (+) (n @ replicate 16 0) (k @ replicate 16 0))"

definition clear_box :: nacl where
  "clear_box =
    \<lparr>box_Overhead = 16,
     box_Precompute = (\<lambda>pk sk. map2 (+) pk (take 32 (sk @ replicate 32 0))),
     box_SealAfterPrecomputation = (\<lambda>m n k. clear_tag n k @ m),
     box_OpenAfterPrecomputation =
       (\<lambda>c n k. if 16 \<le> length c \<and> take 16 c = clear_tag n k then Some (drop 16 c) else None),
     box_Seal = (\<lambda>m n pk sk. clear_tag n (map2 (+) pk (take 32 (sk @ replicate 32 0))) @ m),
     box_Open =
       (\<lambda>c n pk sk. if 16 \<le> length c \<and> take 16 c = clear_tag n (map2 (+) pk (take 32 (sk @ replicate 32 0)))
         then Some (drop 16 c) else None),
     box_GenerateKey = (\<lambda>r. let (sk, r') = rread 32 r in (Some (sk, sk), r')),
     box_PublicOf = (\<lambda>sk. take 32 (sk @ replicate 32 0))\<rparr>"

lemma length_clear_tag: "length (clear_tag n k) = 16"
  by (simp add: clear_tag_def)

lemma map2_add_commute: "map2 (+) xs ys = map2 (+) ys (xs :: bytes)"
proof (induction xs arbitrary: ys)
  case (Cons x xs)
  then show ?case by (cases ys) (simp_all add: add.commute)
qed simp

lemma clear_box_ok: "nacl_ok clear_box"
proof -
  have "\<exists>sk r'. box_GenerateKey clear_box r = (Some (box_PublicOf clear_box sk, sk), r') \<and> length sk = 32" for r
    by (intro exI [of _ "fst (rread 32 r)"] exI [of _ "snd (rread 32 r)"])
      (simp add: clear_box_def rread_def)
  moreover have "length c = length m + 16"
    if "box_OpenAfterPrecomputation clear_box c n k = Some m" for c n k m
    using that by (auto simp: clear_box_def split: if_splits)
  moreover have "box_Precompute clear_box (box_PublicOf clear_box a) b =
      box_Precompute clear_box (box_PublicOf clear_box b) a" for a b
    unfolding clear_box_def nacl.simps by (rule map2_add_commute)
  moreover have "length (box_PublicOf clear_box sk) = 32" for sk
    by (simp add: clear_box_def)
  moreover have "length (box_SealAfterPrecomputation clear_box m n k) = length m + 16"
    "box_OpenAfterPrecomputation clear_box (box_SealAfterPrecomputation clear_box m n k) n k = Some m" for m n k
    by (simp_all add: clear_box_def length_clear_tag)
  moreover have "box_Seal clear_box m n pk sk = box_SealAfterPrecomputation clear_box m n (box_Precompute clear_box pk sk)"
    "box_Open clear_box m n pk sk = box_OpenAfterPrecomputation clear_box m n (box_Precompute clear_box pk sk)" for m n pk sk
    by (simp_all add: clear_box_def)
  moreover have "box_Overhead clear_box = 16" by (simp add: clear_box_def)
  ultimately show ?thesis unfolding nacl_ok_def by metis
qed

end
