(* ===== verification/Wire.thy ===== *)
theory Wire
  imports Nacl
begin

text \<open>
  The wire formats: \<^verbatim>\<open>vuvuzela.go\<close>, the constants of \<^verbatim>\<open>params.go\<close> and the keys of
  \<^verbatim>\<open>boxkey.go\<close>.  A Go array of fixed size is a byte list with its length in the
  well-formedness predicate.  The base32 codec of \<^verbatim>\<open>davidlazar/go-crypto\<close> is a parameter.
\<close>

section \<open>Sizes\<close>

definition SizeMessage :: nat where "SizeMessage = 240"

definition TotalDialBuckets :: nat where "TotalDialBuckets = 1"

definition onionbox_Overhead :: "nacl \<Rightarrow> nat" where
  "onionbox_Overhead N = 32 + box_Overhead N"

definition SizeEncryptedMessage :: "nacl \<Rightarrow> nat" where
  "SizeEncryptedMessage N = SizeMessage + box_Overhead N"

definition SizeConvoExchange :: "nacl \<Rightarrow> nat" where
  "SizeConvoExchange N = 16 + SizeEncryptedMessage N"

text \<open>\<^verbatim>\<open>unsafe.Sizeof\<close> rounds a struct with a \<^verbatim>\<open>uint32\<close> field up to a multiple of 4.\<close>

definition align4 :: "nat \<Rightarrow> nat" where
  "align4 n = (n + 3) div 4 * 4"

definition SizeEncryptedIntro :: "nacl \<Rightarrow> nat" where
  "SizeEncryptedIntro N = align4 (4 + 32) + onionbox_Overhead N"

definition SizeDialExchange :: "nacl \<Rightarrow> nat" where
  "SizeDialExchange N = align4 (4 + SizeEncryptedIntro N)"

section \<open>Structs and their encodings\<close>

record ConvoExchange =
  DeadDrop :: bytes
  EncryptedMessage :: bytes

record Introduction =
  Rendezvous :: u32
  LongTermKey :: bytes

record DialExchange =
  Bucket :: u32
  EncryptedIntro :: bytes

definition wf_ConvoExchange :: "nacl \<Rightarrow> ConvoExchange \<Rightarrow> bool" where
  "wf_ConvoExchange N e \<longleftrightarrow> length (DeadDrop e) = 16 \<and> length (EncryptedMessage e) = SizeEncryptedMessage N"

definition wf_Introduction :: "Introduction \<Rightarrow> bool" where
  "wf_Introduction i \<longleftrightarrow> length (LongTermKey i) = 32"

definition wf_DialExchange :: "nacl \<Rightarrow> DialExchange \<Rightarrow> bool" where
  "wf_DialExchange N e \<longleftrightarrow> length (EncryptedIntro e) = SizeEncryptedIntro N"

text \<open>
  \<^verbatim>\<open>binary.Read\<close> first reads as many bytes as the value has, with \<^verbatim>\<open>io.ReadFull\<close>: no byte
  at all is \<open>EOF\<close>, too few \<open>UnexpectedEOF\<close>, and further bytes are left alone.
\<close>

definition read_full :: "nat \<Rightarrow> bytes \<Rightarrow> gerr + bytes" where
  "read_full n data =
     (if n \<le> length data then Inr (take n data)
      else if data = [] then Inl EOF else Inl UnexpectedEOF)"

definition ConvoExchange_Marshal :: "ConvoExchange \<Rightarrow> bytes" where
  "ConvoExchange_Marshal e = DeadDrop e @ EncryptedMessage e"

definition ConvoExchange_Unmarshal :: "nacl \<Rightarrow> bytes \<Rightarrow> gerr + ConvoExchange" where
  "ConvoExchange_Unmarshal N data =
     map_sum id (\<lambda>b. \<lparr>DeadDrop = take 16 b, EncryptedMessage = drop 16 b\<rparr>)
       (read_full (16 + SizeEncryptedMessage N) data)"

definition Introduction_Marshal :: "Introduction \<Rightarrow> bytes" where
  "Introduction_Marshal i = PutUint32 (Rendezvous i) @ LongTermKey i"

definition Introduction_Unmarshal :: "bytes \<Rightarrow> gerr + Introduction" where
  "Introduction_Unmarshal data =
     map_sum id (\<lambda>b. \<lparr>Rendezvous = Uint32 b, LongTermKey = drop 4 b\<rparr>) (read_full (4 + 32) data)"

definition DialExchange_Marshal :: "DialExchange \<Rightarrow> bytes" where
  "DialExchange_Marshal e = PutUint32 (Bucket e) @ EncryptedIntro e"

definition DialExchange_Unmarshal :: "nacl \<Rightarrow> bytes \<Rightarrow> gerr + DialExchange" where
  "DialExchange_Unmarshal N data =
     map_sum id (\<lambda>b. \<lparr>Bucket = Uint32 b, EncryptedIntro = drop 4 b\<rparr>)
       (read_full (4 + SizeEncryptedIntro N) data)"

section \<open>Nonces and buckets\<close>

definition ForwardNonce :: "u32 \<Rightarrow> bytes" where
  "ForwardNonce round = (copy_into (replicate 24 0) (PutUint32 round))[4 := 0]"

definition BackwardNonce :: "u32 \<Rightarrow> bytes" where
  "BackwardNonce round = (copy_into (replicate 24 0) (PutUint32 round))[4 := 1]"

text \<open>The modulus panics when there are no buckets.\<close>

definition KeyDialBucket :: "bytes \<Rightarrow> u32 \<Rightarrow> u32 outcome" where
  "KeyDialBucket key buckets =
     (if buckets = 0 then Panic else Ret (Uint32 (slice 28 32 key) mod buckets))"

section \<open>Keys\<close>

record base32 =
  base32_EncodeToString :: "bytes \<Rightarrow> string"
  base32_DecodeString :: "string \<Rightarrow> gerr + bytes"

definition BoxKey_String :: "base32 \<Rightarrow> bytes \<Rightarrow> string" where
  "BoxKey_String B k = base32_EncodeToString B k"

definition KeyFromString :: "base32 \<Rightarrow> string \<Rightarrow> gerr + bytes" where
  "KeyFromString B s =
     (case base32_DecodeString B s of
        Inl err \<Rightarrow> Inl (Wrapped ''base32 decode error'' err)
      | Inr b \<Rightarrow> if min 32 (length b) < 32 then Inl ShortKey else Inr (copy_into (replicate 32 0) b))"

text \<open>
  \<^verbatim>\<open>UnmarshalJSON\<close> on the string \<open>js\<close> that \<^verbatim>\<open>json.Unmarshal\<close> yields (or its error) writes into the
  key \<open>k\<close>; a short string has overwritten a prefix of it by the time the error is returned.
\<close>

definition BoxKey_UnmarshalJSON :: "base32 \<Rightarrow> gerr + string \<Rightarrow> bytes \<Rightarrow> gerr option \<times> bytes" where
  "BoxKey_UnmarshalJSON B js k =
     (case js of
        Inl err \<Rightarrow> (Some err, k)
      | Inr s \<Rightarrow>
          (case base32_DecodeString B s of
             Inl err \<Rightarrow> (Some (Wrapped ''base32 decode error'' err), k)
           | Inr bs \<Rightarrow>
               (if min (length k) (length bs) < 32 then (Some ShortKey, copy_into k bs)
                else (None, copy_into k bs))))"

definition GenerateBoxKey :: "nacl \<Rightarrow> rng \<Rightarrow> (bytes \<times> bytes) option \<times> rng" where
  "GenerateBoxKey N r = box_GenerateKey N r"

text \<open>\<^verbatim>\<open>BoxKeys.Keys\<close> only changes the pointer type; a nil pointer stays nil.\<close>

definition Keys :: "bytes option list \<Rightarrow> bytes option list" where
  "Keys keys = map (\<lambda>i. keys ! i) [0..<length keys]"

lemma Keys_id [simp]: "Keys keys = keys"
  by (simp add: Keys_def map_nth)

section \<open>Sizes under the promises of the box\<close>

lemma SizeMessage_eq [wire_simps]: "SizeMessage = 240"
  by (simp add: SizeMessage_def)

lemma onionbox_Overhead_eq [wire_simps]: "nacl_ok N \<Longrightarrow> onionbox_Overhead N = 48"
  by (simp add: onionbox_Overhead_def nacl_overhead)

lemma SizeEncryptedMessage_eq [wire_simps]: "nacl_ok N \<Longrightarrow> SizeEncryptedMessage N = 256"
  by (simp add: SizeEncryptedMessage_def SizeMessage_def nacl_overhead)

lemma SizeConvoExchange_eq [wire_simps]: "nacl_ok N \<Longrightarrow> SizeConvoExchange N = 272"
  by (simp add: SizeConvoExchange_def SizeEncryptedMessage_eq)

lemma SizeEncryptedIntro_eq [wire_simps]: "nacl_ok N \<Longrightarrow> SizeEncryptedIntro N = 84"
  by (simp add: SizeEncryptedIntro_def align4_def onionbox_Overhead_eq)

lemma SizeDialExchange_eq [wire_simps]: "nacl_ok N \<Longrightarrow> SizeDialExchange N = 88"
  by (simp add: SizeDialExchange_def align4_def SizeEncryptedIntro_eq)

section \<open>The contract of a fixed-size codec\<close>

locale codec =
  fixes enc :: "'a \<Rightarrow> bytes" and dec :: "bytes \<Rightarrow> gerr + 'a" and wf :: "'a \<Rightarrow> bool" and size :: nat
  assumes enc_size: "wf a \<Longrightarrow> length (enc a) = size"
    and dec_enc_append: "wf a \<Longrightarrow> dec (enc a @ rest) = Inr a"
    and dec_full: "size \<le> length b \<Longrightarrow> \<exists>a. dec b = Inr a \<and> wf a \<and> enc a = take size b"
    and dec_short: "length b < size \<Longrightarrow> dec b = Inl (if b = [] then EOF else UnexpectedEOF)"
begin

lemma dec_enc: "wf a \<Longrightarrow> dec (enc a) = Inr a"
  using dec_enc_append [of a "[]"] by simp

lemma enc_inj: "wf a \<Longrightarrow> wf b \<Longrightarrow> enc a = enc b \<longleftrightarrow> a = b"
  using dec_enc by (metis sum.inject(2))

lemma dec_Inr_iff: "dec b = Inr a \<longleftrightarrow> size \<le> length b \<and> wf a \<and> enc a = take size b"
proof (cases "size \<le> length b")
  case True
  then obtain c where "dec b = Inr c" "wf c" "enc c = take size b" using dec_full by blast
  then show ?thesis using True enc_inj [of a c] by auto
next
  case False
  then show ?thesis using dec_short by auto
qed

lemma enc_dec: "length b = size \<Longrightarrow> \<exists>a. dec b = Inr a \<and> wf a \<and> enc a = b"
  using dec_full [of b] by simp

end

lemma read_full_Inr: "n \<le> length b \<Longrightarrow> read_full n b = Inr (take n b)"
  by (simp add: read_full_def)

lemma read_full_short: "length b < n \<Longrightarrow> read_full n b = Inl (if b = [] then EOF else UnexpectedEOF)"
  by (simp add: read_full_def)

lemma PutUint32_take: "4 \<le> length b \<Longrightarrow> PutUint32 (Uint32 b) = take 4 b"
  using PutUint32_Uint32 [of "take 4 b"] by (simp add: Uint32_def)

interpretation ce: codec ConvoExchange_Marshal "ConvoExchange_Unmarshal N" "wf_ConvoExchange N"
  "16 + SizeEncryptedMessage N" for N
  by unfold_locales
    (auto simp: ConvoExchange_Marshal_def ConvoExchange_Unmarshal_def wf_ConvoExchange_def
      read_full_Inr read_full_short take_drop_take min_def)

interpretation intro: codec Introduction_Marshal Introduction_Unmarshal wf_Introduction "4 + 32"
  by unfold_locales
    (auto simp: Introduction_Marshal_def Introduction_Unmarshal_def wf_Introduction_def
      read_full_Inr read_full_short PutUint32_take take_drop_take min_def)

interpretation de: codec DialExchange_Marshal "DialExchange_Unmarshal N" "wf_DialExchange N"
  "4 + SizeEncryptedIntro N" for N
  by unfold_locales
    (auto simp: DialExchange_Marshal_def DialExchange_Unmarshal_def wf_DialExchange_def
      read_full_Inr read_full_short PutUint32_take take_drop_take min_def)

section \<open>Nonces\<close>

lemma nonce_layout:
  "ForwardNonce r = PutUint32 r @ 0 # replicate 19 0"
  "BackwardNonce r = PutUint32 r @ 1 # replicate 19 0"
proof -
  have "copy_into (replicate 24 0) (PutUint32 r) = PutUint32 r @ 0 # replicate 19 0"
    by (simp add: copy_into_def drop_replicate flip: replicate_Suc)
  then show "ForwardNonce r = PutUint32 r @ 0 # replicate 19 0"
    "BackwardNonce r = PutUint32 r @ 1 # replicate 19 0"
    by (simp_all add: ForwardNonce_def BackwardNonce_def list_update_append)
qed

lemma length_nonce [simp]: "length (ForwardNonce r) = 24" "length (BackwardNonce r) = 24"
  by (simp_all add: nonce_layout)

section \<open>Properties\<close>

text \<open>
  C23: the three wire structs survive encoding and decoding, trailing bytes or not, an
  encoded exchange has exactly the size the servers and the noise generators use for it, and
  input shorter than that is an error: end of file when there is none, unexpected end of file
  otherwise.
\<close>

theorem wire_round_trip:
  assumes "nacl_ok N" "wf_ConvoExchange N e" "wf_Introduction i" "wf_DialExchange N d"
  shows "ConvoExchange_Unmarshal N (ConvoExchange_Marshal e @ rest) = Inr e
    \<and> Introduction_Unmarshal (Introduction_Marshal i @ rest) = Inr i
    \<and> DialExchange_Unmarshal N (DialExchange_Marshal d @ rest) = Inr d
    \<and> length (ConvoExchange_Marshal e) = SizeConvoExchange N
    \<and> length (DialExchange_Marshal d) = SizeDialExchange N
    \<and> length (Introduction_Marshal i) + onionbox_Overhead N = SizeEncryptedIntro N
    \<and> (length b < SizeConvoExchange N \<longrightarrow> ConvoExchange_Unmarshal N b = Inl (if b = [] then EOF else UnexpectedEOF))
    \<and> (length b < length (Introduction_Marshal i) \<longrightarrow> Introduction_Unmarshal b = Inl (if b = [] then EOF else UnexpectedEOF))
    \<and> (length b < SizeDialExchange N \<longrightarrow> DialExchange_Unmarshal N b = Inl (if b = [] then EOF else UnexpectedEOF))"
  using ce.dec_short [of b N] intro.dec_short [of b] de.dec_short [of b N] ce.dec_enc_append [OF assms(2)] intro.dec_enc_append [OF assms(3)] de.dec_enc_append [OF assms(4)]
    ce.enc_size [OF assms(2)] intro.enc_size [OF assms(3)] de.enc_size [OF assms(4)]
  by (simp add: wire_simps assms(1))

theorem wire_round_trip_witness:
  "\<exists>e i d. ConvoExchange_Unmarshal clear_box (ConvoExchange_Marshal e @ [7]) = Inr e
     \<and> Introduction_Unmarshal (Introduction_Marshal i @ [7]) = Inr i
     \<and> DialExchange_Unmarshal clear_box (DialExchange_Marshal d @ [7]) = Inr d
     \<and> ConvoExchange_Unmarshal clear_box [7] = Inl UnexpectedEOF \<and> Introduction_Unmarshal [7] = Inl UnexpectedEOF
     \<and> DialExchange_Unmarshal clear_box [7] = Inl UnexpectedEOF"
proof -
  let ?e = "\<lparr>DeadDrop = replicate 16 1, EncryptedMessage = replicate 256 2\<rparr>"
  let ?i = "\<lparr>Rendezvous = 9, LongTermKey = replicate 32 3\<rparr>"
  let ?d = "\<lparr>Bucket = 0, EncryptedIntro = replicate 84 4\<rparr>"
  have "wf_ConvoExchange clear_box ?e" "wf_Introduction ?i" "wf_DialExchange clear_box ?d"
    by (simp_all add: wf_ConvoExchange_def wf_Introduction_def wf_DialExchange_def wire_simps clear_box_ok)
  note trip = wire_round_trip [OF clear_box_ok this, of "[7]" "[7]"]
  have "length (Introduction_Marshal ?i) = 36" by (simp add: Introduction_Marshal_def PutUint32_def)
  then have "ConvoExchange_Unmarshal clear_box [7] = Inl UnexpectedEOF" "Introduction_Unmarshal [7] = Inl UnexpectedEOF"
    "DialExchange_Unmarshal clear_box [7] = Inl UnexpectedEOF"
    using trip by (simp_all add: wire_simps clear_box_ok)
  with trip show ?thesis by blast
qed

text \<open>
  The nonce of an onion layer determines the round and the direction: two nonces are equal
  only for the same round and the same direction, and all have the 24 bytes the box wants.
\<close>

theorem nonces_distinct:
  "(ForwardNonce r = ForwardNonce r' \<longleftrightarrow> r = r') \<and> (BackwardNonce r = BackwardNonce r' \<longleftrightarrow> r = r')
    \<and> ForwardNonce r \<noteq> BackwardNonce r' \<and> length (ForwardNonce r) = 24 \<and> length (BackwardNonce r) = 24"
  by (simp add: nonce_layout)

text \<open>
  A key string that \<open>KeyFromString\<close> accepts gives a key of 32 bytes, printing a key and
  reading it back gives the key, and reading a key from JSON accepts the same strings with the
  same key.  The base32 codec is assumed to decode what it encoded.
\<close>

theorem KeyFromString_round_trip:
  assumes "\<And>b. base32_DecodeString B (base32_EncodeToString B b) = Inr b" "length k = 32"
  shows "KeyFromString B (BoxKey_String B k) = Inr k
    \<and> (\<forall>s k'. KeyFromString B s = Inr k' \<longrightarrow> length k' = 32 \<and> BoxKey_UnmarshalJSON B (Inr s) k = (None, k'))"
proof -
  have "BoxKey_UnmarshalJSON B (Inr s) k = (None, k') \<and> length k' = 32" if "KeyFromString B s = Inr k'" for s k'
    using that assms(2)
    by (auto simp: KeyFromString_def BoxKey_UnmarshalJSON_def copy_into_def split: sum.splits if_splits)
  then show ?thesis
    using assms by (auto simp: KeyFromString_def BoxKey_String_def)
qed

theorem KeyFromString_round_trip_witness:
  "\<exists>B. KeyFromString B (BoxKey_String B (replicate 32 5)) = Inr (replicate 32 5)"
proof -
  let ?B = "\<lparr>base32_EncodeToString = map (\<lambda>w. char_of (unat w)),
    base32_DecodeString = (\<lambda>s. Inr (map (\<lambda>c. of_nat (of_char c)) s))\<rparr>"
  have "base32_DecodeString ?B (base32_EncodeToString ?B b) = Inr b" for b
  proof -
    have "unat (w :: byte) < 256" for w using unsigned_less [of w] by simp
    then show ?thesis by (simp add: comp_def)
  qed
  from KeyFromString_round_trip [OF this, of "replicate 32 5"] show ?thesis by auto
qed

end
