(* ===== verification/Onionbox.thy ===== *)
theory Onionbox
  imports Wire
begin

text \<open>
  Onion encryption, \<^verbatim>\<open>onionbox/onion.go\<close>, and the layer a server takes off
  (\<open>unwrap_layer\<close>, the lines \<^verbatim>\<open>ConvoService.Add\<close> runs on each onion).  \<open>Seal\<close> wraps a message
  for a list of servers with a fresh key pair per layer; each server removes its layer on the way
  in and adds one on the way back, and the client opens all of those with the shared keys it kept.
\<close>

section \<open>The code\<close>

text \<open>
  The loop of \<^verbatim>\<open>Seal\<close> runs from the last key to the first, so the recursion seals the tail first.
  A failed key generation panics, as does a nil public key.
\<close>

primrec Onion_Seal :: "nacl \<Rightarrow> bytes \<Rightarrow> bytes \<Rightarrow> bytes option list \<Rightarrow> rng \<Rightarrow> ((bytes \<times> bytes list) \<times> rng) outcome" where
  "Onion_Seal N message nonce [] r = Ret ((message, []), r)"
| "Onion_Seal N message nonce (pk # pks) r =
     obind (Onion_Seal N message nonce pks r) (\<lambda>((onion, sharedKeys), r).
       case box_GenerateKey N r of
         (None, r) \<Rightarrow> Panic
       | (Some (myPublicKey, myPrivateKey), r) \<Rightarrow>
           obind (deref pk) (\<lambda>pk.
             let k = box_Precompute N pk myPrivateKey
             in Ret ((myPublicKey @ box_SealAfterPrecomputation N onion nonce k, k # sharedKeys), r)))"

primrec Onion_Open :: "nacl \<Rightarrow> bytes \<Rightarrow> bytes \<Rightarrow> bytes list \<Rightarrow> bytes option" where
  "Onion_Open N message nonce [] = Some message"
| "Onion_Open N message nonce (k # sharedKeys) =
     (case box_OpenAfterPrecomputation N message nonce k of
        None \<Rightarrow> None
      | Some message' \<Rightarrow> Onion_Open N message' nonce sharedKeys)"

text \<open>What a server with private key \<open>sk\<close> does to an onion: the shared key and the content, if it opens.\<close>

definition unwrap_layer :: "nacl \<Rightarrow> bytes \<Rightarrow> bytes \<Rightarrow> bytes \<Rightarrow> bytes \<times> bytes option" where
  "unwrap_layer N nonce sk onion =
     (let theirPublic = copy_into (replicate 32 0) (slice 0 32 onion);
          sharedKey = box_Precompute N theirPublic sk
      in (sharedKey, box_OpenAfterPrecomputation N (drop 32 onion) nonce sharedKey))"

abbreviation public_keys :: "nacl \<Rightarrow> bytes list \<Rightarrow> bytes option list" where
  "public_keys N sks \<equiv> map (\<lambda>sk. Some (box_PublicOf N sk)) sks"

section \<open>The way in and the way back, over a chain of servers\<close>

primrec unwrap_all :: "nacl \<Rightarrow> bytes \<Rightarrow> bytes list \<Rightarrow> bytes \<Rightarrow> (bytes \<times> bytes list) option" where
  "unwrap_all N nonce [] onion = Some (onion, [])"
| "unwrap_all N nonce (sk # sks) onion =
     (case unwrap_layer N nonce sk onion of
        (k, None) \<Rightarrow> None
      | (k, Some m) \<Rightarrow> map_option (\<lambda>(msg, ks). (msg, k # ks)) (unwrap_all N nonce sks m))"

definition wrap_all :: "nacl \<Rightarrow> bytes \<Rightarrow> bytes list \<Rightarrow> bytes \<Rightarrow> bytes" where
  "wrap_all N nonce ks reply = foldr (\<lambda>k m. box_SealAfterPrecomputation N m nonce k) ks reply"

lemma unwrap_layer_sealed:
  assumes "nacl_ok N"
  shows "unwrap_layer N nonce sk
      (box_PublicOf N esk @ box_SealAfterPrecomputation N m nonce (box_Precompute N (box_PublicOf N sk) esk)) =
    (box_Precompute N (box_PublicOf N sk) esk, Some m)"
  using assms
  by (simp add: unwrap_layer_def slice_def nacl_public_length nacl_open_seal nacl_agree [of N esk sk])

lemma Onion_Seal_total:
  assumes "nacl_ok N" "None \<notin> set pks"
  shows "\<exists>onion ks r'. Onion_Seal N msg nonce pks r = Ret ((onion, ks), r')
    \<and> length ks = length pks \<and> length onion = length msg + length pks * 48"
  using assms(2)
proof (induction pks)
  case Nil
  then show ?case by simp
next
  case (Cons pk pks)
  then obtain onion ks r' where IH: "Onion_Seal N msg nonce pks r = Ret ((onion, ks), r')"
    "length ks = length pks" "length onion = length msg + length pks * 48" by auto
  obtain sk r'' where "box_GenerateKey N r' = (Some (box_PublicOf N sk, sk), r'')"
    using nacl_keygen [OF assms(1)] by blast
  then show ?case
    using IH Cons.prems by (cases pk) (auto simp: Let_def len_simps assms(1))
qed

lemma Onion_Seal_Ret_length:
  assumes "nacl_ok N" "Onion_Seal N msg nonce pks r = Ret ((onion, ks), r')"
  shows "length ks = length pks" "length onion = length msg + length pks * 48"
proof -
  have "length ks = length pks \<and> length onion = length msg + length pks * 48"
    using assms(2)
  proof (induction pks arbitrary: onion ks r')
    case (Cons pk pks)
    then obtain o1 ks1 r1 where IH: "Onion_Seal N msg nonce pks r = Ret ((o1, ks1), r1)"
      by (auto simp: outcome_simps)
    obtain sk r2 where "box_GenerateKey N r1 = (Some (box_PublicOf N sk, sk), r2)"
      using nacl_keygen [OF assms(1)] by blast
    then show ?case
      using Cons IH by (auto simp: outcome_simps Let_def len_simps assms(1))
  qed simp
  then show "length ks = length pks" "length onion = length msg + length pks * 48" by auto
qed

lemma Onion_Seal_unwrap:
  assumes "nacl_ok N" "Onion_Seal N msg nonce (public_keys N sks) r = Ret ((onion, ks), r')"
  shows "unwrap_all N nonce sks onion = Some (msg, ks)"
  using assms(2)
proof (induction sks arbitrary: onion ks r')
  case Nil
  then show ?case by simp
next
  case (Cons sk sks)
  then obtain o1 ks1 r1 where IH: "Onion_Seal N msg nonce (public_keys N sks) r = Ret ((o1, ks1), r1)"
    by (auto simp: outcome_simps)
  obtain esk r2 where gen: "box_GenerateKey N r1 = (Some (box_PublicOf N esk, esk), r2)"
    using nacl_keygen [OF assms(1)] by blast
  have on: "onion = box_PublicOf N esk @
      box_SealAfterPrecomputation N o1 nonce (box_Precompute N (box_PublicOf N sk) esk)"
    and ks: "ks = box_Precompute N (box_PublicOf N sk) esk # ks1"
    using Cons.prems IH gen by (auto simp: Let_def)
  show ?case using Cons.IH [OF IH] by (simp add: on ks unwrap_layer_sealed [OF assms(1)])
qed

lemma wrap_all_Cons [simp]:
  "wrap_all N nonce (k # ks) m = box_SealAfterPrecomputation N (wrap_all N nonce ks m) nonce k"
  by (simp add: wrap_all_def)

lemma wrap_all_Nil [simp]: "wrap_all N nonce [] m = m"
  by (simp add: wrap_all_def)

lemma Onion_Open_wrap_all: "nacl_ok N \<Longrightarrow> Onion_Open N (wrap_all N nonce ks m) nonce ks = Some m"
  by (induction ks) (simp_all add: nacl_open_seal)

lemma length_wrap_all: "nacl_ok N \<Longrightarrow> length (wrap_all N nonce ks m) = length m + length ks * 16"
  by (induction ks) (simp_all add: len_simps)

section \<open>Properties\<close>

text \<open>
  C8: an onion sealed for a chain of servers, opened one layer per server with the servers'
  private keys, yields the message; the shared keys the servers derive on the way are those the
  client kept, so a reply that the servers wrap from the last to the first opens, with those keys,
  to the reply.  Each layer in costs 48 bytes and each layer back 16.
\<close>

theorem onion_there_and_back:
  assumes "nacl_ok N"
  shows "\<exists>onion ks r'. Onion_Seal N msg nonce (public_keys N sks) r = Ret ((onion, ks), r')
    \<and> unwrap_all N nonce sks onion = Some (msg, ks)
    \<and> length onion = length msg + length sks * 48
    \<and> Onion_Open N (wrap_all N nonce' ks reply) nonce' ks = Some reply
    \<and> length (wrap_all N nonce' ks reply) = length reply + length sks * 16"
proof -
  have "None \<notin> set (public_keys N sks)" by auto
  then obtain onion ks r' where seal: "Onion_Seal N msg nonce (public_keys N sks) r = Ret ((onion, ks), r')"
    using Onion_Seal_total [OF assms] by blast
  show ?thesis
    using seal Onion_Seal_unwrap [OF assms seal] Onion_Seal_Ret_length [OF assms seal]
      Onion_Open_wrap_all [OF assms] length_wrap_all [OF assms, of nonce' ks reply] by auto
qed

theorem onion_there_and_back_witness:
  "\<exists>onion ks r'. Onion_Seal clear_box [1, 2, 3] (ForwardNonce 7)
      (public_keys clear_box [replicate 32 4, replicate 32 5]) (\<lambda>i. of_nat i) = Ret ((onion, ks), r')
    \<and> unwrap_all clear_box (ForwardNonce 7) [replicate 32 4, replicate 32 5] onion = Some ([1, 2, 3], ks)
    \<and> length onion = 99"
proof -
  have len: "length [1 :: byte, 2, 3] + length [replicate 32 (4 :: byte), replicate 32 5] * 48 = 99"
    by simp
  show ?thesis
    using onion_there_and_back [OF clear_box_ok, of "[1, 2, 3]" "ForwardNonce 7"
      "[replicate 32 4, replicate 32 5]" "\<lambda>i. of_nat i"] unfolding len by blast
qed

text \<open>
  The two failure paths.  \<open>Open\<close> returns a message only for a ciphertext that carries
  exactly the tags of all the layers, and \<open>Seal\<close> panics when one of the public keys is nil.
\<close>

theorem Onion_Open_rejects:
  assumes "nacl_ok N"
  shows "(\<forall>m. Onion_Open N c nonce ks = Some m \<longrightarrow> length c = length m + length ks * 16)
    \<and> (None \<in> set pks \<longrightarrow> Onion_Seal N msg nonce pks r = Panic)"
proof -
  have "length c = length m + length ks * 16" if "Onion_Open N c nonce ks = Some m" for m
    using that
  proof (induction ks arbitrary: c)
    case (Cons k ks)
    then show ?case using nacl_open_length [OF assms] by (fastforce split: option.splits)
  qed simp
  moreover have "Onion_Seal N msg nonce pks r = Panic" if "None \<in> set pks" for pks
    using that
  proof (induction pks)
    case (Cons pk pks)
    show ?case
    proof (cases "None \<in> set pks")
      case False
      then obtain o1 ks1 r1 where inner: "Onion_Seal N msg nonce pks r = Ret ((o1, ks1), r1)"
        using Onion_Seal_total [OF assms] by blast
      obtain sk r2 where "box_GenerateKey N r1 = (Some (box_PublicOf N sk, sk), r2)"
        using nacl_keygen [OF assms] by blast
      with False Cons.prems inner show ?thesis by auto
    qed (simp add: Cons.IH)
  qed simp
  ultimately show ?thesis by blast
qed

theorem Onion_Open_rejects_witness:
  "Onion_Seal clear_box [1] (ForwardNonce 0) [Some (replicate 32 1), None] (\<lambda>_. 0) = Panic"
  using Onion_Open_rejects [OF clear_box_ok, of "[]" "ForwardNonce 0" "[]" "[Some (replicate 32 1), None]"]
  by (simp only: list.set insert_iff simp_thms)

end
