(* ===== verification/PKI.thy ===== *)
theory PKI
  imports Wire
begin

text \<open>
  The server directory, \<^verbatim>\<open>pki.go\<close>.  A map value is a pointer that a JSON \<^verbatim>\<open>null\<close> makes nil, and
  looking a missing server up gives a nil pointer too; using it panics.
  \<open>ReadPKI\<close> is the checking part of \<^verbatim>\<open>ReadPKI\<close>, after the JSON file was decoded: a fatal exit is
  an \<open>Inl\<close>.
\<close>

record ServerInfo =
  Address :: string
  PublicKey :: "bytes option"

record PKI =
  People :: "string \<Rightarrow> bytes option"
  Servers :: "string \<Rightarrow> ServerInfo option option"
  ServerOrder :: "string list"
  EntryServer :: string

definition DefaultServerPort :: string where
  "DefaultServerPort = ''2718''"

text \<open>\<^verbatim>\<open>net.JoinHostPort\<close> on a host without a colon.\<close>

definition JoinHostPort :: "string \<Rightarrow> string \<Rightarrow> string" where
  "JoinHostPort host port = host @ '':'' @ port"

definition check_server :: "string \<Rightarrow> PKI \<Rightarrow> (gerr + PKI) outcome" where
  "check_server s pki =
     (case Servers pki s of
        None \<Rightarrow> Ret (Inl (Foreign ''server not found''))
      | Some info \<Rightarrow>
          obind (deref info) (\<lambda>info.
            if Address info = [] then Ret (Inl (Foreign ''server does not specify an Address''))
            else if CHR '':'' \<notin> set (Address info) then
              Ret (Inr (pki\<lparr>Servers := (Servers pki)
                (s \<mapsto> Some (info\<lparr>Address := JoinHostPort (Address info) DefaultServerPort\<rparr>))\<rparr>))
            else Ret (Inr pki)))"

primrec check_servers :: "string list \<Rightarrow> PKI \<Rightarrow> (gerr + PKI) outcome" where
  "check_servers [] pki = Ret (Inr pki)"
| "check_servers (s # ss) pki =
     obind (check_server s pki) (\<lambda>res.
       case res of Inl e \<Rightarrow> Ret (Inl e) | Inr pki' \<Rightarrow> check_servers ss pki')"

definition ReadPKI :: "PKI \<Rightarrow> (gerr + PKI) outcome" where
  "ReadPKI pki =
     (if ServerOrder pki = [] then Ret (Inl (Foreign ''ServerOrder must contain at least one server''))
      else check_servers (ServerOrder pki) pki)"

text \<open>The pointer \<^verbatim>\<open>pki.Servers[s]\<close>, dereferenced.\<close>

definition server_info :: "PKI \<Rightarrow> string \<Rightarrow> ServerInfo outcome" where
  "server_info pki s = deref (Option.bind (Servers pki s) id)"

primrec keys_of :: "PKI \<Rightarrow> string list \<Rightarrow> bytes option list outcome" where
  "keys_of pki [] = Ret []"
| "keys_of pki (s # ss) =
     obind (server_info pki s) (\<lambda>info. obind (keys_of pki ss) (\<lambda>ks. Ret (PublicKey info # ks)))"

definition ServerKeys :: "PKI \<Rightarrow> bytes option list outcome" where
  "ServerKeys pki = keys_of pki (ServerOrder pki)"

definition FirstServer :: "PKI \<Rightarrow> string outcome" where
  "FirstServer pki =
     obind (idx (ServerOrder pki) 0) (\<lambda>s. obind (server_info pki s) (\<lambda>info. Ret (Address info)))"

definition PKI_LastServer :: "PKI \<Rightarrow> string outcome" where
  "PKI_LastServer pki =
     (if ServerOrder pki = [] then Panic
      else obind (idx (ServerOrder pki) (length (ServerOrder pki) - 1))
        (\<lambda>s. obind (server_info pki s) (\<lambda>info. Ret (Address info))))"

text \<open>The loop of \<^verbatim>\<open>Index\<close>: \<open>i\<close> is the loop variable as it stands when the loop is left.\<close>

primrec index_loop :: "string list \<Rightarrow> string \<Rightarrow> nat \<Rightarrow> nat \<Rightarrow> nat" where
  "index_loop [] name i k = i"
| "index_loop (s # ss) name i k = (if s = name then k else index_loop ss name k (k + 1))"

definition Index :: "PKI \<Rightarrow> string \<Rightarrow> nat" where
  "Index pki serverName = index_loop (ServerOrder pki) serverName 0 0"

definition NextServer :: "PKI \<Rightarrow> string \<Rightarrow> string outcome" where
  "NextServer pki serverName =
     (let i = Index pki serverName
      in if int i < int (length (ServerOrder pki)) - 1
         then obind (idx (ServerOrder pki) (i + 1))
           (\<lambda>s. obind (server_info pki s) (\<lambda>info. Ret (Address info)))
         else Ret [])"

definition NextServerKeys :: "PKI \<Rightarrow> string \<Rightarrow> bytes option list outcome" where
  "NextServerKeys pki serverName =
     (let i = Index pki serverName
      in if i + 1 \<le> length (ServerOrder pki) then keys_of pki (drop (i + 1) (ServerOrder pki)) else Panic)"

definition IncomingOnionOverhead :: "nacl \<Rightarrow> PKI \<Rightarrow> string \<Rightarrow> nat" where
  "IncomingOnionOverhead N pki serverName =
     (length (ServerOrder pki) - Index pki serverName) * onionbox_Overhead N"

definition OutgoingOnionOverhead :: "nacl \<Rightarrow> PKI \<Rightarrow> string \<Rightarrow> nat" where
  "OutgoingOnionOverhead N pki serverName =
     (length (ServerOrder pki) - Index pki serverName) * box_Overhead N"

section \<open>What the lookups return\<close>

lemma index_loop_found:
  "i < length ss \<Longrightarrow> distinct ss \<Longrightarrow> index_loop ss (ss ! i) j k = k + i"
proof (induction ss arbitrary: i j k)
  case (Cons s ss)
  then show ?case by (cases i) auto
qed simp

lemma index_loop_missing:
  "name \<notin> set ss \<Longrightarrow> index_loop ss name j k = (if ss = [] then j else k + length ss - 1)"
  by (induction ss arbitrary: j k) auto

lemma Index_found: "distinct (ServerOrder pki) \<Longrightarrow> i < length (ServerOrder pki) \<Longrightarrow> Index pki (ServerOrder pki ! i) = i"
  by (simp add: Index_def index_loop_found)

lemma Index_missing: "name \<notin> set (ServerOrder pki) \<Longrightarrow> Index pki name = length (ServerOrder pki) - 1"
  by (auto simp: Index_def index_loop_missing)

lemma index_loop_less: "j < n \<Longrightarrow> k + length ss \<le> n \<Longrightarrow> index_loop ss name j k < n"
  by (induction ss arbitrary: j k) auto

lemma Index_less: "ServerOrder pki \<noteq> [] \<Longrightarrow> Index pki name < length (ServerOrder pki)"
  unfolding Index_def by (rule index_loop_less) auto

text \<open>A directory \<open>ReadPKI\<close> accepted.\<close>

definition pki_ok :: "PKI \<Rightarrow> bool" where
  "pki_ok pki \<longleftrightarrow> ServerOrder pki \<noteq> [] \<and>
     (\<forall>s \<in> set (ServerOrder pki). \<exists>info. server_info pki s = Ret info \<and> Address info \<noteq> [] \<and> CHR '':'' \<in> set (Address info))"

definition key_of :: "PKI \<Rightarrow> string \<Rightarrow> bytes option" where
  "key_of pki s = (case Servers pki s of Some (Some info) \<Rightarrow> PublicKey info | _ \<Rightarrow> None)"

lemma keys_of_ok: "\<forall>s \<in> set ss. \<exists>info. server_info pki s = Ret info \<Longrightarrow> keys_of pki ss = Ret (map (key_of pki) ss)"
  by (induction ss) (auto simp: server_info_def key_of_def outcome_simps bind_eq_Some_conv)

lemma ServerKeys_ok: "pki_ok pki \<Longrightarrow> ServerKeys pki = Ret (map (key_of pki) (ServerOrder pki))"
  unfolding ServerKeys_def by (rule keys_of_ok) (auto simp: pki_ok_def)

lemma NextServerKeys_ok:
  assumes "pki_ok pki"
  shows "NextServerKeys pki name = Ret (map (key_of pki) (drop (Index pki name + 1) (ServerOrder pki)))"
proof -
  have "Index pki name + 1 \<le> length (ServerOrder pki)"
    using assms Index_less [of pki name] by (auto simp: pki_ok_def)
  moreover have "\<forall>s \<in> set (drop (Index pki name + 1) (ServerOrder pki)). \<exists>info. server_info pki s = Ret info"
    using assms by (auto simp: pki_ok_def dest: in_set_dropD)
  ultimately show ?thesis by (simp add: NextServerKeys_def keys_of_ok)
qed

lemma check_servers_ok:
  "check_servers ss pki = Ret (Inr pki') \<Longrightarrow>
     ServerOrder pki' = ServerOrder pki \<and> (\<forall>s. key_of pki' s = key_of pki s) \<and>
     (\<forall>s. (\<exists>info. server_info pki s = Ret info \<and> Address info \<noteq> [] \<and> CHR '':'' \<in> set (Address info)) \<or> s \<in> set ss \<longrightarrow>
        (\<exists>info. server_info pki' s = Ret info \<and> Address info \<noteq> [] \<and> CHR '':'' \<in> set (Address info)))"
proof (induction ss arbitrary: pki)
  case Nil
  then show ?case by simp
next
  case (Cons s ss)
  from Cons.prems obtain res where res: "check_server s pki = Ret res"
    "(case res of Inl e \<Rightarrow> Ret (Inl e) | Inr pki1 \<Rightarrow> check_servers ss pki1) = Ret (Inr pki')"
    by (auto simp: outcome_simps)
  then obtain pki1 where one: "check_server s pki = Ret (Inr pki1)" and rest: "check_servers ss pki1 = Ret (Inr pki')"
    by (cases res) auto
  have s: "\<exists>info. server_info pki1 s = Ret info \<and> Address info \<noteq> [] \<and> CHR '':'' \<in> set (Address info)"
    and others: "\<forall>t. t \<noteq> s \<longrightarrow> Servers pki1 t = Servers pki t"
    and order: "ServerOrder pki1 = ServerOrder pki" and keys: "\<forall>t. key_of pki1 t = key_of pki t"
    using one by (auto simp: check_server_def JoinHostPort_def key_of_def server_info_def outcome_simps split: option.splits if_splits)
  show ?case
  proof (intro conjI allI impI)
    show "ServerOrder pki' = ServerOrder pki" using Cons.IH [OF rest] order by simp
    show "key_of pki' t = key_of pki t" for t using Cons.IH [OF rest] keys by simp
    fix t
    assume t: "(\<exists>info. server_info pki t = Ret info \<and> Address info \<noteq> [] \<and> CHR '':'' \<in> set (Address info)) \<or> t \<in> set (s # ss)"
    then have "(\<exists>info. server_info pki1 t = Ret info \<and> Address info \<noteq> [] \<and> CHR '':'' \<in> set (Address info)) \<or> t \<in> set ss"
      using s others by (cases "t = s") (auto simp: server_info_def)
    then show "\<exists>info. server_info pki' t = Ret info \<and> Address info \<noteq> [] \<and> CHR '':'' \<in> set (Address info)"
      using Cons.IH [OF rest] by blast
  qed
qed

lemma ReadPKI_accepts:
  assumes "ReadPKI pki = Ret (Inr pki')"
  shows "pki_ok pki'" "ServerOrder pki' = ServerOrder pki" "\<forall>s. key_of pki' s = key_of pki s"
proof -
  have run: "check_servers (ServerOrder pki) pki = Ret (Inr pki')" and ne: "ServerOrder pki \<noteq> []"
    using assms by (auto simp: ReadPKI_def split: if_splits)
  show "pki_ok pki'" "ServerOrder pki' = ServerOrder pki" "\<forall>s. key_of pki' s = key_of pki s"
    using check_servers_ok [OF run] ne by (auto simp: pki_ok_def)
qed

section \<open>Properties\<close>

text \<open>
  C27: a directory that \<open>ReadPKI\<close> accepts keeps its order and keys, lists only servers that exist
  with an address that names a port, and none of the lookups panics on it, whatever name is asked
  for.
\<close>

theorem ReadPKI_ok:
  assumes "ReadPKI pki = Ret (Inr pki')"
  shows "pki_ok pki' \<and> ServerOrder pki' = ServerOrder pki \<and> (\<forall>s. key_of pki' s = key_of pki s)
    \<and> FirstServer pki' \<noteq> Panic \<and> PKI_LastServer pki' \<noteq> Panic \<and> ServerKeys pki' \<noteq> Panic
    \<and> NextServer pki' name \<noteq> Panic \<and> NextServerKeys pki' name \<noteq> Panic"
proof -
  note ok = ReadPKI_accepts [OF assms]
  have info: "\<exists>info. server_info pki' (ServerOrder pki' ! i) = Ret info" if "i < length (ServerOrder pki')" for i
    using ok(1) nth_mem [OF that] by (fastforce simp: pki_ok_def)
  have pos: "0 < length (ServerOrder pki')" using ok(1) by (simp add: pki_ok_def)
  have "FirstServer pki' \<noteq> Panic" using info [OF pos] pos by (auto simp: FirstServer_def)
  moreover have "PKI_LastServer pki' \<noteq> Panic"
    using info [of "length (ServerOrder pki') - 1"] pos by (auto simp: PKI_LastServer_def)
  moreover have "NextServer pki' name \<noteq> Panic"
    using info [of "Index pki' name + 1"] by (auto simp: NextServer_def Let_def)
  ultimately show ?thesis
    using ok ServerKeys_ok [OF ok(1)] NextServerKeys_ok [OF ok(1), of name] by simp
qed

definition sample_pki :: PKI where
  "sample_pki =
     \<lparr>People = Map.empty,
      Servers = [''a'' \<mapsto> Some \<lparr>Address = ''localhost'', PublicKey = Some (replicate 32 1)\<rparr>,
                 ''b'' \<mapsto> Some \<lparr>Address = ''localhost:2719'', PublicKey = Some (replicate 32 2)\<rparr>],
      ServerOrder = [''a'', ''b''], EntryServer = ''ws://localhost:8080''\<rparr>"

theorem ReadPKI_ok_witness:
  "\<exists>pki'. ReadPKI sample_pki = Ret (Inr pki') \<and> pki_ok pki' \<and> NextServer pki' ''nobody'' \<noteq> Panic"
proof -
  obtain pki' where "ReadPKI sample_pki = Ret (Inr pki')"
    by (simp add: ReadPKI_def sample_pki_def check_server_def JoinHostPort_def)
  with ReadPKI_ok [OF this, of "''nobody''"] show ?thesis by blast
qed

text \<open>
  The position of a server in the order determines what it expects and what it adds.  Server
  \<open>i\<close> of \<open>n\<close> expects onions with \<open>n - i\<close> layers, its onions for the next server use exactly the keys
  of the servers after it, so noise sealed with them has the next server's incoming size, and only
  the last one has no next server.
\<close>

theorem server_position:
  assumes "pki_ok pki" "distinct (ServerOrder pki)" "i < length (ServerOrder pki)"
  shows "IncomingOnionOverhead N pki (ServerOrder pki ! i) = (length (ServerOrder pki) - i) * onionbox_Overhead N
    \<and> OutgoingOnionOverhead N pki (ServerOrder pki ! i) = (length (ServerOrder pki) - i) * box_Overhead N
    \<and> NextServerKeys pki (ServerOrder pki ! i) = Ret (drop (i + 1) (map (key_of pki) (ServerOrder pki)))
    \<and> (NextServer pki (ServerOrder pki ! i) = Ret [] \<longleftrightarrow> i + 1 = length (ServerOrder pki))
    \<and> (i + 1 < length (ServerOrder pki) \<longrightarrow>
        length (drop (i + 1) (map (key_of pki) (ServerOrder pki))) * onionbox_Overhead N =
        IncomingOnionOverhead N pki (ServerOrder pki ! (i + 1)))"
proof -
  have i: "Index pki (ServerOrder pki ! i) = i" by (rule Index_found [OF assms(2,3)])
  have nxt: "NextServer pki (ServerOrder pki ! i) = Ret [] \<longleftrightarrow> i + 1 = length (ServerOrder pki)"
  proof (cases "i + 1 < length (ServerOrder pki)")
    case True
    then obtain info where "server_info pki (ServerOrder pki ! (i + 1)) = Ret info" "Address info \<noteq> []"
      using assms(1) nth_mem [OF True] by (fastforce simp: pki_ok_def)
    with True show ?thesis by (simp add: NextServer_def i)
  qed (use assms(3) in \<open>auto simp: NextServer_def i\<close>)
  show ?thesis
    using NextServerKeys_ok [OF assms(1)] Index_found [OF assms(2), of "i + 1"] nxt
    by (simp add: IncomingOnionOverhead_def OutgoingOnionOverhead_def i drop_map)
qed

theorem server_position_witness:
  "\<exists>pki. IncomingOnionOverhead clear_box pki ''a'' = 96 \<and> NextServerKeys pki ''a'' = Ret [Some (replicate 32 2)]"
proof -
  let ?pki = "sample_pki\<lparr>Servers := (Servers sample_pki)(''a'' \<mapsto> Some \<lparr>Address = ''localhost:2718'', PublicKey = Some (replicate 32 1)\<rparr>)\<rparr>"
  have "pki_ok ?pki" "distinct (ServerOrder ?pki)" "0 < length (ServerOrder ?pki)"
    by (simp_all add: pki_ok_def sample_pki_def server_info_def)
  from server_position [OF this, of clear_box] show ?thesis
    by (intro exI [of _ ?pki]) (simp add: sample_pki_def key_of_def wire_simps clear_box_ok)
qed

text \<open>
  C28: a name that is not in the order is treated as the last server: it has no next server, it
  seals for nobody and it expects onions with one layer.
\<close>

theorem unknown_server_is_last:
  assumes "pki_ok pki" "name \<notin> set (ServerOrder pki)"
  shows "NextServer pki name = Ret [] \<and> NextServerKeys pki name = Ret []
    \<and> IncomingOnionOverhead N pki name = onionbox_Overhead N"
proof -
  have "Index pki name = length (ServerOrder pki) - 1" "ServerOrder pki \<noteq> []"
    using Index_missing [OF assms(2)] assms(1) by (auto simp: pki_ok_def)
  then show ?thesis
    using NextServerKeys_ok [OF assms(1), of name]
    by (cases "ServerOrder pki") (auto simp: NextServer_def IncomingOnionOverhead_def)
qed

theorem unknown_server_is_last_witness:
  "\<exists>pki. pki_ok pki \<and> length (ServerOrder pki) = 2 \<and> NextServer pki ''locl-first'' = Ret []"
proof -
  let ?pki = "sample_pki\<lparr>Servers := (Servers sample_pki)(''a'' \<mapsto> Some \<lparr>Address = ''localhost:2718'', PublicKey = Some (replicate 32 1)\<rparr>)\<rparr>"
  have ok: "pki_ok ?pki" "''locl-first'' \<notin> set (ServerOrder ?pki)"
    by (simp_all add: pki_ok_def sample_pki_def server_info_def)
  with unknown_server_is_last [OF this] show ?thesis
    by (intro exI [of _ ?pki]) (simp add: sample_pki_def)
qed

end
