(* ===== verification/Laplace.thy ===== *)
theory Laplace
  imports Prelude Complex_Main "HOL-Library.Monad_Syntax"
begin

text \<open>
  The noise distribution, \<^verbatim>\<open>laplace.go\<close>.  A float64 is a real or one of the three special values.
  Rounding is a parameter, the record \<open>F\<close> of the rounding function and of \<^verbatim>\<open>math.Log\<close> on positive
  arguments; the theorems state what they need of it (that small powers of two are exact), which
  IEEE 754 guarantees.  \<open>int_of_float\<close> is the conversion \<^verbatim>\<open>int(x)\<close> as amd64 performs it: Go leaves the
  result for values outside the range to the implementation, which gives the least 64-bit integer.
\<close>

datatype go_float = Fin real | PInf | NInf | NaN

record float64 =
  fl :: "real \<Rightarrow> real"
  fl_Log :: "real \<Rightarrow> real"

definition math_Log :: "float64 \<Rightarrow> real \<Rightarrow> go_float" where
  "math_Log F y = (if y = 0 then NInf else if y < 0 then NaN else Fin (fl_Log F y))"

fun fmul :: "float64 \<Rightarrow> real \<Rightarrow> go_float \<Rightarrow> go_float" where
  "fmul F c (Fin z) = Fin (fl F (c * z))"
| "fmul F c PInf = (if c = 0 then NaN else if c < 0 then NInf else PInf)"
| "fmul F c NInf = (if c = 0 then NaN else if c < 0 then PInf else NInf)"
| "fmul F c NaN = NaN"

fun fsub :: "float64 \<Rightarrow> real \<Rightarrow> go_float \<Rightarrow> go_float" where
  "fsub F c (Fin z) = Fin (fl F (c - z))"
| "fsub F c PInf = NInf"
| "fsub F c NInf = PInf"
| "fsub F c NaN = NaN"

fun negative :: "go_float \<Rightarrow> bool" where
  "negative (Fin z) \<longleftrightarrow> z < 0"
| "negative NInf \<longleftrightarrow> True"
| "negative _ \<longleftrightarrow> False"

definition min_int :: int where
  "min_int = - (2 ^ 63)"

fun int_of_float :: "go_float \<Rightarrow> int" where
  "int_of_float (Fin z) =
     (let i = (if z < 0 then \<lceil>z\<rceil> else \<lfloor>z\<rfloor>) in if min_int \<le> i \<and> i < 2 ^ 63 then i else min_int)"
| "int_of_float _ = min_int"

section \<open>The code\<close>

definition laplace_of :: "float64 \<Rightarrow> real \<Rightarrow> real \<Rightarrow> u64 \<Rightarrow> go_float" where
  "laplace_of F mu b x =
     (let u = fl F (fl F (fl F (real (unat x)) / fl F (2 ^ 64 - 1)) - 1 / 2);
          (absu, sgn1) = (if u < 0 then (- u, - 1) else (u, 1))
      in fsub F mu (fmul F (fl F (b * sgn1)) (math_Log F (fl F (1 - fl F (2 * absu))))))"

definition laplace :: "float64 \<Rightarrow> real \<Rightarrow> real \<Rightarrow> rng \<Rightarrow> go_float \<times> rng" where
  "laplace F mu b r = (let (bs, r) = rread 8 r in (laplace_of F mu b (Uint64 bs), r))"

partial_function (option) cappedFlooredLaplace :: "float64 \<Rightarrow> real \<Rightarrow> real \<Rightarrow> rng \<Rightarrow> (int \<times> rng) option" where
  "cappedFlooredLaplace F mu b r =
     (let (x, r) = laplace F mu b r
      in if negative x then cappedFlooredLaplace F mu b r else Some (int_of_float x, r))"

section \<open>The rejection loop\<close>

text \<open>The \<open>k\<close>-th draw, counted from 0, of the stream \<open>r\<close>.\<close>

definition draw :: "rng \<Rightarrow> nat \<Rightarrow> u64" where
  "draw r k = Uint64 (map r [8 * k..<8 * k + 8])"

lemma laplace_draw: "laplace F mu b r = (laplace_of F mu b (draw r 0), \<lambda>i. r (i + 8))"
  by (simp add: laplace_def rread_def draw_def)

lemma draw_shift: "draw (\<lambda>i. r (i + 8)) k = draw r (Suc k)"
proof -
  have "map (\<lambda>i. r (i + 8)) [8 * k..<8 * k + 8] = map r (map (\<lambda>i. i + 8) [8 * k..<8 * k + 8])"
    by (simp only: map_map o_def)
  also have "map (\<lambda>i. i + 8) [8 * k..<8 * k + 8] = [8 * k + 8..<8 * k + 8 + 8]"
    by (rule nth_equalityI) simp_all
  finally show ?thesis by (simp add: draw_def add.commute)
qed

lemma cappedFlooredLaplace_finds:
  assumes "\<not> negative (laplace_of F mu b (draw r k))" "\<forall>j < k. negative (laplace_of F mu b (draw r j))"
  shows "cappedFlooredLaplace F mu b r = Some (int_of_float (laplace_of F mu b (draw r k)), \<lambda>i. r (i + 8 * Suc k))"
  using assms
proof (induction k arbitrary: r)
  case 0
  then show ?case by (subst cappedFlooredLaplace.simps) (simp add: laplace_draw)
next
  case (Suc k)
  have "cappedFlooredLaplace F mu b (\<lambda>i. r (i + 8)) =
      Some (int_of_float (laplace_of F mu b (draw r (Suc k))), \<lambda>i. r (i + 8 * Suc k + 8))"
    using Suc.IH [of "\<lambda>i. r (i + 8)"] Suc.prems by (simp add: draw_shift)
  moreover have "negative (laplace_of F mu b (draw r 0))" using Suc.prems(2) by simp
  ultimately show ?case
    by (subst cappedFlooredLaplace.simps) (simp add: laplace_draw add.commute add.left_commute)
qed

text \<open>A result is that of some draw; when every draw is negative there is none.\<close>

lemma cappedFlooredLaplace_Some:
  assumes "cappedFlooredLaplace F mu b r = Some (n, r')"
  shows "\<exists>k. \<not> negative (laplace_of F mu b (draw r k)) \<and> n = int_of_float (laplace_of F mu b (draw r k))"
proof -
  have "\<exists>k. \<not> negative (laplace_of F mu b (draw r k)) \<and> fst (n, r') = int_of_float (laplace_of F mu b (draw r k))"
    using assms
  proof (rule cappedFlooredLaplace.raw_induct [rotated, of F mu b r "(n, r')"
        "\<lambda>F mu b r y. \<exists>k. \<not> negative (laplace_of F mu b (draw r k)) \<and> fst y = int_of_float (laplace_of F mu b (draw r k))"])
    fix rec :: "float64 \<Rightarrow> real \<Rightarrow> real \<Rightarrow> rng \<Rightarrow> (int \<times> rng) option" and F mu b r y
    assume ih: "\<And>F mu b r y. rec F mu b r = Some y \<Longrightarrow>
        \<exists>k. \<not> negative (laplace_of F mu b (draw r k)) \<and> fst y = int_of_float (laplace_of F mu b (draw r k))"
      and run: "(let (x, r) = laplace F mu b r in if negative x then rec F mu b r else Some (int_of_float x, r)) = Some y"
    show "\<exists>k. \<not> negative (laplace_of F mu b (draw r k)) \<and> fst y = int_of_float (laplace_of F mu b (draw r k))"
    proof (cases "negative (laplace_of F mu b (draw r 0))")
      case True
      then have "rec F mu b (\<lambda>i. r (i + 8)) = Some y" using run by (simp add: laplace_draw)
      from ih [OF this] show ?thesis by (auto simp: draw_shift)
    next
      case False
      with run show ?thesis by (auto simp: laplace_draw)
    qed
  qed
  then show ?thesis by simp
qed

lemma int_of_float_nonneg: "\<not> negative x \<Longrightarrow> 0 \<le> int_of_float x \<or> int_of_float x = min_int"
  by (cases x) (auto simp: Let_def)

lemma int_of_float_range: "min_int \<le> int_of_float x \<and> int_of_float x < 2 ^ 63"
  by (cases x) (auto simp: Let_def min_int_def)

lemma cappedFlooredLaplace_range:
  "cappedFlooredLaplace F mu b r = Some (n, r') \<Longrightarrow> (0 \<le> n \<or> n = min_int) \<and> n < 2 ^ 63"
  using cappedFlooredLaplace_Some int_of_float_nonneg int_of_float_range by blast

text \<open>With scale 0, every draw but the two extreme ones gives the mean.\<close>

lemma laplace_of_scale0:
  assumes "fl F = id" "x \<noteq> 0" "x \<noteq> - 1"
  shows "laplace_of F mu 0 x = Fin mu"
proof -
  have pos: "0 < unat x" using assms(2) by (simp add: unat_gt_0)
  have "unat x \<noteq> unat (- 1 :: u64)" using assms(3) by (metis unsigned_word_eqI)
  moreover have max: "unat (- 1 :: u64) = 2 ^ 64 - 1"
    by (simp add: unsigned_minus_1_eq_mask mask_eq_exp_minus_1)
  moreover have "unat x < 2 ^ 64" using unsigned_less [of x, where ?'a = nat] by simp
  ultimately have "unat x < 2 ^ 64 - 1" by simp
  define y where "y = real (unat x)"
  have "y < real (2 ^ 64 - 1)"
    unfolding y_def of_nat_less_iff by fact
  moreover have "real (2 ^ 64 - 1) = 2 ^ 64 - 1" by simp
  moreover have "0 < y" using pos unfolding y_def by linarith
  ultimately have "0 < y" "y < 2 ^ 64 - 1" by linarith+
  then show ?thesis
    unfolding laplace_of_def y_def [symmetric]
    by (auto simp: assms(1) math_Log_def Let_def field_simps)
qed

section \<open>Properties\<close>

text \<open>
  A noise count is the first draw that is not negative, rounded down, and the loop returns
  as soon as the stream has such a draw; every result is non-negative, unless the conversion
  of an infinite or out-of-range sample gave the least integer.
\<close>

theorem cappedFlooredLaplace_ok:
  assumes "\<not> negative (laplace_of F mu b (draw r k))"
  shows "\<exists>j n r'. j \<le> k \<and> (\<forall>i < j. negative (laplace_of F mu b (draw r i)))
    \<and> cappedFlooredLaplace F mu b r = Some (n, r')
    \<and> n = int_of_float (laplace_of F mu b (draw r j)) \<and> r' = (\<lambda>i. r (i + 8 * Suc j))
    \<and> (0 \<le> n \<or> n = min_int)
    \<and> (\<forall>z. laplace_of F mu b (draw r j) = Fin z \<longrightarrow> z < 2 ^ 63 \<longrightarrow> n = \<lfloor>z\<rfloor>)"
proof -
  define j where "j = (LEAST j. \<not> negative (laplace_of F mu b (draw r j)))"
  have j: "\<not> negative (laplace_of F mu b (draw r j))" "j \<le> k" "\<forall>i < j. negative (laplace_of F mu b (draw r i))"
    unfolding j_def
    using assms LeastI [of "\<lambda>j. \<not> negative (laplace_of F mu b (draw r j))" k]
      Least_le [of "\<lambda>j. \<not> negative (laplace_of F mu b (draw r j))" k]
      not_less_Least [of _ "\<lambda>j. \<not> negative (laplace_of F mu b (draw r j))"] by blast+
  have "int_of_float (Fin z) = \<lfloor>z\<rfloor>" if "0 \<le> z" "z < 2 ^ 63" for z
  proof -
    have "0 \<le> \<lfloor>z\<rfloor>" "\<lfloor>z\<rfloor> < 2 ^ 63" using that by (simp_all add: floor_less_iff)
    with that show ?thesis by (simp add: Let_def min_int_def)
  qed
  then have "\<forall>z. laplace_of F mu b (draw r j) = Fin z \<longrightarrow> z < 2 ^ 63 \<longrightarrow>
      int_of_float (laplace_of F mu b (draw r j)) = \<lfloor>z\<rfloor>"
    using j(1) by auto
  then show ?thesis
    using j int_of_float_nonneg [OF j(1)] cappedFlooredLaplace_finds [OF j(1,3)] by blast
qed

definition exact_float64 :: float64 where
  "exact_float64 = \<lparr>fl = id, fl_Log = ln\<rparr>"

lemma draw_ones: "draw (\<lambda>_. 1) k = 0x0101010101010101"
proof -
  have "map (\<lambda>_. 1 :: byte) [8 * k..<8 * k + 8] = replicate 8 1"
    by (simp add: map_replicate_const)
  then show ?thesis unfolding draw_def by (simp only:) (code_simp)
qed

lemma laplace_of_ones: "laplace_of exact_float64 mu 0 (draw (\<lambda>_. 1) k) = Fin mu"
  unfolding draw_ones by (rule laplace_of_scale0) (simp_all add: exact_float64_def)

theorem cappedFlooredLaplace_ok_witness:
  "\<exists>r'. cappedFlooredLaplace exact_float64 5 0 (\<lambda>_. 1) = Some (5, r')"
proof -
  have "\<not> negative (laplace_of exact_float64 5 0 (draw (\<lambda>_. 1) 0))" by (simp add: laplace_of_ones)
  from cappedFlooredLaplace_ok [OF this] show ?thesis by (auto simp: laplace_of_ones)
qed

text \<open>
  C29: the extreme draw, all bits one, makes the sample infinite for every mean and every
  positive scale, since the logarithm is taken at 0; the count is then the least integer.
\<close>

theorem laplace_extreme_draw:
  assumes "fl F 0 = 0" "fl F 1 = 1" "fl F (1 / 2) = 1 / 2" "0 < fl F (2 ^ 64 - 1)"
    and "fl F b = b" "0 < b" "draw r 0 = - 1"
  shows "laplace F mu b r = (PInf, \<lambda>i. r (i + 8)) \<and> cappedFlooredLaplace F mu b r = Some (min_int, \<lambda>i. r (i + 8))"
proof -
  have max: "real (unat (- 1 :: u64)) = 2 ^ 64 - 1"
    by (simp add: unsigned_minus_1_eq_mask mask_eq_exp_minus_1)
  have "2 * fl F (1 / 2) = 1" using assms(3) by simp
  then have "laplace_of F mu b (- 1) = PInf"
    using assms(1,2,4-6) unfolding laplace_of_def max by (simp add: assms(3) math_Log_def Let_def)
  then show ?thesis
    using cappedFlooredLaplace_finds [of F mu b r 0] assms(7) by (simp add: laplace_draw)
qed

theorem laplace_extreme_draw_witness:
  "laplace exact_float64 300000 13800 (\<lambda>_. - 1) = (PInf, \<lambda>_. - 1)
    \<and> cappedFlooredLaplace exact_float64 300000 13800 (\<lambda>_. - 1) = Some (min_int, \<lambda>_. - 1)"
proof -
  have "draw (\<lambda>_. - 1) 0 = - 1" by code_simp
  from laplace_extreme_draw [of exact_float64 13800 "\<lambda>_. - 1" 300000, OF _ _ _ _ _ _ this]
  show ?thesis by (simp add: exact_float64_def)
qed

end
