(* ===== verification/Noise.thy ===== *)
theory Noise
  imports Onionbox
begin

text \<open>
  Cover traffic, \<^verbatim>\<open>noise.go\<close>.  Each function fills a slice of onions with a \<^verbatim>\<open>ParallelFor\<close> whose
  iterations write disjoint slots; the iterations are run here in index order over the shared
  stream of random bytes, and the theorems hold for every stream.  A slot is an \<open>option\<close>, \<open>None\<close>
  being the nil it holds after \<^verbatim>\<open>make\<close>.
\<close>

section \<open>The code\<close>

definition fake_single :: "nacl \<Rightarrow> bytes \<Rightarrow> bytes option list \<Rightarrow> nat \<Rightarrow> rng \<Rightarrow> (bytes \<times> rng) outcome" where
  "fake_single N nonce nextKeys i r =
     (let (exchange, r) = rread (SizeConvoExchange N) r
      in obind (Onion_Seal N exchange nonce nextKeys r) (\<lambda>((onion, _), r). Ret (onion, r)))"

definition FillWithFakeSingles ::
  "nacl \<Rightarrow> bytes option list \<Rightarrow> bytes \<Rightarrow> bytes option list \<Rightarrow> rng \<Rightarrow> (bytes option list \<times> rng) outcome" where
  "FillWithFakeSingles N dest nonce nextKeys r =
     obind (omap (fake_single N nonce nextKeys) [0..<length dest] r) (\<lambda>(onions, r). Ret (map Some onions, r))"

definition fake_double :: "nacl \<Rightarrow> bytes \<Rightarrow> bytes option list \<Rightarrow> nat \<Rightarrow> rng \<Rightarrow> ((bytes \<times> bytes) \<times> rng) outcome" where
  "fake_double N nonce nextKeys i r =
     (let (exchange1, r) = rread (SizeConvoExchange N) r;
          exchange2 = copy_into (replicate 16 0) (slice 0 16 exchange1);
          (rest, r) = rread (SizeConvoExchange N - 16) r
      in obind (Onion_Seal N exchange1 nonce nextKeys r) (\<lambda>((onion1, _), r).
         obind (Onion_Seal N (exchange2 @ rest) nonce nextKeys r) (\<lambda>((onion2, _), r).
         Ret ((onion1, onion2), r))))"

definition FillWithFakeDoubles ::
  "nacl \<Rightarrow> bytes option list \<Rightarrow> bytes \<Rightarrow> bytes option list \<Rightarrow> rng \<Rightarrow> (bytes option list \<times> rng) outcome" where
  "FillWithFakeDoubles N dest nonce nextKeys r =
     obind (omap (fake_double N nonce nextKeys) [0..<length dest div 2] r) (\<lambda>(pairs, r).
       Ret (concat (map (\<lambda>(onion1, onion2). [Some onion1, Some onion2]) pairs) @ drop (2 * (length dest div 2)) dest, r))"

text \<open>The values the two nested loops write to \<^verbatim>\<open>buckets\<close>, in order, from bucket \<open>b\<close> on.\<close>

primrec noise_buckets :: "nat \<Rightarrow> int list \<Rightarrow> nat list" where
  "noise_buckets b [] = []"
| "noise_buckets b (count # noiseCounts) = replicate (nat count) b @ noise_buckets (b + 1) noiseCounts"

definition fake_introduction ::
  "nacl \<Rightarrow> bytes \<Rightarrow> bytes option list \<Rightarrow> nat \<Rightarrow> rng \<Rightarrow> (bytes \<times> rng) outcome" where
  "fake_introduction N nonce nextKeys bucket r =
     (let (rest, r) = rread (SizeDialExchange N - 4) r
      in obind (Onion_Seal N (PutUint32 (of_nat bucket) @ rest) nonce nextKeys r) (\<lambda>((onion, _), r). Ret (onion, r)))"

definition FillWithFakeIntroductions ::
  "nacl \<Rightarrow> bytes option list \<Rightarrow> int list \<Rightarrow> bytes \<Rightarrow> bytes option list \<Rightarrow> rng \<Rightarrow> (bytes option list \<times> rng) outcome" where
  "FillWithFakeIntroductions N dest noiseCounts nonce nextKeys r =
     (if length (noise_buckets 0 noiseCounts) > length dest then Panic
      else let buckets = copy_into (replicate (length dest) 0) (noise_buckets 0 noiseCounts)
        in obind (omap (fake_introduction N nonce nextKeys) buckets r) (\<lambda>(onions, r). Ret (map Some onions, r)))"

section \<open>The onions the loops produce\<close>

text \<open>
  \<open>carries N nonce sks onion msg\<close>: the servers with private keys \<open>sks\<close>, each taking its layer off,
  find \<open>msg\<close>.
\<close>

definition carries :: "nacl \<Rightarrow> bytes \<Rightarrow> bytes list \<Rightarrow> bytes \<Rightarrow> bytes \<Rightarrow> bool" where
  "carries N nonce sks onion msg \<longleftrightarrow> map_option fst (unwrap_all N nonce sks onion) = Some msg"

lemma Onion_Seal_carries:
  "nacl_ok N \<Longrightarrow> Onion_Seal N msg nonce (public_keys N sks) r = Ret ((onion, ks), r') \<Longrightarrow> carries N nonce sks onion msg"
  by (simp add: carries_def Onion_Seal_unwrap)

lemma fake_single_total:
  assumes "nacl_ok N" "None \<notin> set pks"
  shows "\<exists>onion r'. fake_single N nonce pks i r = Ret (onion, r')"
  using Onion_Seal_total [OF assms, of "fst (rread (SizeConvoExchange N) r)" nonce "snd (rread (SizeConvoExchange N) r)"]
  by (auto simp: fake_single_def split: prod.splits)

lemma fake_single_size:
  assumes "nacl_ok N" "fake_single N nonce pks i r = Ret (onion, r')"
  shows "length onion = SizeConvoExchange N + length pks * 48"
  using assms(2) Onion_Seal_Ret_length(2) [OF assms(1)]
  by (auto simp: fake_single_def outcome_simps rread_lenD split: prod.splits)

lemma fake_double_total:
  assumes "nacl_ok N" "None \<notin> set pks"
  shows "\<exists>pair r'. fake_double N nonce pks i r = Ret (pair, r')"
proof -
  obtain e1 r1 where e1: "rread (SizeConvoExchange N) r = (e1, r1)" by fastforce
  obtain e2 r2 where e2: "rread (SizeConvoExchange N - 16) r1 = (e2, r2)" by fastforce
  obtain o1 k1 r3 where o1: "Onion_Seal N e1 nonce pks r2 = Ret ((o1, k1), r3)"
    using Onion_Seal_total [OF assms] by blast
  obtain o2 k2 r4 where "Onion_Seal N (copy_into (replicate 16 0) (slice 0 16 e1) @ e2) nonce pks r3 = Ret ((o2, k2), r4)"
    using Onion_Seal_total [OF assms] by blast
  then show ?thesis by (simp add: fake_double_def e1 e2 o1)
qed

lemma fake_double_pair:
  assumes N: "nacl_ok N" and run: "fake_double N nonce (public_keys N sks) i r = Ret ((onion1, onion2), r')"
  shows "\<exists>e1 e2. carries N nonce sks onion1 e1 \<and> carries N nonce sks onion2 e2
    \<and> length e1 = SizeConvoExchange N \<and> length e2 = SizeConvoExchange N \<and> take 16 e1 = take 16 e2"
proof -
  obtain e1 r1 where e1: "rread (SizeConvoExchange N) r = (e1, r1)" by fastforce
  obtain e2 r2 where e2: "rread (SizeConvoExchange N - 16) r1 = (e2, r2)" by fastforce
  have len: "length e1 = SizeConvoExchange N" "length e2 = SizeConvoExchange N - 16" "16 \<le> SizeConvoExchange N"
    using rread_lenD [OF e1] rread_lenD [OF e2] by (simp_all add: SizeConvoExchange_eq [OF N])
  then have pre: "copy_into (replicate 16 0) (slice 0 16 e1) = take 16 e1"
    by (simp add: slice_def)
  obtain k1 r3 k2 where "Onion_Seal N e1 nonce (public_keys N sks) r2 = Ret ((onion1, k1), r3)"
    and "Onion_Seal N (take 16 e1 @ e2) nonce (public_keys N sks) r3 = Ret ((onion2, k2), r')"
    using run by (auto simp: fake_double_def e1 e2 pre outcome_simps)
  then have "carries N nonce sks onion1 e1" "carries N nonce sks onion2 (take 16 e1 @ e2)"
    using Onion_Seal_carries [OF N] by blast+
  with len show ?thesis by (intro exI [of _ e1] exI [of _ "take 16 e1 @ e2"]) simp
qed

lemma fake_double_size:
  assumes "nacl_ok N" "fake_double N nonce pks i r = Ret (pair, r')"
  shows "length (fst pair) = SizeConvoExchange N + length pks * 48 \<and> length (snd pair) = SizeConvoExchange N + length pks * 48"
  using assms(2) Onion_Seal_Ret_length(2) [OF assms(1)]
  by (auto simp: fake_double_def outcome_simps rread_lenD SizeConvoExchange_eq [OF assms(1)] slice_def split: prod.splits)

lemma fake_introduction_total:
  assumes "nacl_ok N" "None \<notin> set pks"
  shows "\<exists>onion r'. fake_introduction N nonce pks b r = Ret (onion, r')"
proof -
  obtain e r1 where e: "rread (SizeDialExchange N - 4) r = (e, r1)" by fastforce
  obtain o1 k1 r2 where "Onion_Seal N (PutUint32 (of_nat b) @ e) nonce pks r1 = Ret ((o1, k1), r2)"
    using Onion_Seal_total [OF assms] by blast
  then show ?thesis by (simp add: fake_introduction_def e)
qed

lemma fake_introduction_carries:
  assumes "nacl_ok N" "fake_introduction N nonce (public_keys N sks) b r = Ret (onion, r')"
  shows "\<exists>e. carries N nonce sks onion e \<and> length e = SizeDialExchange N \<and> take 4 e = PutUint32 (of_nat b)"
proof -
  obtain e r1 where e: "rread (SizeDialExchange N - 4) r = (e, r1)" by fastforce
  obtain k where "Onion_Seal N (PutUint32 (of_nat b) @ e) nonce (public_keys N sks) r1 = Ret ((onion, k), r')"
    using assms(2) by (auto simp: fake_introduction_def e outcome_simps)
  then have "carries N nonce sks onion (PutUint32 (of_nat b) @ e)"
    by (rule Onion_Seal_carries [OF assms(1)])
  moreover have "length (PutUint32 (of_nat b) @ e) = SizeDialExchange N"
    using rread_lenD [OF e] by (simp add: wire_simps SizeDialExchange_eq [OF assms(1)])
  ultimately show ?thesis by (intro exI [of _ "PutUint32 (of_nat b) @ e"]) (simp add: wire_simps)
qed

lemma pairs_nth:
  "i < length ps \<Longrightarrow> concat (map (\<lambda>(a, b). [f a, f b]) ps) ! (2 * i) = f (fst (ps ! i))
     \<and> concat (map (\<lambda>(a, b). [f a, f b]) ps) ! (2 * i + 1) = f (snd (ps ! i))"
proof (induction ps arbitrary: i)
  case (Cons p ps)
  then show ?case by (cases i) (auto split: prod.splits)
qed simp

lemma length_pairs: "length (concat (map (\<lambda>(a, b). [f a, f b]) ps)) = 2 * length ps"
  by (induction ps) auto

lemma length_noise_buckets: "length (noise_buckets b counts) = (\<Sum>c\<leftarrow>counts. nat c)"
  by (induction counts arbitrary: b) auto

lemma noise_buckets_ge: "x \<in> set (noise_buckets b counts) \<Longrightarrow> b \<le> x \<and> x < b + length counts"
  by (induction counts arbitrary: b) (auto split: if_splits, fastforce+)

lemma noise_buckets_count:
  "i < length counts \<Longrightarrow> length (filter (\<lambda>x. x = b + i) (noise_buckets b counts)) = nat (counts ! i)"
proof (induction counts arbitrary: b i)
  case (Cons c counts)
  show ?case
  proof (cases i)
    case 0
    have "filter (\<lambda>x. x = b) (noise_buckets (b + 1) counts) = []"
      using noise_buckets_ge [of b "b + 1" counts] by (auto simp: filter_empty_conv)
    with 0 show ?thesis by simp
  next
    case (Suc j)
    then show ?thesis using Cons.IH [of j "b + 1"] Cons.prems by simp
  qed
qed simp

lemma introductions_exchanges:
  assumes N: "nacl_ok N"
  shows "omap (fake_introduction N nonce (public_keys N sks)) bs r = Ret (onions, r') \<Longrightarrow>
    \<exists>es. list_all2 (carries N nonce sks) onions es \<and> (\<forall>e \<in> set es. length e = SizeDialExchange N)
      \<and> map Uint32 es = map of_nat bs"
proof (induction bs arbitrary: r onions)
  case Nil
  then show ?case by simp
next
  case (Cons b bs)
  from Cons.prems obtain onion r1 onions1 where one: "fake_introduction N nonce (public_keys N sks) b r = Ret (onion, r1)"
    and rest: "omap (fake_introduction N nonce (public_keys N sks)) bs r1 = Ret (onions1, r')"
    and onions: "onions = onion # onions1"
    by (auto simp: outcome_simps)
  obtain e where e: "carries N nonce sks onion e" "length e = SizeDialExchange N" "take 4 e = PutUint32 (of_nat b)"
    using fake_introduction_carries [OF N one] by blast
  obtain es where es: "list_all2 (carries N nonce sks) onions1 es" "\<forall>e \<in> set es. length e = SizeDialExchange N"
      "map Uint32 es = map of_nat bs"
    using Cons.IH [OF rest] by blast
  have "Uint32 e = of_nat b"
    using Uint32_PutUint32 [of "of_nat b" "[]"] e(3) by (simp add: Uint32_def)
  then show ?case using e es by (intro exI [of _ "e # es"]) (simp add: onions)
qed

lemma filter_image_length:
  assumes "map f xs = map g ys"
  shows "length (filter (\<lambda>x. f x = c) xs) = length (filter (\<lambda>y. g y = c) ys)"
proof -
  have "length (filter (\<lambda>x. f x = c) xs) = length (filter (\<lambda>z. z = c) (map f xs))"
    by (simp only: filter_map length_map o_def)
  also have "\<dots> = length (filter (\<lambda>y. g y = c) ys)"
    by (simp only: assms filter_map length_map o_def)
  finally show ?thesis .
qed

lemma of_nat_u32_eq: "x < 2 ^ 32 \<Longrightarrow> y < 2 ^ 32 \<Longrightarrow> of_nat x = (of_nat y :: u32) \<longleftrightarrow> x = y"
  by (simp add: word_of_nat_eq_iff take_bit_nat_eq_self)

text \<open>Every slot of a filled slice holds an onion of the right size.\<close>

lemma FillWithFakeSingles_all:
  assumes "nacl_ok N" "FillWithFakeSingles N dest nonce pks r = Ret (onions, r')"
  shows "length onions = length dest \<and> (\<forall>onion \<in> set onions. \<exists>b. onion = Some b \<and> length b = SizeConvoExchange N + length pks * 48)"
proof -
  obtain bs where run: "omap (fake_single N nonce pks) [0..<length dest] r = Ret (bs, r')" and bs: "onions = map Some bs"
    using assms(2) by (auto simp: FillWithFakeSingles_def outcome_simps)
  have "\<forall>b \<in> set bs. length b = SizeConvoExchange N + length pks * 48"
    using run by (rule omap_set) (rule fake_single_size [OF assms(1)])
  then show ?thesis using omap_length [OF run] by (auto simp: bs)
qed

lemma FillWithFakeDoubles_all:
  assumes "nacl_ok N" "FillWithFakeDoubles N dest nonce pks r = Ret (onions, r')" "even (length dest)"
  shows "length onions = length dest \<and> (\<forall>onion \<in> set onions. \<exists>b. onion = Some b \<and> length b = SizeConvoExchange N + length pks * 48)"
proof -
  have half: "2 * (length dest div 2) = length dest" using assms(3) by simp
  obtain ps where run: "omap (fake_double N nonce pks) [0..<length dest div 2] r = Ret (ps, r')"
    and ps: "onions = concat (map (\<lambda>(onion1, onion2). [Some onion1, Some onion2]) ps)"
    using assms(2) unfolding FillWithFakeDoubles_def half by (auto simp: outcome_simps)
  have all: "\<forall>p \<in> set ps. length (fst p) = SizeConvoExchange N + length pks * 48 \<and> length (snd p) = SizeConvoExchange N + length pks * 48"
    using run by (rule omap_set) (rule fake_double_size [OF assms(1)])
  have len: "length ps = length dest div 2" using omap_length [OF run] by simp
  have "length onions = length dest" using length_pairs [of Some ps] len half by (simp add: ps)
  with all show ?thesis by (fastforce simp: ps)
qed

section \<open>Properties\<close>

text \<open>
  C25: the conversation noise of a server is as long as the traffic it hides in: when every key is
  present, both functions return, keep the number of slots, fill every slot (but the odd last one of
  the doubles, which keeps what it held) and give each onion the size of an exchange with one layer
  per key.
\<close>

theorem noise_sizes:
  assumes "nacl_ok N" "None \<notin> set nextKeys"
  shows "\<exists>singles doubles r1 r2. FillWithFakeSingles N dest nonce nextKeys r = Ret (singles, r1)
    \<and> FillWithFakeDoubles N dest nonce nextKeys r = Ret (doubles, r2)
    \<and> length singles = length dest \<and> length doubles = length dest
    \<and> (\<forall>i < length dest. \<exists>onion. singles ! i = Some onion
        \<and> length onion = SizeConvoExchange N + length nextKeys * onionbox_Overhead N)
    \<and> (\<forall>i < 2 * (length dest div 2). \<exists>onion. doubles ! i = Some onion
        \<and> length onion = SizeConvoExchange N + length nextKeys * onionbox_Overhead N)
    \<and> drop (2 * (length dest div 2)) doubles = drop (2 * (length dest div 2)) dest"
proof -
  obtain singles r1 where s: "omap (fake_single N nonce nextKeys) [0..<length dest] r = Ret (singles, r1)"
    using omap_total [of _ "fake_single N nonce nextKeys"] fake_single_total [OF assms] by meson
  obtain ps r2 where d: "omap (fake_double N nonce nextKeys) [0..<length dest div 2] r = Ret (ps, r2)"
    using omap_total [of _ "fake_double N nonce nextKeys"] fake_double_total [OF assms] by meson
  let ?doubles = "concat (map (\<lambda>(onion1, onion2). [Some onion1, Some onion2]) ps)"
  let ?size = "\<lambda>onion. length onion = SizeConvoExchange N + length nextKeys * 48"
  have sizes: "list_all2 (\<lambda>_ onion. ?size onion) [0..<length dest] singles"
    "list_all2 (\<lambda>_ p. ?size (fst p) \<and> ?size (snd p)) [0..<length dest div 2] ps"
    using omap_all [OF s, of "\<lambda>_ onion. ?size onion"] fake_single_size [OF assms(1)]
      omap_all [OF d, of "\<lambda>_ p. ?size (fst p) \<and> ?size (snd p)"] fake_double_size [OF assms(1)] by blast+
  have len: "length singles = length dest" "length ps = length dest div 2"
    using omap_length [OF s] omap_length [OF d] by simp_all
  have "\<exists>onion. ?doubles ! i = Some onion \<and> ?size onion" if "i < 2 * (length dest div 2)" for i
  proof -
    have "i div 2 < length ps" "i = 2 * (i div 2) \<or> i = 2 * (i div 2) + 1" using that len by auto
    then show ?thesis
      using pairs_nth [of "i div 2" ps Some] sizes(2) len(2) by (auto simp: list_all2_conv_all_nth)
  qed
  then show ?thesis
    using s d len sizes(1) length_pairs [of Some ps]
    by (auto simp: FillWithFakeSingles_def FillWithFakeDoubles_def onionbox_Overhead_eq [OF assms(1)]
        list_all2_conv_all_nth nth_append)
qed

theorem noise_sizes_witness:
  "\<exists>singles r1. FillWithFakeSingles clear_box [None, None, None] (ForwardNonce 1)
      [Some (replicate 32 1), Some (replicate 32 2)] (\<lambda>_. 0) = Ret (singles, r1)
    \<and> length singles = 3 \<and> (\<exists>onion. singles ! 2 = Some onion \<and> length onion = 368)"
proof -
  let ?keys = "[Some (replicate 32 1), Some (replicate 32 (2 :: byte))]"
  have "None \<notin> set ?keys" by simp
  from noise_sizes [OF clear_box_ok this, of "[None, None, None]" "ForwardNonce 1" "\<lambda>_. 0"]
  obtain singles r1 where "FillWithFakeSingles clear_box [None, None, None] (ForwardNonce 1) ?keys (\<lambda>_. 0) = Ret (singles, r1)"
    "length singles = length [None :: bytes option, None, None]"
    "\<forall>i < length [None :: bytes option, None, None]. \<exists>onion. singles ! i = Some onion
        \<and> length onion = SizeConvoExchange clear_box + length ?keys * onionbox_Overhead clear_box" by blast
  moreover have "SizeConvoExchange clear_box + length ?keys * onionbox_Overhead clear_box = 368"
    by (simp add: wire_simps clear_box_ok)
  ultimately show ?thesis by (intro exI [of _ singles] exI [of _ r1]) (simp add: numeral_3_eq_3 numeral_2_eq_2)
qed

text \<open>
  C24: the fake doubles come in pairs that meet: the onions in slots \<open>2 i\<close> and \<open>2 i + 1\<close> carry, for the
  servers after this one, two exchanges with the same dead drop.
\<close>

theorem FillWithFakeDoubles_pairs:
  assumes "nacl_ok N"
  shows "\<exists>onions r'. FillWithFakeDoubles N dest nonce (public_keys N sks) r = Ret (onions, r')
    \<and> (\<forall>i < length dest div 2. \<exists>onion1 onion2 e1 e2. onions ! (2 * i) = Some onion1 \<and> onions ! (2 * i + 1) = Some onion2
        \<and> carries N nonce sks onion1 (ConvoExchange_Marshal e1) \<and> carries N nonce sks onion2 (ConvoExchange_Marshal e2)
        \<and> wf_ConvoExchange N e1 \<and> wf_ConvoExchange N e2 \<and> DeadDrop e1 = DeadDrop e2)"
proof -
  have "None \<notin> set (public_keys N sks)" by auto
  then obtain ps r' where d: "omap (fake_double N nonce (public_keys N sks)) [0..<length dest div 2] r = Ret (ps, r')"
    using omap_total [of _ "fake_double N nonce (public_keys N sks)"] fake_double_total [OF assms] by meson
  let ?meet = "\<lambda>p. \<exists>e1 e2. carries N nonce sks (fst p) e1 \<and> carries N nonce sks (snd p) e2
    \<and> length e1 = SizeConvoExchange N \<and> length e2 = SizeConvoExchange N \<and> take 16 e1 = take 16 e2"
  have "list_all2 (\<lambda>_ p. ?meet p) [0..<length dest div 2] ps"
    using d by (rule omap_all) (use fake_double_pair [OF assms] in force)
  then have meet: "\<forall>i < length dest div 2. ?meet (ps ! i)" and len: "length ps = length dest div 2"
    by (auto simp: list_all2_conv_all_nth)
  define ex where "ex e = \<lparr>DeadDrop = take 16 e, EncryptedMessage = drop 16 e\<rparr>" for e :: bytes
  have ex: "ConvoExchange_Marshal (ex e) = e" "DeadDrop (ex e) = take 16 e"
    "length e = SizeConvoExchange N \<Longrightarrow> wf_ConvoExchange N (ex e)" for e
    by (simp_all add: ex_def ConvoExchange_Marshal_def wf_ConvoExchange_def SizeConvoExchange_def)
  have "\<exists>onion1 onion2 e1 e2. concat (map (\<lambda>(onion1, onion2). [Some onion1, Some onion2]) ps) ! (2 * i) = Some onion1
      \<and> concat (map (\<lambda>(onion1, onion2). [Some onion1, Some onion2]) ps) ! (2 * i + 1) = Some onion2
      \<and> carries N nonce sks onion1 (ConvoExchange_Marshal e1) \<and> carries N nonce sks onion2 (ConvoExchange_Marshal e2)
      \<and> wf_ConvoExchange N e1 \<and> wf_ConvoExchange N e2 \<and> DeadDrop e1 = DeadDrop e2"
    if i: "i < length dest div 2" for i
  proof -
    from meet i obtain e1 e2 where "carries N nonce sks (fst (ps ! i)) e1" "carries N nonce sks (snd (ps ! i)) e2"
      "length e1 = SizeConvoExchange N" "length e2 = SizeConvoExchange N" "take 16 e1 = take 16 e2" by blast
    then show ?thesis
      using pairs_nth [of i ps Some] i len ex [of e1] ex [of e2] by metis
  qed
  then show ?thesis
    using length_pairs [of Some ps] len by (auto simp: FillWithFakeDoubles_def d nth_append)
qed

theorem FillWithFakeDoubles_pairs_witness:
  "\<exists>onions r'. FillWithFakeDoubles clear_box [None, None] (ForwardNonce 3) (public_keys clear_box [replicate 32 9]) (\<lambda>_. 0) = Ret (onions, r')
    \<and> (\<exists>onion1 onion2 e1 e2. onions ! 0 = Some onion1 \<and> onions ! 1 = Some onion2
      \<and> carries clear_box (ForwardNonce 3) [replicate 32 9] onion1 (ConvoExchange_Marshal e1)
      \<and> carries clear_box (ForwardNonce 3) [replicate 32 9] onion2 (ConvoExchange_Marshal e2)
      \<and> DeadDrop e1 = DeadDrop e2)"
proof -
  from FillWithFakeDoubles_pairs [OF clear_box_ok, of "[None, None]" "ForwardNonce 3" "[replicate 32 9]" "\<lambda>_. 0"]
  obtain onions r' where run: "FillWithFakeDoubles clear_box [None, None] (ForwardNonce 3) (public_keys clear_box [replicate 32 9]) (\<lambda>_. 0) = Ret (onions, r')"
    and all: "\<forall>i < length [None :: bytes option, None] div 2. \<exists>onion1 onion2 e1 e2. onions ! (2 * i) = Some onion1 \<and> onions ! (2 * i + 1) = Some onion2
        \<and> carries clear_box (ForwardNonce 3) [replicate 32 9] onion1 (ConvoExchange_Marshal e1)
        \<and> carries clear_box (ForwardNonce 3) [replicate 32 9] onion2 (ConvoExchange_Marshal e2)
        \<and> wf_ConvoExchange clear_box e1 \<and> wf_ConvoExchange clear_box e2 \<and> DeadDrop e1 = DeadDrop e2"
    by blast
  have "0 < length [None :: bytes option, None] div 2" "2 * (0 :: nat) = 0" "2 * (0 :: nat) + 1 = 1" by simp_all
  with run all show ?thesis by metis
qed

text \<open>
  The dialling noise puts into each bucket exactly the number of fake introductions that was
  drawn for it, with any surplus slots going to bucket 0; a slice that is too short for the counts
  makes the function panic.
\<close>

theorem FillWithFakeIntroductions_counts:
  assumes "nacl_ok N" "length noiseCounts < 2 ^ 32"
  shows "(length dest < (\<Sum>c\<leftarrow>noiseCounts. nat c) \<longrightarrow>
      FillWithFakeIntroductions N dest noiseCounts nonce (public_keys N sks) r = Panic)
    \<and> ((\<Sum>c\<leftarrow>noiseCounts. nat c) \<le> length dest \<longrightarrow>
      (\<exists>onions exchanges r'. FillWithFakeIntroductions N dest noiseCounts nonce (public_keys N sks) r = Ret (map Some onions, r')
        \<and> length onions = length dest \<and> list_all2 (carries N nonce sks) onions exchanges
        \<and> (\<forall>e \<in> set exchanges. length e = SizeDialExchange N)
        \<and> (\<forall>b < length noiseCounts. length (filter (\<lambda>e. Uint32 e = of_nat b) exchanges) =
            nat (noiseCounts ! b) + (if b = 0 then length dest - (\<Sum>c\<leftarrow>noiseCounts. nat c) else 0))))"
proof (intro conjI impI)
  assume "length dest < (\<Sum>c\<leftarrow>noiseCounts. nat c)"
  then show "FillWithFakeIntroductions N dest noiseCounts nonce (public_keys N sks) r = Panic"
    by (simp add: FillWithFakeIntroductions_def length_noise_buckets)
next
  assume fits: "(\<Sum>c\<leftarrow>noiseCounts. nat c) \<le> length dest"
  let ?bs = "noise_buckets 0 noiseCounts @ replicate (length dest - length (noise_buckets 0 noiseCounts)) 0"
  have bs: "copy_into (replicate (length dest) 0) (noise_buckets 0 noiseCounts) = ?bs"
    using fits by (simp add: copy_into_def length_noise_buckets)
  have len: "length ?bs = length dest" using fits by (simp add: length_noise_buckets)
  have "None \<notin> set (public_keys N sks)" by auto
  then obtain onions r' where run: "omap (fake_introduction N nonce (public_keys N sks)) ?bs r = Ret (onions, r')"
    using omap_total [of ?bs "fake_introduction N nonce (public_keys N sks)" r] fake_introduction_total [OF assms(1)] by meson
  obtain es where es: "list_all2 (carries N nonce sks) onions es" "\<forall>e \<in> set es. length e = SizeDialExchange N"
    "map Uint32 es = map of_nat ?bs"
    using introductions_exchanges [OF assms(1) run] by blast
  have "length (filter (\<lambda>e. Uint32 e = of_nat b) es) =
      nat (noiseCounts ! b) + (if b = 0 then length dest - (\<Sum>c\<leftarrow>noiseCounts. nat c) else 0)"
    if b: "b < length noiseCounts" for b
  proof -
    have "length (filter (\<lambda>e. Uint32 e = of_nat b) es) = length (filter (\<lambda>x. of_nat x = (of_nat b :: u32)) ?bs)"
      by (rule filter_image_length [OF es(3)])
    also have "filter (\<lambda>x. of_nat x = (of_nat b :: u32)) ?bs = filter (\<lambda>x. x = b) ?bs"
    proof (rule filter_cong [OF refl])
      fix x assume "x \<in> set ?bs"
      then have "x < length noiseCounts" using noise_buckets_ge [of x 0 noiseCounts] b by auto
      then show "of_nat x = (of_nat b :: u32) \<longleftrightarrow> x = b" using b assms(2) by (intro of_nat_u32_eq) auto
    qed
    also have "length (filter (\<lambda>x. x = b) ?bs) =
        nat (noiseCounts ! b) + (if b = 0 then length dest - length (noise_buckets 0 noiseCounts) else 0)"
      using noise_buckets_count [OF b, of 0] by simp
    finally show ?thesis by (simp only: length_noise_buckets)
  qed
  moreover have "FillWithFakeIntroductions N dest noiseCounts nonce (public_keys N sks) r = Ret (map Some onions, r')"
    using fits run by (simp add: FillWithFakeIntroductions_def bs length_noise_buckets)
  moreover have "length onions = length dest" using omap_length [OF run] len by simp
  ultimately show "\<exists>onions exchanges r'. FillWithFakeIntroductions N dest noiseCounts nonce (public_keys N sks) r = Ret (map Some onions, r')
        \<and> length onions = length dest \<and> list_all2 (carries N nonce sks) onions exchanges
        \<and> (\<forall>e \<in> set exchanges. length e = SizeDialExchange N)
        \<and> (\<forall>b < length noiseCounts. length (filter (\<lambda>e. Uint32 e = of_nat b) exchanges) =
            nat (noiseCounts ! b) + (if b = 0 then length dest - (\<Sum>c\<leftarrow>noiseCounts. nat c) else 0))"
    using es(1,2) by blast
qed

theorem FillWithFakeIntroductions_counts_witness:
  "\<exists>onions exchanges r'. FillWithFakeIntroductions clear_box [None, None, None] [1, 2] (ForwardNonce 1)
      (public_keys clear_box [replicate 32 9]) (\<lambda>_. 0) = Ret (map Some onions, r')
    \<and> list_all2 (carries clear_box (ForwardNonce 1) [replicate 32 9]) onions exchanges
    \<and> length (filter (\<lambda>e. Uint32 e = 1) exchanges) = 2"
proof -
  have hyp: "length [1, 2 :: int] < 2 ^ 32" by simp
  have fits: "(\<Sum>c\<leftarrow>[1, 2]. nat c) \<le> length [None :: bytes option, None, None]" by simp
  have one: "1 < length [1, 2 :: int]" "nat ([1, 2] ! 1) + (if 1 = (0 :: nat) then length [None :: bytes option, None, None] - (\<Sum>c\<leftarrow>[1, 2]. nat c) else 0) = 2"
    "(of_nat 1 :: u32) = 1" by simp_all
  from FillWithFakeIntroductions_counts [OF clear_box_ok hyp, of "[None, None, None]" "ForwardNonce 1" "[replicate 32 9]" "\<lambda>_. 0"] fits
  show ?thesis using one by metis
qed

end
