(* ===== verification/Vrpc.thy ===== *)
theory Vrpc
  imports Prelude
begin

text \<open>
  Remote calls, \<^verbatim>\<open>vrpc/client.go\<close>: opening connections, single calls and batches of calls.  An \<open>action\<close> is a handler or a remote call: it acts on the state
  of the callee and on the stream of random bytes, and yields an error or a reply.

  \<^verbatim>\<open>CallMany\<close> feeds the calls to several connections at once, so the callee runs them in an order
  of its own and the results arrive in that order.  The order is an argument: the list of the
  indices of the calls the callee ran.  When a result is an error, \<^verbatim>\<open>CallMany\<close> returns it at once,
  although further calls may have been sent: they are those that follow it in the order.
  When no result is an error, it waits for as many results as there are calls.
\<close>

type_synonym ('s, 'y) action = "'s \<Rightarrow> rng \<Rightarrow> ((gerr + 'y) \<times> 's \<times> rng) outcome"

text \<open>\<^verbatim>\<open>if err := m; err != nil { return fmt.Errorf("context: %s", err) }\<close>, and go on otherwise.\<close>

definition attempt :: "string \<Rightarrow> ('s, 'y) action \<Rightarrow> ('y \<Rightarrow> ('s, 'z) action) \<Rightarrow> ('s, 'z) action" where
  "attempt msg m f s r =
     obind (m s r) (\<lambda>(res, s, r).
       case res of Inl err \<Rightarrow> Ret (Inl (Wrapped msg err), s, r) | Inr y \<Rightarrow> f y s r)"

definition give :: "'y \<Rightarrow> ('s, 'y) action" where
  "give y s r = Ret (Inr y, s, r)"

section \<open>Connections\<close>

text \<open>
  A client is the list of its connections, opened one after the other; \<open>dial a i\<close> is what \<^verbatim>\<open>rpc.Dial\<close>
  returns for address \<open>a\<close> at the \<open>i\<close>-th attempt.  A single call uses the first connection.
\<close>

primrec dial_all :: "(nat \<Rightarrow> gerr + 'conn) \<Rightarrow> nat list \<Rightarrow> gerr + 'conn list" where
  "dial_all dial [] = Inr []"
| "dial_all dial (i # is) =
     (case dial i of
        Inl err \<Rightarrow> Inl err
      | Inr c \<Rightarrow> (case dial_all dial is of Inl err \<Rightarrow> Inl err | Inr cs \<Rightarrow> Inr (c # cs)))"

definition vrpc_Dial :: "(string \<Rightarrow> nat \<Rightarrow> gerr + 'conn) \<Rightarrow> string \<Rightarrow> nat \<Rightarrow> gerr + 'conn list" where
  "vrpc_Dial dial address connections = dial_all (dial address) [0..<connections]"

definition vrpc_Call :: "('conn \<Rightarrow> ('s, 'y) action) \<Rightarrow> 'conn list \<Rightarrow> ('s, 'y) action" where
  "vrpc_Call call rpcClients s r = obind (idx rpcClients 0) (\<lambda>rc. call rc s r)"

lemma dial_all_Inr: "dial_all dial is = Inr cs \<Longrightarrow> map Inr cs = map dial is"
  by (induction "is" arbitrary: cs) (auto split: sum.splits)

lemma vrpc_Dial_Inr: "vrpc_Dial dial a n = Inr cs \<Longrightarrow> length cs = n \<and> (\<forall>i < n. dial a i = Inr (cs ! i))"
  unfolding vrpc_Dial_def
  by (drule dial_all_Inr) (auto simp: list_eq_iff_nth_eq)

lemma vrpc_Dial_ok: "\<forall>i < n. \<exists>c. dial a i = Inr c \<Longrightarrow> \<exists>cs. vrpc_Dial dial a n = Inr cs"
proof -
  have "\<forall>i \<in> set is. \<exists>c. dial a i = Inr c \<Longrightarrow> \<exists>cs. dial_all (dial a) is = Inr cs" for "is"
    by (induction "is") auto
  then show "\<forall>i < n. \<exists>c. dial a i = Inr c \<Longrightarrow> \<exists>cs. vrpc_Dial dial a n = Inr cs" by (simp add: vrpc_Dial_def)
qed

section \<open>CallMany\<close>

text \<open>The results in the order they arrive, each with the index of its call.\<close>

definition run_calls ::
  "('call \<Rightarrow> ('s, 'y) action) \<Rightarrow> 'call list \<Rightarrow> nat list \<Rightarrow> 's \<Rightarrow> rng \<Rightarrow> ((nat \<times> (gerr + 'y)) list \<times> 's \<times> rng) outcome" where
  "run_calls run calls order s r =
     omap (\<lambda>i (s, r). obind (idx calls i) (\<lambda>call. obind (run call s r) (\<lambda>(res, s, r). Ret ((i, res), s, r)))) order (s, r)"

text \<open>The receive loop: the first error, or the replies of the calls once all have arrived.\<close>

primrec receive :: "(nat \<times> (gerr + 'y)) list \<Rightarrow> gerr + (nat \<times> 'y) list" where
  "receive [] = Inr []"
| "receive (res # results) =
     (case snd res of
        Inl err \<Rightarrow> Inl err
      | Inr y \<Rightarrow> map_sum id (Cons (fst res, y)) (receive results))"

definition CallMany :: "nat list \<Rightarrow> ('call \<Rightarrow> ('s, 'y) action) \<Rightarrow> 'call list \<Rightarrow> ('s, 'y list) action" where
  "CallMany order run calls s r =
     (if calls = [] then Ret (Inr [], s, r)
      else obind (run_calls run calls order s r) (\<lambda>(results, s, r).
        case receive results of
          Inl err \<Rightarrow> Ret (Inl err, s, r)
        | Inr got \<Rightarrow>
            if length got = length calls
            then obind (omap (\<lambda>i u. obind (deref (map_of got i)) (\<lambda>y. Ret (y, u))) [0..<length calls] ())
              (\<lambda>(ys, _). Ret (Inr ys, s, r))
            else Hang))"

text \<open>An order in which every one of \<open>n\<close> calls is run once.\<close>

definition complete_order :: "nat \<Rightarrow> nat list \<Rightarrow> bool" where
  "complete_order n order \<longleftrightarrow> distinct order \<and> set order = {..<n}"

section \<open>What it returns\<close>

lemma attempt_Ret [outcome_simps]:
  "attempt msg m f s r = Ret x \<longleftrightarrow>
     (\<exists>res s' r'. m s r = Ret (res, s', r') \<and>
        ((\<exists>err. res = Inl err \<and> x = (Inl (Wrapped msg err), s', r')) \<or> (\<exists>y. res = Inr y \<and> f y s' r' = Ret x)))"
  by (auto simp: attempt_def outcome_simps split: prod.splits)

lemma attempt_Inr [outcome_simps]:
  "attempt msg m f s r = Ret (Inr z, s2, r2) \<longleftrightarrow>
     (\<exists>y s1 r1. m s r = Ret (Inr y, s1, r1) \<and> f y s1 r1 = Ret (Inr z, s2, r2))"
  by (auto simp: attempt_Ret split: sum.split_asm)

lemma attempt_step [simp]: "m s r = Ret (Inr y, s1, r1) \<Longrightarrow> attempt msg m f s r = f y s1 r1"
  by (simp add: attempt_def)

lemma attempt_error [simp]: "m s r = Ret (Inl err, s1, r1) \<Longrightarrow> attempt msg m f s r = Ret (Inl (Wrapped msg err), s1, r1)"
  by (simp add: attempt_def)

lemma receive_Inr:
  "receive results = Inr got \<Longrightarrow> map (\<lambda>(i, res). (i, projr res)) results = got \<and> map fst got = map fst results \<and> (\<forall>(i, res) \<in> set results. isl res = False)"
proof (induction results arbitrary: got)
  case (Cons res results)
  obtain i x where res: "res = (i, x)" by (cases res)
  obtain y where y: "x = Inr y" using Cons.prems res by (cases x) auto
  then obtain got' where "receive results = Inr got'" "got = (i, y) # got'"
    using Cons.prems res by (cases "receive results") auto
  with Cons.IH show ?case by (auto simp: res y)
qed simp

text \<open>
  An invariant of the callee that each successful call extends: after all the calls of an order the
  invariant holds of all of them.  No call is run twice.
\<close>

lemma run_calls_inv:
  assumes "run_calls run calls order s r = Ret (results, s', r')" "receive results = Inr got" "I {} s" "distinct order"
    and step: "\<And>D i s r y s' r'. i \<in> set order \<Longrightarrow> i < length calls \<Longrightarrow> i \<notin> D \<Longrightarrow> I D s \<Longrightarrow> run (calls ! i) s r = Ret (Inr y, s', r')
      \<Longrightarrow> I (insert i D) s' \<and> P i y"
  shows "I (set order) s' \<and> map fst got = order \<and> (\<forall>(i, y) \<in> set got. P i y)"
proof -
  have "I (D \<union> set os) s' \<and> map fst got = os \<and> (\<forall>(i, y) \<in> set got. P i y)"
    if "run_calls run calls os s r = Ret (results, s', r')" "receive results = Inr got" "I D s" "set os \<subseteq> set order"
      "distinct os" "D \<inter> set os = {}"
    for os D s r results got
    using that
  proof (induction os arbitrary: D s r results got)
    case Nil
    then show ?case by (auto simp: run_calls_def)
  next
    case (Cons i os)
    from Cons.prems(1) obtain res s1 r1 results1 where
      i: "i < length calls" and one: "run (calls ! i) s r = Ret (res, s1, r1)"
      and rest: "run_calls run calls os s1 r1 = Ret (results1, s', r')" and results: "results = (i, res) # results1"
      by (auto simp: run_calls_def outcome_simps)
    obtain y got1 where y: "res = Inr y" "receive results1 = Inr got1" "got = (i, y) # got1"
      using Cons.prems(2) results by (cases res; cases "receive results1") auto
    have "I (insert i D) s1 \<and> P i y"
      using step [of i D s r y s1 r1] one i y(1) Cons.prems(3-6) by simp
    with Cons.IH [OF rest y(2), of "insert i D"] Cons.prems(4-6) show ?case by (simp add: y(3))
  qed
  from this [OF assms(1,2,3)] show ?thesis using assms(4) by simp
qed

lemma CallMany_inv:
  assumes "CallMany order run calls s r = Ret (Inr ys, s', r')" "complete_order (length calls) order" "I {} s"
    and step: "\<And>D i s r y s' r'. i < length calls \<Longrightarrow> i \<notin> D \<Longrightarrow> I D s \<Longrightarrow> run (calls ! i) s r = Ret (Inr y, s', r')
      \<Longrightarrow> I (insert i D) s' \<and> P i y"
  shows "I {..<length calls} s' \<and> length ys = length calls \<and> (\<forall>i < length calls. P i (ys ! i))"
proof (cases "calls = []")
  case True
  then show ?thesis using assms(1,3) by (simp add: CallMany_def)
next
  case False
  from assms(1) False obtain results got where run: "run_calls run calls order s r = Ret (results, s', r')"
    and rec: "receive results = Inr got"
    and ys: "omap (\<lambda>i u. obind (deref (map_of got i)) (\<lambda>y. Ret (y, u))) [0..<length calls] () = Ret (ys, ())"
    by (auto simp: CallMany_def outcome_simps split: if_splits)
  have inv: "I (set order) s' \<and> map fst got = order \<and> (\<forall>(i, y) \<in> set got. P i y)"
    using run rec assms(3) by (rule run_calls_inv) (use step assms(2) in \<open>auto simp: complete_order_def\<close>)
  have "list_all2 (\<lambda>i y. map_of got i = Some y) [0..<length calls] ys"
    using ys by (rule omap_all) (auto simp: outcome_simps)
  then have "length ys = length calls" "\<forall>i < length calls. map_of got i = Some (ys ! i)"
    by (auto simp: list_all2_conv_all_nth)
  moreover have "\<forall>i < length calls. P i (ys ! i)"
    using calculation inv map_of_SomeD by fastforce
  ultimately show ?thesis using inv assms(2) by (simp add: complete_order_def)
qed

text \<open>
  Progress: calls that each succeed from every state the invariant allows all succeed together, in
  every complete order.
\<close>

lemma run_calls_total:
  assumes "I D s" "set os \<subseteq> {..<length calls}"
    and step: "\<And>D i s r. i < length calls \<Longrightarrow> I D s \<Longrightarrow>
      \<exists>y s' r'. run (calls ! i) s r = Ret (Inr y, s', r') \<and> I (insert i D) s'"
  shows "\<exists>results s' r' got. run_calls run calls os s r = Ret (results, s', r') \<and> receive results = Inr got
    \<and> map fst got = os"
  using assms(1,2)
proof (induction os arbitrary: D s r)
  case Nil
  then show ?case by (simp add: run_calls_def)
next
  case (Cons i os)
  then obtain y s1 r1 where one: "run (calls ! i) s r = Ret (Inr y, s1, r1)" "I (insert i D) s1"
    using step [of i D s r] by auto
  obtain results s' r' got where "run_calls run calls os s1 r1 = Ret (results, s', r')" "receive results = Inr got"
    "map fst got = os"
    using Cons.IH [OF one(2), of r1] Cons.prems(2) by auto
  with one Cons.prems(2) show ?case by (auto simp: run_calls_def)
qed

lemma CallMany_total:
  assumes "I {} s" "complete_order (length calls) order"
    and step: "\<And>D i s r. i < length calls \<Longrightarrow> I D s \<Longrightarrow>
      \<exists>y s' r'. run (calls ! i) s r = Ret (Inr y, s', r') \<and> I (insert i D) s'"
  shows "\<exists>ys s' r'. CallMany order run calls s r = Ret (Inr ys, s', r')"
proof (cases "calls = []")
  case False
  have "set order \<subseteq> {..<length calls}" using assms(2) by (simp add: complete_order_def)
  then obtain results s' r' got where run: "run_calls run calls order s r = Ret (results, s', r')"
    and rec: "receive results = Inr got" and got: "map fst got = order"
    using run_calls_total [of I "{}" s order calls run r] assms(1) step by blast
  have "length order = length calls"
    using assms(2) distinct_card [of order] by (simp add: complete_order_def)
  then have len: "length got = length calls" using got by (metis length_map)
  have "\<exists>y. map_of got i = Some y" if "i < length calls" for i
  proof -
    have "i \<in> fst ` set got" using that assms(2) got by (metis complete_order_def lessThan_iff set_map)
    then show ?thesis by (metis map_of_eq_None_iff not_None_eq)
  qed
  then obtain ys where "omap (\<lambda>i u. obind (deref (map_of got i)) (\<lambda>y. Ret (y, u))) [0..<length calls] () = Ret (ys, ())"
    using omap_total [of "[0..<length calls]" "\<lambda>i u. obind (deref (map_of got i)) (\<lambda>y. Ret (y, u))" "()"] by fastforce
  with run rec len False show ?thesis by (simp add: CallMany_def)
qed (simp add: CallMany_def)

section \<open>Properties\<close>

lemma receive_first_error:
  "\<forall>(i, res) \<in> set pre. \<not> isl res \<Longrightarrow> receive (pre @ (i, Inl err) # post) = Inl err"
proof (induction pre)
  case (Cons p pre)
  then show ?case by (cases "snd p") auto
qed simp

text \<open>
  C26: whatever order the callee runs the calls in, \<open>CallMany\<close> returns each reply at the position
  of its call when all of them succeed, and the error that arrived first otherwise.
\<close>

theorem CallMany_ok:
  assumes "complete_order (length calls) order"
  shows "((\<forall>call \<in> set calls. \<forall>s r. \<exists>s' r'. run call s r = Ret (Inr (f call), s', r')) \<longrightarrow>
      (\<exists>s' r'. CallMany order run calls s r = Ret (Inr (map f calls), s', r')))
    \<and> (\<forall>pre i err post s' r'. calls \<noteq> [] \<longrightarrow> run_calls run calls order s r = Ret (pre @ (i, Inl err) # post, s', r') \<longrightarrow>
      (\<forall>(j, res) \<in> set pre. \<not> isl res) \<longrightarrow> CallMany order run calls s r = Ret (Inl err, s', r'))"
proof (intro conjI impI allI)
  assume ok: "\<forall>call \<in> set calls. \<forall>s r. \<exists>s' r'. run call s r = Ret (Inr (f call), s', r')"
  have step: "\<exists>s' r'. run (calls ! i) s r = Ret (Inr (f (calls ! i)), s', r')" if "i < length calls" for i s r
    using ok nth_mem [OF that] by blast
  have "\<exists>ys s' r'. CallMany order run calls s r = Ret (Inr ys, s', r')"
  proof (rule CallMany_total [where I = "\<lambda>_ _. True", OF TrueI assms])
    fix i s r assume "i < length calls"
    from step [OF this] show "\<exists>y s' r'. run (calls ! i) s r = Ret (Inr y, s', r') \<and> True" by blast
  qed
  then obtain ys s' r' where run: "CallMany order run calls s r = Ret (Inr ys, s', r')" by blast
  have "True \<and> length ys = length calls \<and> (\<forall>i < length calls. ys ! i = f (calls ! i))"
  proof (rule CallMany_inv [where I = "\<lambda>_ _. True", OF run assms TrueI])
    fix i s r y s' r' assume "i < length calls" "run (calls ! i) s r = Ret (Inr y, s', r')"
    with step [of i s r] show "True \<and> y = f (calls ! i)" by auto
  qed
  then have "ys = map f calls" by (auto intro: nth_equalityI)
  with run show "\<exists>s' r'. CallMany order run calls s r = Ret (Inr (map f calls), s', r')" by blast
next
  fix pre i err post s' r'
  assume "calls \<noteq> []" "run_calls run calls order s r = Ret (pre @ (i, Inl err) # post, s', r')"
    "\<forall>(j, res) \<in> set pre. \<not> isl res"
  then show "CallMany order run calls s r = Ret (Inl err, s', r')"
    using receive_first_error [of pre i err post] by (simp add: CallMany_def)
qed

theorem CallMany_ok_witness:
  "\<exists>s' r'. CallMany [2, 0, 1] (\<lambda>call s r. Ret (Inr (call * 10), call # s, r)) [1, 2, 3] ([] :: nat list) (\<lambda>_. 0) =
    Ret (Inr [10, 20, 30 :: nat], s', r')"
proof -
  have "complete_order (length [1, 2, 3 :: nat]) [2, 0, 1]" by (auto simp: complete_order_def)
  from CallMany_ok [OF this, of "\<lambda>call s r. Ret (Inr (call * 10), call # s, r)" "\<lambda>call. call * 10" "[]" "\<lambda>_. 0"]
  show ?thesis by simp
qed

end
