(* ===== verification/DeadDrops.thy ===== *)
theory DeadDrops
  imports Wire
begin

text \<open>
  The two loops at the heart of a conversation round, from \<^verbatim>\<open>convo.go\<close>.  \<open>filter_loop\<close> is the loop of
  \<^verbatim>\<open>filterIncoming\<close>: it drops the messages that did not open and the repeated ones, and records for
  every position where its message went.  \<open>drops_loop\<close> and \<open>reply_at\<close> are the part of \<^verbatim>\<open>Close\<close> that only
  the last server runs: it collects who accessed which dead drop and swaps the messages of the first
  two.
\<close>

section \<open>The code\<close>

definition msgkey :: "bytes \<Rightarrow> u64" where
  "msgkey msg = Uint64 (drop (length msg - 8) msg)"

text \<open>
  The slice \<^verbatim>\<open>msg[len(msg)-8:]\<close> panics for a message shorter than 8 bytes.  The results are
  \<^verbatim>\<open>incomingValid[:v]\<close> and \<^verbatim>\<open>incomingIndex\<close>.
\<close>

primrec filter_loop :: "bytes option list \<Rightarrow> u64 set \<Rightarrow> nat \<Rightarrow> (bytes list \<times> int list) outcome" where
  "filter_loop [] seen v = Ret ([], [])"
| "filter_loop (m # ms) seen v =
     (case m of
        None \<Rightarrow> obind (filter_loop ms seen v) (\<lambda>(valid, index). Ret (valid, - 1 # index))
      | Some msg \<Rightarrow>
          if length msg < 8 then Panic
          else if msgkey msg \<in> seen then obind (filter_loop ms seen v) (\<lambda>(valid, index). Ret (valid, - 1 # index))
          else obind (filter_loop ms (insert (msgkey msg) seen) (v + 1))
            (\<lambda>(valid, index). Ret (msg # valid, int v # index)))"

type_synonym drops = "bytes \<Rightarrow> nat list"

primrec drops_loop :: "nat \<Rightarrow> ConvoExchange list \<Rightarrow> drops \<times> int \<times> int \<Rightarrow> drops \<times> int \<times> int" where
  "drops_loop i [] st = st"
| "drops_loop i (ex # exs) st =
     (let (deadDrops, singles, doubles) = st;
          drop = deadDrops (DeadDrop ex)
      in drops_loop (i + 1) exs
        (if length drop = 0 then (deadDrops(DeadDrop ex := drop @ [i]), singles + 1, doubles)
         else if length drop = 1 then (deadDrops(DeadDrop ex := drop @ [i]), singles - 1, doubles + 1)
         else (deadDrops, singles, doubles)))"

text \<open>The body of the second parallel loop; \<open>[]\<close> is the nil of a slot that is not written.\<close>

definition reply_at :: "ConvoExchange list \<Rightarrow> drops \<Rightarrow> nat \<Rightarrow> bytes" where
  "reply_at exchanges deadDrops i =
     (let ex = exchanges ! i; drop = deadDrops (DeadDrop ex)
      in if length drop = 1 then EncryptedMessage ex
         else if length drop = 2
         then let k = (if i = drop ! 0 then drop ! 1 else drop ! 0) in EncryptedMessage (exchanges ! k)
         else [])"

definition exchange_all :: "ConvoExchange list \<Rightarrow> bytes list \<times> int \<times> int" where
  "exchange_all exchanges =
     (let (deadDrops, singles, doubles) = drops_loop 0 exchanges (\<lambda>_. [], 0, 0)
      in (map (reply_at exchanges deadDrops) [0..<length exchanges], singles, doubles))"

section \<open>What the filter keeps\<close>

text \<open>Position \<open>i\<close> holds a message and no earlier position, and nothing in \<open>seen\<close>, has its key.\<close>

definition first_seen :: "u64 set \<Rightarrow> bytes option list \<Rightarrow> nat \<Rightarrow> bool" where
  "first_seen seen ms i \<longleftrightarrow>
     (case ms ! i of None \<Rightarrow> False
      | Some msg \<Rightarrow> msgkey msg \<notin> seen \<and> (\<forall>j < i. \<forall>m. ms ! j = Some m \<longrightarrow> msgkey m \<noteq> msgkey msg))"

definition kept :: "u64 set \<Rightarrow> bytes option list \<Rightarrow> nat list" where
  "kept seen ms = filter (first_seen seen ms) [0..<length ms]"

definition long_enough :: "bytes option list \<Rightarrow> bool" where
  "long_enough ms \<longleftrightarrow> (\<forall>msg. Some msg \<in> set ms \<longrightarrow> 8 \<le> length msg)"

definition keys_in :: "bytes option \<Rightarrow> u64 set" where
  "keys_in m = (case m of None \<Rightarrow> {} | Some msg \<Rightarrow> {msgkey msg})"

lemma first_seen_Suc: "first_seen seen (m # ms) (Suc i) \<longleftrightarrow> first_seen (seen \<union> keys_in m) ms i"
  by (cases m) (auto simp: first_seen_def keys_in_def All_less_Suc2 split: option.splits)

lemma first_seen_0: "first_seen seen (m # ms) 0 \<longleftrightarrow> (\<exists>msg. m = Some msg \<and> msgkey msg \<notin> seen)"
  by (auto simp: first_seen_def split: option.splits)

lemma kept_Cons:
  "kept seen (m # ms) = (if first_seen seen (m # ms) 0 then [0] else []) @ map Suc (kept (seen \<union> keys_in m) ms)"
proof -
  have "[0..<length (m # ms)] = 0 # map Suc [0..<length ms]"
    by (simp add: upt_0_Suc del: upt_Suc)
  then show ?thesis
    unfolding kept_def by (simp add: filter_map o_def first_seen_Suc)
qed

text \<open>The two results: the kept messages in order, and for each position its rank among the kept, or -1.\<close>

definition rank :: "u64 set \<Rightarrow> bytes option list \<Rightarrow> nat \<Rightarrow> int" where
  "rank seen ms i =
     (if first_seen seen ms i then int (length (filter (first_seen seen ms) [0..<i])) else - 1)"

lemma rank_Suc:
  "rank seen (m # ms) (Suc i) =
     (let k = rank (seen \<union> keys_in m) ms i in if k = - 1 then - 1 else if first_seen seen (m # ms) 0 then k + 1 else k)"
proof -
  have "[0..<Suc i] = 0 # map Suc [0..<i]" by (rule upt_0_Suc)
  then show ?thesis
    unfolding rank_def by (simp add: filter_map o_def first_seen_Suc Let_def del: upt_Suc)
qed

lemma filter_loop_spec:
  assumes "long_enough ms"
  shows "filter_loop ms seen v =
    Ret (map (\<lambda>i. the (ms ! i)) (kept seen ms),
         map (\<lambda>i. if rank seen ms i = - 1 then - 1 else int v + rank seen ms i) [0..<length ms])"
  using assms
proof (induction ms arbitrary: seen v)
  case Nil
  then show ?case by (simp add: kept_def)
next
  case (Cons m ms)
  have le: "long_enough ms" using Cons.prems by (auto simp: long_enough_def)
  have upt: "[0..<length (m # ms)] = 0 # map Suc [0..<length ms]"
    by (simp add: upt_0_Suc del: upt_Suc)
  have rank0: "rank seen (m # ms) 0 = (if first_seen seen (m # ms) 0 then 0 else - 1)"
    by (simp add: rank_def)
  show ?case
  proof (cases "first_seen seen (m # ms) 0")
    case True
    then obtain msg where m: "m = Some msg" "msgkey msg \<notin> seen" by (auto simp: first_seen_0)
    then have len: "\<not> length msg < 8" using Cons.prems by (auto simp: long_enough_def)
    have ne: "2 + rank s ms i \<noteq> 0" for s i by (simp add: rank_def)
    have the_m: "the m = msg" by (simp add: m)
    have un: "seen \<union> keys_in m = insert (msgkey msg) seen" by (simp add: m keys_in_def)
    have "filter_loop (m # ms) seen v = obind (filter_loop ms (insert (msgkey msg) seen) (v + 1))
        (\<lambda>(valid, index). Ret (msg # valid, int v # index))"
      using m len by simp
    then show ?thesis
      unfolding upt kept_Cons Cons.IH [OF le, of "insert (msgkey msg) seen" "v + 1"] un using True ne
      by (auto simp: rank0 rank_Suc Let_def o_def un the_m simp del: upt_Suc filter_loop.simps)
  next
    case False
    have un: "seen \<union> keys_in m = seen"
      using False by (auto simp: first_seen_0 keys_in_def split: option.splits)
    have "filter_loop (m # ms) seen v = obind (filter_loop ms seen v) (\<lambda>(valid, index). Ret (valid, - 1 # index))"
      using False Cons.prems by (auto simp: first_seen_0 long_enough_def split: option.splits)
    then show ?thesis
      unfolding upt kept_Cons using Cons.IH [OF le, of seen v] False
      by (simp add: rank0 rank_Suc Let_def un o_def del: upt_Suc)
  qed
qed

lemma kept_nth_rank:
  assumes "i < length ms" "first_seen seen ms i"
  shows "nat (rank seen ms i) < length (kept seen ms)" "kept seen ms ! nat (rank seen ms i) = i"
proof -
  have split: "[0..<length ms] = [0..<i] @ i # [Suc i..<length ms]"
    using assms(1) upt_split [of 0 i "length ms"] by (simp add: upt_conv_Cons)
  have "kept seen ms = filter (first_seen seen ms) [0..<i] @ i # filter (first_seen seen ms) [Suc i..<length ms]"
    unfolding kept_def split using assms(2) by simp
  then show "nat (rank seen ms i) < length (kept seen ms)" "kept seen ms ! nat (rank seen ms i) = i"
    using assms(2) by (simp_all add: rank_def nth_append)
qed

lemma rank_nonneg: "0 \<le> rank seen ms i \<longleftrightarrow> first_seen seen ms i"
  by (simp add: rank_def)

lemma kept_distinct: "distinct (kept seen ms)"
  by (simp add: kept_def)

lemma length_kept: "length (kept seen ms) \<le> length ms"
  unfolding kept_def by (metis diff_zero length_filter_le length_upt)

lemma rank_mono:
  assumes "i < j" "first_seen seen ms i" "first_seen seen ms j"
  shows "rank seen ms i < rank seen ms j"
proof -
  have "[0..<j] = [0..<i] @ i # [Suc i..<j]"
    using assms(1) upt_split [of 0 i j] by (simp add: upt_conv_Cons)
  then show ?thesis using assms(2,3) by (simp add: rank_def)
qed

lemma kept_keys_distinct: "distinct (map (\<lambda>i. msgkey (the (ms ! i))) (kept seen ms))"
proof -
  have "msgkey (the (ms ! i)) \<noteq> msgkey (the (ms ! j))" if "first_seen seen ms i" "first_seen seen ms j" "i < j" for i j
    using that by (auto simp: first_seen_def split: option.splits)
  then have "inj_on (\<lambda>i. msgkey (the (ms ! i))) (set (kept seen ms))"
    unfolding kept_def by (intro linorder_inj_onI) auto
  then show ?thesis by (simp add: distinct_map kept_distinct)
qed

lemma kept_keys_complete:
  assumes "Some msg \<in> set ms"
  shows "msgkey msg \<in> (\<lambda>i. msgkey (the (ms ! i))) ` set (kept {} ms)"
proof -
  let ?P = "\<lambda>i. i < length ms \<and> (\<exists>m. ms ! i = Some m \<and> msgkey m = msgkey msg)"
  have "\<exists>i. ?P i" using assms by (metis in_set_conv_nth)
  then obtain k where k: "?P k" and least: "\<And>j. j < k \<Longrightarrow> \<not> ?P j"
    using exists_least_iff [of ?P] by blast
  obtain m where m: "ms ! k = Some m" "msgkey m = msgkey msg" using k by blast
  have "msgkey m' \<noteq> msgkey m" if "j < k" "ms ! j = Some m'" for j m'
    using least [OF that(1)] that k m(2) by auto
  then have "first_seen {} ms k" using m by (simp add: first_seen_def)
  then have "k \<in> set (kept {} ms)" using k by (simp add: kept_def)
  then show ?thesis using m by (intro image_eqI [of _ _ k]) simp_all
qed

section \<open>Who meets whom\<close>

text \<open>The positions that access a dead drop, in order.\<close>

definition visitors :: "ConvoExchange list \<Rightarrow> bytes \<Rightarrow> nat list" where
  "visitors exs d = filter (\<lambda>i. DeadDrop (exs ! i) = d) [0..<length exs]"

lemma visitors_snoc:
  "visitors (exs @ [ex]) d = visitors exs d @ (if DeadDrop ex = d then [length exs] else [])"
proof -
  have "filter (\<lambda>i. DeadDrop ((exs @ [ex]) ! i) = d) [0..<length exs] = filter (\<lambda>i. DeadDrop (exs ! i) = d) [0..<length exs]"
    by (rule filter_cong) (auto simp: nth_append)
  then show ?thesis by (simp add: visitors_def)
qed

lemma drops_loop_snoc:
  "drops_loop i (exs @ [ex]) st = drops_loop (i + length exs) [ex] (drops_loop i exs st)"
  by (induction exs arbitrary: i st) (simp_all add: Let_def split: prod.splits)

text \<open>The dead drops that were accessed once, and more than once.\<close>

definition single_drops :: "ConvoExchange list \<Rightarrow> bytes set" where
  "single_drops exs = {d. length (visitors exs d) = 1}"

definition double_drops :: "ConvoExchange list \<Rightarrow> bytes set" where
  "double_drops exs = {d. 2 \<le> length (visitors exs d)}"

lemma visited_finite: "finite {d. visitors exs d \<noteq> []}"
proof -
  have "{d. visitors exs d \<noteq> []} \<subseteq> DeadDrop ` set exs"
    by (auto simp: visitors_def filter_empty_conv)
  then show ?thesis by (rule finite_subset) simp
qed

lemma single_double_finite: "finite (single_drops exs)" "finite (double_drops exs)"
  by (auto simp: single_drops_def double_drops_def intro: finite_subset [OF _ visited_finite [of exs]])

lemma drops_loop_spec:
  "drops_loop 0 exs (\<lambda>_. [], 0, 0) =
     (\<lambda>d. take 2 (visitors exs d), int (card (single_drops exs)), int (card (double_drops exs)))"
proof (induction exs rule: rev_induct)
  case Nil
  then show ?case by (simp add: visitors_def single_drops_def double_drops_def)
next
  case (snoc ex exs)
  let ?d = "DeadDrop ex" and ?n = "length (visitors exs (DeadDrop ex))"
  have drops: "(\<lambda>d. take 2 (visitors (exs @ [ex]) d)) =
      (\<lambda>d. take 2 (visitors exs d))(?d := take 2 (visitors exs ?d @ [length exs]))"
    by (auto simp: visitors_snoc)
  consider "?n = 0" | "?n = 1" | "2 \<le> ?n" by linarith
  then show ?case
  proof cases
    case 1
    then have "single_drops (exs @ [ex]) = insert ?d (single_drops exs)" "?d \<notin> single_drops exs"
      "double_drops (exs @ [ex]) = double_drops exs"
      by (auto simp: single_drops_def double_drops_def visitors_snoc)
    with 1 show ?thesis
      by (simp add: drops_loop_snoc snoc.IH drops single_double_finite)
  next
    case 2
    then have "single_drops exs = insert ?d (single_drops (exs @ [ex]))" "?d \<notin> single_drops (exs @ [ex])"
      "double_drops (exs @ [ex]) = insert ?d (double_drops exs)" "?d \<notin> double_drops exs"
      by (auto simp: single_drops_def double_drops_def visitors_snoc)
    moreover obtain k where "visitors exs ?d = [k]" using 2 by (cases "visitors exs ?d") auto
    ultimately show ?thesis
      by (simp add: drops_loop_snoc snoc.IH drops single_double_finite Let_def)
  next
    case 3
    then have "single_drops (exs @ [ex]) = single_drops exs" "double_drops (exs @ [ex]) = double_drops exs"
      by (auto simp: single_drops_def double_drops_def visitors_snoc)
    moreover have "(\<lambda>d. take 2 (visitors exs d))(?d := take 2 (visitors exs ?d @ [length exs])) = (\<lambda>d. take 2 (visitors exs d))"
      using 3 by auto
    ultimately show ?thesis
      using 3 by (auto simp: drops_loop_snoc snoc.IH drops Let_def)
  qed
qed

lemma exchange_all_replies:
  "fst (exchange_all exs) = map (reply_at exs (\<lambda>d. take 2 (visitors exs d))) [0..<length exs]"
  by (simp add: exchange_all_def drops_loop_spec)

lemma length_exchange_all [simp]: "length (fst (exchange_all exs)) = length exs"
  by (simp add: exchange_all_replies)

text \<open>The reply that position \<open>i\<close> is meant to get.\<close>

definition meant_for :: "ConvoExchange list \<Rightarrow> nat \<Rightarrow> bytes" where
  "meant_for exs i =
     (case visitors exs (DeadDrop (exs ! i)) of
        [j] \<Rightarrow> EncryptedMessage (exs ! i)
      | j # k # _ \<Rightarrow> EncryptedMessage (exs ! (if i = j then k else j))
      | [] \<Rightarrow> [])"

lemma reply_at_meant: "reply_at exs (\<lambda>d. take 2 (visitors exs d)) i = meant_for exs i"
  by (auto simp: reply_at_def meant_for_def Let_def split: list.splits)

lemma in_visitors: "i < length exs \<Longrightarrow> i \<in> set (visitors exs (DeadDrop (exs ! i)))"
  by (simp add: visitors_def)

lemma set_visitors: "set (visitors exs d) = {i. i < length exs \<and> DeadDrop (exs ! i) = d}"
  by (auto simp: visitors_def)

lemma meant_for_pair:
  assumes "i < length exs" "j < length exs" "i \<noteq> j" "DeadDrop (exs ! i) = DeadDrop (exs ! j)"
    and "\<forall>k < length exs. DeadDrop (exs ! k) = DeadDrop (exs ! i) \<longrightarrow> k = i \<or> k = j"
  shows "meant_for exs i = EncryptedMessage (exs ! j)"
proof -
  let ?vs = "visitors exs (DeadDrop (exs ! i))"
  have "set ?vs = {i, j}" "distinct ?vs"
    using assms by (auto simp: set_visitors visitors_def)
  moreover have "length ?vs = 2" using calculation assms(3) distinct_card [of ?vs] by simp
  then obtain a b where "?vs = [a, b]" by (cases ?vs; cases "tl ?vs") auto
  ultimately have "?vs = [i, j] \<or> ?vs = [j, i]"
    using assms(3) by (auto simp: doubleton_eq_iff)
  then show ?thesis using assms(3) by (auto simp: meant_for_def)
qed

lemma meant_for_alone:
  assumes "i < length exs" "\<forall>k < length exs. DeadDrop (exs ! k) = DeadDrop (exs ! i) \<longrightarrow> k = i"
  shows "meant_for exs i = EncryptedMessage (exs ! i)"
proof -
  let ?vs = "visitors exs (DeadDrop (exs ! i))"
  have "set ?vs = {i}" "distinct ?vs" using assms by (auto simp: set_visitors visitors_def)
  moreover have "length ?vs = 1" using calculation distinct_card [of ?vs] by simp
  ultimately have "?vs = [i]" by (cases ?vs; cases "tl ?vs") auto
  then show ?thesis by (simp add: meant_for_def)
qed

lemma meant_for_from_visitor:
  assumes "i < length exs"
  shows "\<exists>j < length exs. DeadDrop (exs ! j) = DeadDrop (exs ! i) \<and> meant_for exs i = EncryptedMessage (exs ! j)"
proof -
  let ?vs = "visitors exs (DeadDrop (exs ! i))"
  have all: "\<forall>j \<in> set ?vs. j < length exs \<and> DeadDrop (exs ! j) = DeadDrop (exs ! i)"
    by (simp add: set_visitors)
  have "?vs = [i] \<or> (\<exists>j k vs. ?vs = j # k # vs)"
  proof (cases ?vs)
    case (Cons j js)
    then show ?thesis using in_visitors [OF assms] by (cases js) auto
  qed (use in_visitors [OF assms] in simp)
  then consider "?vs = [i]" | j k vs where "?vs = j # k # vs" by blast
  then show ?thesis
  proof cases
    case 1
    then have "meant_for exs i = EncryptedMessage (exs ! i)" by (simp add: meant_for_def)
    then show ?thesis using assms by blast
  next
    case (2 j k vs)
    then have "meant_for exs i = EncryptedMessage (exs ! (if i = j then k else j))" by (simp add: meant_for_def)
    moreover have "(if i = j then k else j) \<in> set ?vs" using 2 by simp
    ultimately show ?thesis using all by blast
  qed
qed

section \<open>Properties\<close>

text \<open>
  C22: \<open>filterIncoming\<close> on messages of at least 8 bytes keeps, in order, the first message with each
  key, and nothing else; the index of a position is the place of its message among the kept ones,
  and -1 when the position held no message or a repeated one.
\<close>

theorem filterIncoming_spec:
  assumes "long_enough ms"
  shows "\<exists>valid index. filter_loop ms {} 0 = Ret (valid, index)
    \<and> length index = length ms \<and> distinct (map msgkey valid)
    \<and> (\<forall>msg. Some msg \<in> set ms \<longrightarrow> msgkey msg \<in> set (map msgkey valid))
    \<and> (\<forall>i < length ms. index ! i = - 1 \<or>
        (0 \<le> index ! i \<and> nat (index ! i) < length valid \<and> ms ! i = Some (valid ! nat (index ! i))))
    \<and> (\<forall>i < length ms. index ! i = - 1 \<longleftrightarrow>
        (\<forall>msg. ms ! i = Some msg \<longrightarrow> (\<exists>j < i. \<exists>m. ms ! j = Some m \<and> msgkey m = msgkey msg)))
    \<and> (\<forall>i j. i < j \<longrightarrow> j < length ms \<longrightarrow> 0 \<le> index ! i \<longrightarrow> 0 \<le> index ! j \<longrightarrow> index ! i < index ! j)"
proof -
  let ?valid = "map (\<lambda>i. the (ms ! i)) (kept {} ms)" and ?index = "map (rank {} ms) [0..<length ms]"
  have "filter_loop ms {} 0 = Ret (?valid, ?index)"
    unfolding filter_loop_spec [OF assms] by simp
  moreover have "?index ! i = - 1 \<or> (0 \<le> ?index ! i \<and> nat (?index ! i) < length ?valid \<and> ms ! i = Some (?valid ! nat (?index ! i)))"
    if "i < length ms" for i
    using kept_nth_rank [OF that, of "{}"] that by (cases "first_seen {} ms i") (auto simp: rank_def first_seen_def split: option.splits)
  moreover have "?index ! i = - 1 \<longleftrightarrow>
      (\<forall>msg. ms ! i = Some msg \<longrightarrow> (\<exists>j < i. \<exists>m. ms ! j = Some m \<and> msgkey m = msgkey msg))" if "i < length ms" for i
    using that by (auto simp: rank_def first_seen_def split: option.splits)
  moreover have "?index ! i < ?index ! j" if "i < j" "j < length ms" "0 \<le> ?index ! i" "0 \<le> ?index ! j" for i j
    using rank_mono [OF that(1), of "{}" ms] that by (simp add: rank_nonneg)
  moreover have "distinct (map msgkey ?valid)"
    using kept_keys_distinct [of ms "{}"] by (simp add: o_def)
  moreover have "msgkey msg \<in> set (map msgkey ?valid)" if "Some msg \<in> set ms" for msg
    using kept_keys_complete [OF that] by (simp add: image_image)
  moreover have "length ?index = length ms" by simp
  ultimately show ?thesis by blast
qed

theorem filterIncoming_spec_witness:
  "\<exists>valid index. filter_loop [Some (replicate 9 1), None, Some (replicate 8 1), Some (replicate 8 2)] {} 0 = Ret (valid, index)
    \<and> length index = 4 \<and> distinct (map msgkey valid)"
proof -
  have "long_enough [Some (replicate 9 1), None, Some (replicate 8 1), Some (replicate 8 2)]"
    by (auto simp: long_enough_def)
  from filterIncoming_spec [OF this] show ?thesis by auto
qed

text \<open>
  C7: the dead-drop exchange gives every exchange exactly one reply: its own message when nobody
  else accessed its drop, the second visitor's message to the first visitor, and the first visitor's
  to all the others; so two exchanges that alone share a drop swap their messages, and no reply comes
  from a drop that the receiver did not name.
\<close>

theorem dead_drop_exchange:
  "length (fst (exchange_all exs)) = length exs
    \<and> (\<forall>i < length exs. fst (exchange_all exs) ! i = meant_for exs i)
    \<and> (\<forall>i < length exs. \<exists>j < length exs. DeadDrop (exs ! j) = DeadDrop (exs ! i)
        \<and> fst (exchange_all exs) ! i = EncryptedMessage (exs ! j))
    \<and> (\<forall>i < length exs. (\<forall>k < length exs. DeadDrop (exs ! k) = DeadDrop (exs ! i) \<longrightarrow> k = i) \<longrightarrow>
        fst (exchange_all exs) ! i = EncryptedMessage (exs ! i))
    \<and> (\<forall>i j. i < length exs \<longrightarrow> j < length exs \<longrightarrow> i \<noteq> j \<longrightarrow> DeadDrop (exs ! i) = DeadDrop (exs ! j) \<longrightarrow>
        (\<forall>k < length exs. DeadDrop (exs ! k) = DeadDrop (exs ! i) \<longrightarrow> k = i \<or> k = j) \<longrightarrow>
        fst (exchange_all exs) ! i = EncryptedMessage (exs ! j) \<and> fst (exchange_all exs) ! j = EncryptedMessage (exs ! i))"
proof -
  have meant: "fst (exchange_all exs) ! i = meant_for exs i" if "i < length exs" for i
    using that by (simp add: exchange_all_replies reply_at_meant)
  have "fst (exchange_all exs) ! i = EncryptedMessage (exs ! j) \<and> fst (exchange_all exs) ! j = EncryptedMessage (exs ! i)"
    if "i < length exs" "j < length exs" "i \<noteq> j" "DeadDrop (exs ! i) = DeadDrop (exs ! j)"
      "\<forall>k < length exs. DeadDrop (exs ! k) = DeadDrop (exs ! i) \<longrightarrow> k = i \<or> k = j" for i j
    using meant [OF that(1)] meant [OF that(2)] meant_for_pair [OF that] meant_for_pair [of j exs i] that by metis
  with meant meant_for_alone meant_for_from_visitor show ?thesis by simp
qed

theorem dead_drop_exchange_witness:
  "fst (exchange_all [\<lparr>DeadDrop = [1], EncryptedMessage = [10]\<rparr>, \<lparr>DeadDrop = [2], EncryptedMessage = [20]\<rparr>,
      \<lparr>DeadDrop = [1], EncryptedMessage = [30]\<rparr>]) ! 0 = [30]"
proof -
  let ?exs = "[\<lparr>DeadDrop = [1], EncryptedMessage = [10]\<rparr>, \<lparr>DeadDrop = [2], EncryptedMessage = [20]\<rparr>,
      \<lparr>DeadDrop = [1], EncryptedMessage = [30]\<rparr>] :: ConvoExchange list"
  have "0 < length ?exs" "2 < length ?exs" "(0 :: nat) \<noteq> 2" "DeadDrop (?exs ! 0) = DeadDrop (?exs ! 2)"
    "\<forall>k < length ?exs. DeadDrop (?exs ! k) = DeadDrop (?exs ! 0) \<longrightarrow> k = 0 \<or> k = 2"
    by (auto simp: nth_Cons less_Suc_eq split: nat.splits)
  then have "fst (exchange_all ?exs) ! 0 = EncryptedMessage (?exs ! 2)"
    using dead_drop_exchange [of ?exs] by blast
  then show ?thesis by simp
qed

text \<open>
  The access counts the last server reports are the number of dead drops accessed exactly once
  and the number accessed at least twice.
\<close>

theorem access_counts:
  "snd (exchange_all exs) = (int (card {d. length (visitors exs d) = 1}), int (card {d. 2 \<le> length (visitors exs d)}))"
  by (simp add: exchange_all_def drops_loop_spec single_drops_def double_drops_def)

end
