(* ===== verification/Convo.thy ===== *)
theory Convo
  imports PKI Noise Laplace Vrpc DeadDrops Shuffle Spans "HOL-Library.Signed_Division"
begin

text \<open>
  The conversation service of a mix server, \<^verbatim>\<open>convo.go\<close>: the table of rounds, the handlers of the
  remote calls \<^verbatim>\<open>NewRound\<close>, \<^verbatim>\<open>Open\<close>, \<^verbatim>\<open>Add\<close>, \<^verbatim>\<open>Close\<close>, \<^verbatim>\<open>Get\<close> and \<^verbatim>\<open>Delete\<close>, and the client functions
  \<^verbatim>\<open>NewConvoRound\<close> and \<^verbatim>\<open>RunConvoRound\<close> that \<^verbatim>\<open>Close\<close> and the entry server call.

  \<^item> A handler is an \<open>action\<close> on the service.  It is one step: handlers of one service that run at the
    same time are run one after the other.  The exception is \<^verbatim>\<open>Close\<close>, which comes in two parts.
  \<^item> The mutex \<^verbatim>\<open>Idle\<close> is a flag.  Locking it while it is held does not return (\<open>Hang\<close>) as long as it is held,
    unlocking it while it is free is a fatal error (\<open>Panic\<close>).
  \<^item> The noise of a round is filled by a goroutine that \<^verbatim>\<open>Close\<close> waits for; nothing reads the slice
    in between, so \<open>NewRound\<close> fills it at once.
  \<^item> The next server is a record of calls on a state \<open>'c\<close>, a parameter of \<open>Close\<close>; \<open>Chain\<close> ties
    the knot.
  \<^item> A status 0 round is visible only while \<^verbatim>\<open>roundsMu\<close> is held, so a round starts as \<open>convoRoundNew\<close>.
\<close>

section \<open>State\<close>

datatype convoStatus = convoRoundNew | convoRoundOpen | convoRoundClosed

primrec status_num :: "convoStatus \<Rightarrow> nat" where
  "status_num convoRoundNew = 1"
| "status_num convoRoundOpen = 2"
| "status_num convoRoundClosed = 3"

record ConvoRound =
  status :: convoStatus
  numIncoming :: int
  sharedKeys :: "bytes option list"
  incoming :: "bytes option list"
  incomingIndex :: "int list"
  replies :: "bytes list"
  numFakeSingles :: int
  numFakeDoubles :: int
  noise :: "bytes option list"

record AccessCount =
  Singles :: int
  Doubles :: int

record ConvoService =
  rounds :: "u32 \<Rightarrow> ConvoRound option"
  Idle :: bool
  LaplaceMu :: real
  LaplaceB :: real
  srv_PKI :: PKI
  ServerName :: string
  PrivateKey :: bytes
  LastServer :: bool
  AccessCounts :: "AccessCount list"

text \<open>The zero round that \<^verbatim>\<open>&ConvoRound{srv: srv}\<close> allocates, with the status it leaves \<^verbatim>\<open>NewRound\<close> with.\<close>

definition new_round :: ConvoRound where
  "new_round = \<lparr>status = convoRoundNew, numIncoming = 0, sharedKeys = [], incoming = [], incomingIndex = [],
     replies = [], numFakeSingles = 0, numFakeDoubles = 0, noise = []\<rparr>"

definition InitConvoService :: "ConvoService \<Rightarrow> ConvoService" where
  "InitConvoService srv = srv\<lparr>rounds := Map.empty, AccessCounts := []\<rparr>"

definition put_round :: "u32 \<Rightarrow> ConvoRound \<Rightarrow> ConvoService \<Rightarrow> ConvoService" where
  "put_round Round rd srv = srv\<lparr>rounds := (rounds srv)(Round \<mapsto> rd)\<rparr>"

section \<open>Handlers\<close>

definition getRound :: "ConvoService \<Rightarrow> u32 \<Rightarrow> convoStatus \<Rightarrow> gerr + ConvoRound" where
  "getRound srv Round expectedStatus =
     (case rounds srv Round of
        None \<Rightarrow> Inl (RoundNotFound Round)
      | Some rd \<Rightarrow>
          if status rd \<noteq> expectedStatus
          then Inl (RoundStatus Round (status_num (status rd)) (status_num expectedStatus))
          else Inr rd)"

text \<open>
  The noise of a new round on a server that is not the last: two draws, the second made even, and
  the two parts of the slice filled.  \<^verbatim>\<open>make\<close> panics on a negative length and the slice expression
  on a bound outside the slice.
\<close>

definition convo_noise ::
  "nacl \<Rightarrow> float64 \<Rightarrow> ConvoService \<Rightarrow> u32 \<Rightarrow> rng \<Rightarrow> ((int \<times> int \<times> bytes option list) \<times> rng) outcome" where
  "convo_noise N F srv Round r =
     obind (of_opt (cappedFlooredLaplace F (LaplaceMu srv) (LaplaceB srv) r)) (\<lambda>(fakeSingles, r).
     obind (of_opt (cappedFlooredLaplace F (LaplaceMu srv) (LaplaceB srv) r)) (\<lambda>(fakeDoubles, r).
       let fakeDoubles = wrap_int (fakeDoubles + fakeDoubles smod 2);
           n = wrap_int (fakeSingles + fakeDoubles)
       in if n < 0 then Panic
          else obind (NextServerKeys (srv_PKI srv) (ServerName srv)) (\<lambda>nextKeys.
            if fakeSingles < 0 \<or> n < fakeSingles then Panic
            else obind (FillWithFakeSingles N (replicate (nat fakeSingles) None) (ForwardNonce Round) (Keys nextKeys) r)
              (\<lambda>(singles, r).
              obind (FillWithFakeDoubles N (replicate (nat (n - fakeSingles)) None) (ForwardNonce Round) (Keys nextKeys) r)
              (\<lambda>(doubles, r). Ret ((fakeSingles, fakeDoubles, singles @ doubles), r))))))"

definition Convo_NewRound :: "nacl \<Rightarrow> float64 \<Rightarrow> u32 \<Rightarrow> (ConvoService, unit) action" where
  "Convo_NewRound N F Round srv r =
     (if Idle srv then Hang
      else let srv = srv\<lparr>Idle := True\<rparr> in
        if rounds srv Round \<noteq> None then Ret (Inl (RoundExists Round), srv, r)
        else if \<not> LastServer srv then
          obind (convo_noise N F srv Round r) (\<lambda>((fakeSingles, fakeDoubles, fake), r).
            Ret (Inr (), put_round Round (new_round\<lparr>numFakeSingles := fakeSingles, numFakeDoubles := fakeDoubles,
              noise := fake\<rparr>) srv, r))
        else Ret (Inr (), put_round Round new_round srv, r))"

definition Convo_Open :: "u32 \<Rightarrow> int \<Rightarrow> (ConvoService, unit) action" where
  "Convo_Open Round NumIncoming srv r =
     (case getRound srv Round convoRoundNew of
        Inl err \<Rightarrow> Ret (Inl err, srv, r)
      | Inr rd \<Rightarrow>
          if NumIncoming < 0 then Panic
          else Ret (Inr (), put_round Round (rd\<lparr>numIncoming := NumIncoming,
            sharedKeys := replicate (nat NumIncoming) None,
            incoming := replicate (nat NumIncoming) None, status := convoRoundOpen\<rparr>) srv, r))"

text \<open>The loop of \<^verbatim>\<open>Add\<close> over the onions from position \<open>k\<close> on; the index is computed with wrap-around.\<close>

primrec add_onions :: "nacl \<Rightarrow> bytes \<Rightarrow> bytes \<Rightarrow> nat \<Rightarrow> int \<Rightarrow> nat \<Rightarrow> bytes list \<Rightarrow> ConvoRound \<Rightarrow> ConvoRound outcome" where
  "add_onions N nonce privateKey expectedOnionSize offset k [] rd = Ret rd"
| "add_onions N nonce privateKey expectedOnionSize offset k (onion # onions) rd =
     (let i = wrap_int (offset + int k)
      in if i < 0 \<or> int (length (sharedKeys rd)) \<le> i then Panic
         else let rd = rd\<lparr>sharedKeys := (sharedKeys rd)[nat i := Some (replicate 32 0)]\<rparr>
           in if length onion = expectedOnionSize then
                let (sharedKey, opened) = unwrap_layer N nonce privateKey onion;
                    rd = rd\<lparr>sharedKeys := (sharedKeys rd)[nat i := Some sharedKey]\<rparr>
                in case opened of
                     None \<Rightarrow> add_onions N nonce privateKey expectedOnionSize offset (k + 1) onions rd
                   | Some message \<Rightarrow>
                       if length (incoming rd) \<le> nat i then Panic
                       else add_onions N nonce privateKey expectedOnionSize offset (k + 1) onions
                         (rd\<lparr>incoming := (incoming rd)[nat i := Some message]\<rparr>)
              else add_onions N nonce privateKey expectedOnionSize offset (k + 1) onions rd)"

definition Convo_Add :: "nacl \<Rightarrow> u32 \<Rightarrow> int \<Rightarrow> bytes list \<Rightarrow> (ConvoService, unit) action" where
  "Convo_Add N Round Offset Onions srv r =
     (case getRound srv Round convoRoundOpen of
        Inl err \<Rightarrow> Ret (Inl err, srv, r)
      | Inr rd \<Rightarrow>
          let expectedOnionSize = IncomingOnionOverhead N (srv_PKI srv) (ServerName srv) + SizeConvoExchange N
          in if wrap_int (Offset + int (length Onions)) > numIncoming rd
             then Ret (Inl (OverflowingOnions Offset (length Onions) (numIncoming rd)), srv, r)
             else obind (add_onions N (ForwardNonce Round) (PrivateKey srv) expectedOnionSize Offset 0 Onions rd)
               (\<lambda>rd. Ret (Inr (), put_round Round rd srv, r)))"

definition filterIncoming :: "ConvoRound \<Rightarrow> ConvoRound outcome" where
  "filterIncoming rd =
     obind (filter_loop (incoming rd) {} 0) (\<lambda>(valid, index).
       Ret (rd\<lparr>incoming := map Some valid, incomingIndex := index\<rparr>))"

definition unlock_idle :: "ConvoService \<Rightarrow> ConvoService outcome" where
  "unlock_idle srv = (if Idle srv then Ret (srv\<lparr>Idle := False\<rparr>) else Panic)"

text \<open>An exchange as the last server decodes it: a message that does not decode leaves the zero value.\<close>

definition decode_exchange :: "nacl \<Rightarrow> bytes option \<Rightarrow> ConvoExchange" where
  "decode_exchange N msg =
     (case ConvoExchange_Unmarshal N (case msg of None \<Rightarrow> [] | Some m \<Rightarrow> m) of
        Inl err \<Rightarrow> \<lparr>DeadDrop = replicate 16 0, EncryptedMessage = replicate (SizeEncryptedMessage N) 0\<rparr>
      | Inr ex \<Rightarrow> ex)"

text \<open>The non-blocking send on the channel, which holds 8 values.\<close>

definition report_access :: "AccessCount \<Rightarrow> ConvoService \<Rightarrow> ConvoService" where
  "report_access ac srv =
     (if length (AccessCounts srv) < 8 then srv\<lparr>AccessCounts := AccessCounts srv @ [ac]\<rparr> else srv)"

section \<open>The next server\<close>

record 'c convo_client =
  call_NewRound :: "u32 \<Rightarrow> ('c, unit) action"
  call_Open :: "u32 \<Rightarrow> int \<Rightarrow> ('c, unit) action"
  call_Add :: "u32 \<Rightarrow> int \<Rightarrow> bytes list \<Rightarrow> ('c, unit) action"
  call_Close :: "u32 \<Rightarrow> ('c, unit) action"
  call_Get :: "u32 \<Rightarrow> int \<Rightarrow> int \<Rightarrow> ('c, bytes list) action"
  call_Delete :: "u32 \<Rightarrow> ('c, unit) action"

definition NewConvoRound :: "'c convo_client \<Rightarrow> u32 \<Rightarrow> ('c, unit) action" where
  "NewConvoRound client rd = call_NewRound client rd"

text \<open>\<^verbatim>\<open>copy(replies[span.Start:span.Start+span.Count], onions)\<close>\<close>

definition copy_span :: "Span \<Rightarrow> bytes list \<Rightarrow> bytes list \<Rightarrow> bytes list" where
  "copy_span sp onions reps =
     take (Start sp) reps @ copy_into (span_of reps sp) onions @ drop (Start sp + Count sp) reps"

text \<open>
  \<open>orders\<close> gives, for a number of calls, the orders in which the next server runs the \<^verbatim>\<open>Add\<close> and the
  \<^verbatim>\<open>Get\<close> calls.
\<close>

type_synonym schedule = "nat \<Rightarrow> nat list"

definition RunConvoRound ::
  "'c convo_client \<Rightarrow> schedule \<times> schedule \<Rightarrow> u32 \<Rightarrow> bytes list \<Rightarrow> ('c, bytes list) action" where
  "RunConvoRound client orders rd onions =
     attempt ''Open'' (call_Open client rd (int (length onions))) (\<lambda>_ c r.
       obind (Spans (length onions) 4000) (\<lambda>spans.
         attempt ''Add'' (CallMany (fst orders (length spans))
             (\<lambda>sp. call_Add client rd (int (Start sp)) (span_of onions sp)) spans) (\<lambda>_.
         attempt ''Close'' (call_Close client rd) (\<lambda>_.
         attempt ''Get'' (CallMany (snd orders (length spans))
             (\<lambda>sp. call_Get client rd (int (Start sp)) (int (Count sp))) spans) (\<lambda>results.
         attempt ''Delete'' (call_Delete client rd) (\<lambda>_.
         give (fold (\<lambda>(sp, res). copy_span sp res) (zip spans results) (replicate (length onions) [])))))) c r))"

text \<open>
  \<^verbatim>\<open>append(round.incoming, round.noise...)\<close> writes into the array of \<^verbatim>\<open>round.incoming\<close> when it has room:
  \<^verbatim>\<open>filterIncoming\<close> allocated it with room for the unfiltered batch.  Then shuffling permutes the
  array under \<^verbatim>\<open>round.incoming\<close> too.
\<close>

definition shared_prefix :: "nat \<Rightarrow> 'a list \<Rightarrow> 'a list \<Rightarrow> 'a list" where
  "shared_prefix room before shuffled =
     (if length shuffled \<le> room then take (length before) shuffled else before)"

text \<open>
  \<^verbatim>\<open>Close\<close> gives \<^verbatim>\<open>Idle\<close> back halfway, when other rounds may start although this one is still open, so it comes in
  two parts: up to \<^verbatim>\<open>srv.Idle.Unlock()\<close>, and from there to the end.  What the first hands to the second are the
  local variables that are still used.  The second finds the round where the first left it; one that was deleted
  meanwhile is an object that no other call reaches any more.
\<close>

datatype convo_rest =
    RelayRest Shuffler "bytes option list"
  | LastRest AccessCount

definition Convo_Close_begin :: "nacl \<Rightarrow> 'c convo_client \<Rightarrow> u32 \<Rightarrow> (ConvoService \<times> 'c, convo_rest) action" where
  "Convo_Close_begin N client Round = (\<lambda>(srv, c) r.
     case getRound srv Round convoRoundOpen of
       Inl err \<Rightarrow> Ret (Inl err, (srv, c), r)
     | Inr rd0 \<Rightarrow>
         obind (filterIncoming rd0) (\<lambda>rd.
         if \<not> LastServer srv then
           let outgoing = incoming rd @ noise rd
           in obind (NewShuffler r (length outgoing)) (\<lambda>(shuffler, r).
              obind (Shuffle shuffler outgoing) (\<lambda>shuffled.
              let rd = rd\<lparr>noise := [], incoming := shared_prefix (length (incoming rd0)) (incoming rd) shuffled\<rparr>;
                  srv = put_round Round rd srv
              in obind (NewConvoRound client Round c r) (\<lambda>(res, c, r).
                 case res of
                   Inl err \<Rightarrow> Ret (Inl (Wrapped ''NewConvoRound'' err), (srv, c), r)
                 | Inr _ \<Rightarrow> obind (unlock_idle srv) (\<lambda>srv. Ret (Inr (RelayRest shuffler shuffled), (srv, c), r)))))
         else
           let exchanges = map (decode_exchange N) (incoming rd);
               (reps, singles, doubles) = exchange_all exchanges;
               srv = put_round Round (rd\<lparr>replies := reps\<rparr>) srv
           in obind (unlock_idle srv) (\<lambda>srv. Ret (Inr (LastRest \<lparr>Singles = singles, Doubles = doubles\<rparr>), (srv, c), r))))"

definition Convo_Close_end ::
  "'c convo_client \<Rightarrow> schedule \<times> schedule \<Rightarrow> u32 \<Rightarrow> convo_rest \<Rightarrow> (ConvoService \<times> 'c, unit) action" where
  "Convo_Close_end client orders Round rest = (\<lambda>(srv, c) r.
     case rest of
       RelayRest shuffler outgoing \<Rightarrow>
         obind (RunConvoRound client orders Round (map (case_option [] id) outgoing) c r) (\<lambda>(res, c, r).
         case res of
           Inl err \<Rightarrow> Ret (Inl (Wrapped ''RunConvoRound'' err), (srv, c), r)
         | Inr reps \<Rightarrow>
             obind (Unshuffle shuffler reps) (\<lambda>reps.
             case rounds srv Round of
               None \<Rightarrow> Ret (Inr (), (srv, c), r)
             | Some rd \<Rightarrow>
                 if numIncoming rd < 0 \<or> int (length reps) < numIncoming rd then Panic
                 else Ret (Inr (), (put_round Round (rd\<lparr>replies := take (nat (numIncoming rd)) reps, status := convoRoundClosed\<rparr>) srv, c), r)))
     | LastRest ac \<Rightarrow>
         let srv = report_access ac srv
         in case rounds srv Round of
              None \<Rightarrow> Ret (Inr (), (srv, c), r)
            | Some rd \<Rightarrow> Ret (Inr (), (put_round Round (rd\<lparr>status := convoRoundClosed\<rparr>) srv, c), r))"

definition Convo_Close ::
  "nacl \<Rightarrow> 'c convo_client \<Rightarrow> schedule \<times> schedule \<Rightarrow> u32 \<Rightarrow> (ConvoService \<times> 'c, unit) action" where
  "Convo_Close N client orders Round x r =
     obind (Convo_Close_begin N client Round x r) (\<lambda>(res, x, r).
       case res of
         Inl err \<Rightarrow> Ret (Inl err, x, r)
       | Inr rest \<Rightarrow> Convo_Close_end client orders Round rest x r)"

text \<open>The loop of \<^verbatim>\<open>Get\<close> for position \<open>k\<close> of the result.\<close>

definition get_onion :: "nacl \<Rightarrow> bytes \<Rightarrow> nat \<Rightarrow> int \<Rightarrow> ConvoRound \<Rightarrow> nat \<Rightarrow> rng \<Rightarrow> (bytes \<times> rng) outcome" where
  "get_onion N nonce outgoingOnionSize Offset rd k r =
     (let i = wrap_int (Offset + int k)
      in if i < 0 then Panic
         else obind (idx (incomingIndex rd) (nat i)) (\<lambda>v.
           obind (if v > - 1 then
                    obind (idx (replies rd) (nat v)) (\<lambda>reply.
                    obind (idx (sharedKeys rd) (nat i)) (\<lambda>key.
                    obind (deref key) (\<lambda>key. Ret (box_SealAfterPrecomputation N reply nonce key))))
                  else Ret []) (\<lambda>onion.
           if length onion \<noteq> outgoingOnionSize then Ret (rread outgoingOnionSize r) else Ret (onion, r))))"

definition Convo_Get :: "nacl \<Rightarrow> u32 \<Rightarrow> int \<Rightarrow> int \<Rightarrow> (ConvoService, bytes list) action" where
  "Convo_Get N Round Offset Cnt srv r =
     (case getRound srv Round convoRoundClosed of
        Inl err \<Rightarrow> Ret (Inl err, srv, r)
      | Inr rd \<Rightarrow>
          let outgoingOnionSize = OutgoingOnionOverhead N (srv_PKI srv) (ServerName srv) + SizeEncryptedMessage N
          in if Cnt < 0 then Panic
             else obind (omap (get_onion N (BackwardNonce Round) outgoingOnionSize Offset rd) [0..<nat Cnt] r)
               (\<lambda>(onions, r). Ret (Inr onions, srv, r)))"

definition Convo_Delete :: "u32 \<Rightarrow> (ConvoService, unit) action" where
  "Convo_Delete Round srv r = Ret (Inr (), srv\<lparr>rounds := (rounds srv)(Round := None)\<rparr>, r)"

section \<open>Close in one go\<close>

text \<open>The two parts of \<^verbatim>\<open>Close\<close> when nothing happens in between.\<close>

lemma Convo_Close_eq:
  "Convo_Close N client orders Round = (\<lambda>(srv, c) r.
     case getRound srv Round convoRoundOpen of
       Inl err \<Rightarrow> Ret (Inl err, (srv, c), r)
     | Inr rd0 \<Rightarrow>
         obind (filterIncoming rd0) (\<lambda>rd.
         if \<not> LastServer srv then
           let outgoing = incoming rd @ noise rd
           in obind (NewShuffler r (length outgoing)) (\<lambda>(shuffler, r).
              obind (Shuffle shuffler outgoing) (\<lambda>shuffled.
              let rd = rd\<lparr>noise := [], incoming := shared_prefix (length (incoming rd0)) (incoming rd) shuffled\<rparr>;
                  srv = put_round Round rd srv
              in obind (NewConvoRound client Round c r) (\<lambda>(res, c, r).
                 case res of
                   Inl err \<Rightarrow> Ret (Inl (Wrapped ''NewConvoRound'' err), (srv, c), r)
                 | Inr _ \<Rightarrow>
                     obind (unlock_idle srv) (\<lambda>srv.
                     obind (RunConvoRound client orders Round (map (case_option [] id) shuffled) c r) (\<lambda>(res, c, r).
                     case res of
                       Inl err \<Rightarrow> Ret (Inl (Wrapped ''RunConvoRound'' err), (srv, c), r)
                     | Inr reps \<Rightarrow>
                         obind (Unshuffle shuffler reps) (\<lambda>reps.
                         if numIncoming rd < 0 \<or> int (length reps) < numIncoming rd then Panic
                         else Ret (Inr (), (put_round Round
                           (rd\<lparr>replies := take (nat (numIncoming rd)) reps, status := convoRoundClosed\<rparr>) srv, c), r)))))))
         else
           let (reps, singles, doubles) = exchange_all (map (decode_exchange N) (incoming rd))
           in obind (unlock_idle srv) (\<lambda>srv.
                Ret (Inr (), (put_round Round (rd\<lparr>replies := reps, status := convoRoundClosed\<rparr>)
                  (report_access \<lparr>Singles = singles, Doubles = doubles\<rparr> srv), c), r))))"
    (is "_ = ?rhs")
proof -
  note defs = Convo_Close_def Convo_Close_begin_def Convo_Close_end_def Let_def unlock_idle_def put_round_def report_access_def
  have "Convo_Close N client orders Round (srv, c) r = ?rhs (srv, c) r" for srv c r
    by (cases "getRound srv Round convoRoundOpen"; cases "LastServer srv") (simp_all add: defs split: obind_split sum.split prod.split)
  then have "Convo_Close N client orders Round x r = ?rhs x r" for x r by (cases x) (simp only: prod.case)
  then show ?thesis by (intro ext)
qed

end
