(* ===== verification/Rounds.thy ===== *)
theory Rounds
  imports Convo
begin

text \<open>
  What the handlers of the conversation service do to a round: the batch that a sequence of \<^verbatim>\<open>Add\<close>
  calls builds up in any order, the onions \<^verbatim>\<open>Get\<close> returns, the invariant every handler keeps, the order
  of the statuses, and the error paths.
\<close>

section \<open>Building up a batch\<close>

text \<open>The content and the shared key a server with private key \<open>sk\<close>, expecting onions of \<open>sz\<close> bytes, finds.\<close>

definition server_open :: "nacl \<Rightarrow> u32 \<Rightarrow> bytes \<Rightarrow> nat \<Rightarrow> bytes \<Rightarrow> bytes option" where
  "server_open N Round sk sz onion =
     (if length onion = sz then snd (unwrap_layer N (ForwardNonce Round) sk onion) else None)"

definition server_key :: "nacl \<Rightarrow> u32 \<Rightarrow> bytes \<Rightarrow> nat \<Rightarrow> bytes \<Rightarrow> bytes" where
  "server_key N Round sk sz onion =
     (if length onion = sz then fst (unwrap_layer N (ForwardNonce Round) sk onion) else replicate 32 0)"

text \<open>The round once the onions at the positions in \<open>C\<close> have arrived.\<close>

definition batch_round :: "nacl \<Rightarrow> u32 \<Rightarrow> bytes \<Rightarrow> nat \<Rightarrow> bytes list \<Rightarrow> nat set \<Rightarrow> ConvoRound \<Rightarrow> ConvoRound" where
  "batch_round N Round sk sz onions C rd =
     rd\<lparr>sharedKeys := map (\<lambda>i. if i \<in> C then Some (server_key N Round sk sz (onions ! i)) else None) [0..<length onions],
        incoming := map (\<lambda>i. if i \<in> C then server_open N Round sk sz (onions ! i) else None) [0..<length onions]\<rparr>"

lemma batch_round_simps [simp]:
  "status (batch_round N Round sk sz onions C rd) = status rd"
  "numIncoming (batch_round N Round sk sz onions C rd) = numIncoming rd"
  "noise (batch_round N Round sk sz onions C rd) = noise rd"
  "length (sharedKeys (batch_round N Round sk sz onions C rd)) = length onions"
  "length (incoming (batch_round N Round sk sz onions C rd)) = length onions"
  by (simp_all add: batch_round_def)

lemma map_upd_insert:
  "i < n \<Longrightarrow> (map (\<lambda>j. if j \<in> C then f j else g j) [0..<n])[i := f i] = map (\<lambda>j. if j \<in> insert i C then f j else g j) [0..<n]"
  by (rule nth_equalityI) (auto simp: nth_list_update)

lemma map_insert_same:
  "i < n \<Longrightarrow> f i = g i \<Longrightarrow> map (\<lambda>j. if j \<in> insert i C then f j else g j) [0..<n] = map (\<lambda>j. if j \<in> C then f j else g j) [0..<n]"
  by (rule nth_equalityI) auto

lemma add_onions_batch:
  assumes "length onions < 2 ^ 62" "off + k + length xs \<le> length onions" "xs = take (length xs) (drop (off + k) onions)"
  shows "add_onions N (ForwardNonce Round) sk sz (int off) k xs (batch_round N Round sk sz onions C rd) =
    Ret (batch_round N Round sk sz onions (C \<union> {off + k..<off + k + length xs}) rd)"
  using assms(2,3)
proof (induction xs arbitrary: k C)
  case Nil
  then show ?case by simp
next
  case (Cons x xs)
  let ?i = "off + k"
  have i: "?i < length onions" using Cons.prems(1) by simp
  have x: "x = onions ! ?i" and xs: "xs = take (length xs) (drop (off + (k + 1)) onions)"
    using Cons.prems(2) i by (auto simp: Cons_nth_drop_Suc [symmetric])
  have w: "wrap_int (int off + int k) = int ?i"
    using i assms(1) by (simp add: wrap_int_id)
  have next_round: "add_onions N (ForwardNonce Round) sk sz (int off) (k + 1) xs (batch_round N Round sk sz onions (insert ?i C) rd) =
      Ret (batch_round N Round sk sz onions (C \<union> {?i..<?i + length (x # xs)}) rd)"
  proof -
    have "insert ?i C \<union> {off + (k + 1)..<off + (k + 1) + length xs} = C \<union> {?i..<?i + length (x # xs)}" by auto
    then show ?thesis using Cons.IH [of "k + 1" "insert ?i C", OF _ xs] Cons.prems(1) by simp
  qed
  have key: "(map (\<lambda>j. if j \<in> C then Some (server_key N Round sk sz (onions ! j)) else None) [0..<length onions])
        [?i := Some (server_key N Round sk sz x)] =
      map (\<lambda>j. if j \<in> insert ?i C then Some (server_key N Round sk sz (onions ! j)) else None) [0..<length onions]"
    unfolding x by (rule map_upd_insert [OF i])
  have opn: "(map (\<lambda>j. if j \<in> C then server_open N Round sk sz (onions ! j) else None) [0..<length onions])
        [?i := server_open N Round sk sz x] =
      map (\<lambda>j. if j \<in> insert ?i C then server_open N Round sk sz (onions ! j) else None) [0..<length onions]"
    unfolding x by (rule map_upd_insert [OF i])
  have none: "map (\<lambda>j. if j \<in> insert ?i C then server_open N Round sk sz (onions ! j) else None) [0..<length onions] =
      map (\<lambda>j. if j \<in> C then server_open N Round sk sz (onions ! j) else None) [0..<length onions]"
    if "server_open N Round sk sz x = None"
    by (rule map_insert_same [OF i]) (use that x in simp)
  let ?rd = "batch_round N Round sk sz onions C rd" and ?rd' = "batch_round N Round sk sz onions (insert ?i C) rd"
  have step: "?rd' = (case server_open N Round sk sz x of
      None \<Rightarrow> ?rd\<lparr>sharedKeys := (sharedKeys ?rd)[?i := Some (server_key N Round sk sz x)]\<rparr>
    | Some m \<Rightarrow> ?rd\<lparr>sharedKeys := (sharedKeys ?rd)[?i := Some (server_key N Round sk sz x)], incoming := (incoming ?rd)[?i := Some m]\<rparr>)"
    using key opn none by (cases "server_open N Round sk sz x") (simp_all add: batch_round_def)
  have "add_onions N (ForwardNonce Round) sk sz (int off) k (x # xs) ?rd =
      add_onions N (ForwardNonce Round) sk sz (int off) (k + 1) xs ?rd'"
    unfolding step using i
    by (cases "unwrap_layer N (ForwardNonce Round) sk x")
      (auto simp: w nat_int_add server_open_def server_key_def Let_def split: option.splits)
  with next_round show ?case by simp
qed


text \<open>\<^verbatim>\<open>Open\<close> starts the batch and \<^verbatim>\<open>Add\<close> with a piece of it extends it.\<close>

lemma getRound_put [simp]: "getRound (put_round Round rd srv) Round st =
    (if status rd \<noteq> st then Inl (RoundStatus Round (status_num (status rd)) (status_num st)) else Inr rd)"
  by (simp add: getRound_def put_round_def)

lemma put_round_simps [simp]:
  "rounds (put_round Round rd srv) Round = Some rd"
  "put_round Round rd (put_round Round rd' srv) = put_round Round rd srv"
  "Idle (put_round Round rd srv) = Idle srv"
  "srv_PKI (put_round Round rd srv) = srv_PKI srv"
  "ServerName (put_round Round rd srv) = ServerName srv"
  "PrivateKey (put_round Round rd srv) = PrivateKey srv"
  "LastServer (put_round Round rd srv) = LastServer srv"
  "LaplaceMu (put_round Round rd srv) = LaplaceMu srv"
  "LaplaceB (put_round Round rd srv) = LaplaceB srv"
  "AccessCounts (put_round Round rd srv) = AccessCounts srv"
  by (simp_all add: put_round_def)

abbreviation onion_size :: "nacl \<Rightarrow> ConvoService \<Rightarrow> nat" where
  "onion_size N srv \<equiv> IncomingOnionOverhead N (srv_PKI srv) (ServerName srv) + SizeConvoExchange N"

definition batch_at :: "nacl \<Rightarrow> u32 \<Rightarrow> bytes list \<Rightarrow> nat set \<Rightarrow> ConvoRound \<Rightarrow> ConvoService \<Rightarrow> ConvoService" where
  "batch_at N Round onions C rd srv =
     put_round Round (batch_round N Round (PrivateKey srv) (onion_size N srv) onions C
       (rd\<lparr>numIncoming := int (length onions), status := convoRoundOpen\<rparr>)) srv"

lemma Convo_Open_batch:
  assumes "getRound srv Round convoRoundNew = Inr rd"
  shows "Convo_Open Round (int (length onions)) srv r = Ret (Inr (), batch_at N Round onions {} rd srv, r)"
  using assms by (cases rd) (simp add: Convo_Open_def batch_at_def batch_round_def map_replicate_const)

lemma Convo_Add_batch:
  assumes "length onions < 2 ^ 62" "off + length xs \<le> length onions" "xs = take (length xs) (drop off onions)"
  shows "Convo_Add N Round (int off) xs (batch_at N Round onions C rd srv) r =
    Ret (Inr (), batch_at N Round onions (C \<union> {off..<off + length xs}) rd srv, r)"
proof -
  have w: "wrap_int (int off + int (length xs)) = int off + int (length xs)"
    using assms(1,2) by (intro wrap_int_id) simp_all
  have le: "\<not> int (length onions) < int off + int (length xs)" using assms(2) by linarith
  show ?thesis
    using add_onions_batch [OF assms(1), of off 0 xs N Round "PrivateKey srv" "onion_size N srv" C] assms(2,3)
    by (simp add: Convo_Add_def batch_at_def w le)
qed

section \<open>The invariant\<close>

text \<open>
  Every message and every noise onion of a round has the size \<open>m\<close> that the next server expects, the
  slices have the lengths the handlers index them with, and a closed round's index points into its
  replies.
\<close>

definition round_ok :: "nat \<Rightarrow> ConvoRound \<Rightarrow> bool" where
  "round_ok m rd \<longleftrightarrow> 0 \<le> numIncoming rd
     \<and> (\<forall>msg. Some msg \<in> set (incoming rd) \<longrightarrow> length msg = m)
     \<and> (\<forall>onion \<in> set (noise rd). \<exists>b. onion = Some b \<and> length b = m)
     \<and> (status rd = convoRoundNew \<longrightarrow> incoming rd = [])
     \<and> (status rd \<noteq> convoRoundNew \<longrightarrow> length (sharedKeys rd) = nat (numIncoming rd) \<and> length (incoming rd) \<le> nat (numIncoming rd))
     \<and> (status rd = convoRoundClosed \<longrightarrow> length (incomingIndex rd) \<le> nat (numIncoming rd)
         \<and> (\<forall>v \<in> set (incomingIndex rd). v = - 1 \<or> 0 \<le> v \<and> nat v < length (replies rd)))"

definition content_size :: "nacl \<Rightarrow> ConvoService \<Rightarrow> nat" where
  "content_size N srv = onion_size N srv - 48"

definition convo_inv :: "nacl \<Rightarrow> ConvoService \<Rightarrow> bool" where
  "convo_inv N srv \<longleftrightarrow> pki_ok (srv_PKI srv) \<and> (\<forall>Round rd. rounds srv Round = Some rd \<longrightarrow> round_ok (content_size N srv) rd)"

lemma content_size_put [simp]: "content_size N (put_round Round rd srv) = content_size N srv"
  by (simp add: content_size_def)

lemma convo_inv_put:
  "convo_inv N srv \<Longrightarrow> round_ok (content_size N srv) rd \<Longrightarrow> convo_inv N (put_round Round rd srv)"
  by (simp add: convo_inv_def) (simp add: put_round_def)

lemma convo_inv_get: "convo_inv N srv \<Longrightarrow> getRound srv Round st = Inr rd \<Longrightarrow> round_ok (content_size N srv) rd \<and> status rd = st"
  by (auto simp: convo_inv_def getRound_def split: option.splits if_splits)

lemma convo_inv_idle: "convo_inv N (srv\<lparr>Idle := b\<rparr>) = convo_inv N srv"
  by (simp add: convo_inv_def content_size_def)

lemma content_size_frame [simp]:
  "content_size N (report_access ac srv) = content_size N srv" "content_size N (srv\<lparr>Idle := b\<rparr>) = content_size N srv"
  by (simp_all add: content_size_def report_access_def)

lemma convo_inv_counts: "convo_inv N (report_access ac srv) = convo_inv N srv"
  by (simp add: convo_inv_def content_size_def report_access_def)

lemma server_next_keys:
  assumes "pki_ok pki"
  shows "\<exists>ks. NextServerKeys pki name = Ret ks \<and> IncomingOnionOverhead N pki name = (length ks + 1) * onionbox_Overhead N"
proof -
  have "Index pki name < length (ServerOrder pki)"
    using assms by (intro Index_less) (simp add: pki_ok_def)
  then have "length (ServerOrder pki) - Index pki name = length (ServerOrder pki) - (Index pki name + 1) + 1" by linarith
  then show ?thesis using NextServerKeys_ok [OF assms] by (simp add: IncomingOnionOverhead_def)
qed

lemma content_size_eq:
  assumes "nacl_ok N" "NextServerKeys (srv_PKI srv) (ServerName srv) = Ret ks" "pki_ok (srv_PKI srv)"
  shows "content_size N srv = SizeConvoExchange N + length ks * 48"
  using server_next_keys [OF assms(3), of "ServerName srv" N] assms(1,2)
  by (auto simp: content_size_def wire_simps)

lemma content_size_ge: "nacl_ok N \<Longrightarrow> pki_ok (srv_PKI srv) \<Longrightarrow> 272 \<le> content_size N srv"
  using content_size_eq [of N srv] server_next_keys [of "srv_PKI srv" "ServerName srv" N]
  by (auto simp: SizeConvoExchange_eq)

lemma convo_noise_ok:
  assumes N: "nacl_ok N" and pki: "pki_ok (srv_PKI srv)"
    and run: "convo_noise N F srv Round r = Ret ((singles, doubles, fake), r')"
  shows "\<forall>onion \<in> set fake. \<exists>b. onion = Some b \<and> length b = content_size N srv"
    "0 \<le> singles" "0 \<le> doubles" "even doubles" "int (length fake) = singles + doubles"
proof -
  obtain r1 d0 r2 ks n xs r3 ys where s0: "cappedFlooredLaplace F (LaplaceMu srv) (LaplaceB srv) r = Some (singles, r1)"
    and d0: "cappedFlooredLaplace F (LaplaceMu srv) (LaplaceB srv) r1 = Some (d0, r2)"
    and doubles: "doubles = wrap_int (d0 + d0 smod 2)" and n: "n = wrap_int (singles + doubles)" "0 \<le> n" "0 \<le> singles" "singles \<le> n"
    and ks: "NextServerKeys (srv_PKI srv) (ServerName srv) = Ret ks"
    and xs: "FillWithFakeSingles N (replicate (nat singles) None) (ForwardNonce Round) ks r2 = Ret (xs, r3)"
    and ys: "FillWithFakeDoubles N (replicate (nat (n - singles)) None) (ForwardNonce Round) ks r3 = Ret (ys, r')"
    and fake: "fake = xs @ ys"
    using run by (auto simp: convo_noise_def outcome_simps Let_def not_less split: if_splits)
  have "singles < 2 ^ 63" "doubles < 2 ^ 63" "- (2 ^ 63) \<le> doubles"
    using cappedFlooredLaplace_range [OF s0] wrap_int_range doubles by auto
  then have sum: "n = singles + doubles"
    using wrap_int_sum [of singles doubles] n by simp
  have "d0 + d0 smod 2 = 2 * (d0 sdiv 2 + d0 smod 2)"
    using sdiv_mult_smod_eq [of d0 2] by simp
  then have ev: "even doubles" unfolding doubles even_wrap_int by (simp only: dvd_triv_left)
  show "0 \<le> singles" "0 \<le> doubles" "even doubles" using n ev sum by simp_all
  have "even (length (replicate (nat (n - singles)) (None :: bytes option)))"
    using ev sum n by (simp add: even_nat_iff)
  note ys_all = FillWithFakeDoubles_all [OF N ys this]
  note xs_all = FillWithFakeSingles_all [OF N xs]
  show "int (length fake) = singles + doubles" using xs_all ys_all n sum by (simp add: fake)
  show "\<forall>onion \<in> set fake. \<exists>b. onion = Some b \<and> length b = content_size N srv"
    using xs_all ys_all content_size_eq [OF N ks pki] by (auto simp: fake)
qed

subsection \<open>Each handler keeps it\<close>

lemma convo_inv_NewRound:
  assumes "nacl_ok N" "convo_inv N srv" "Convo_NewRound N F Round srv r = Ret (res, srv', r')"
  shows "convo_inv N srv'"
proof -
  have srv: "convo_inv N (srv\<lparr>Idle := True\<rparr>)" using assms(2) by (simp add: convo_inv_idle)
  have pki: "pki_ok (srv_PKI (srv\<lparr>Idle := True\<rparr>))" using assms(2) by (simp add: convo_inv_def)
  have "convo_inv N (put_round Round (new_round\<lparr>numFakeSingles := s, numFakeDoubles := d, noise := fake\<rparr>) (srv\<lparr>Idle := True\<rparr>))"
    if "convo_noise N F (srv\<lparr>Idle := True\<rparr>) Round r = Ret ((s, d, fake), r1)" for s d fake r1
    using srv convo_noise_ok(1) [OF assms(1) pki that]
    by (intro convo_inv_put) (auto simp: round_ok_def new_round_def)
  moreover have "convo_inv N (put_round Round new_round (srv\<lparr>Idle := True\<rparr>))"
    using srv by (intro convo_inv_put) (auto simp: round_ok_def new_round_def)
  ultimately show ?thesis
    using assms(3) srv by (auto simp: Convo_NewRound_def Let_def outcome_simps split: if_splits)
qed

lemma convo_inv_Open:
  assumes "convo_inv N srv" "Convo_Open Round n srv r = Ret (res, srv', r')"
  shows "convo_inv N srv'"
proof (cases "getRound srv Round convoRoundNew")
  case (Inl err)
  then show ?thesis using assms by (simp add: Convo_Open_def)
next
  case (Inr rd)
  note rd = convo_inv_get [OF assms(1) Inr]
  show ?thesis
    using assms rd Inr
    by (auto simp: Convo_Open_def round_ok_def intro!: convo_inv_put split: if_splits)
qed

lemma unwrap_layer_length:
  "nacl_ok N \<Longrightarrow> unwrap_layer N nonce sk onion = (k, Some m) \<Longrightarrow> length m = length onion - 48"
  using nacl_open_length [of N "drop 32 onion" nonce _ m] by (fastforce simp: unwrap_layer_def Let_def)

lemma add_onions_ok:
  assumes "nacl_ok N" "add_onions N nonce sk sz off k onions rd = Ret rd'" "round_ok (sz - 48) rd" "status rd = convoRoundOpen"
  shows "round_ok (sz - 48) rd' \<and> status rd' = convoRoundOpen"
  using assms(2-4)
proof (induction onions arbitrary: k rd)
  case Nil
  then show ?case by simp
next
  case (Cons onion onions)
  let ?i = "nat (wrap_int (off + int k))"
  let ?keys = "\<lambda>key. rd\<lparr>sharedKeys := (sharedKeys rd)[?i := Some key]\<rparr>"
  have keys: "round_ok (sz - 48) (?keys key) \<and> status (?keys key) = convoRoundOpen" for key
    using Cons.prems by (simp add: round_ok_def)
  have msg: "round_ok (sz - 48) (?keys key\<lparr>incoming := (incoming rd)[?i := Some m]\<rparr>)" if "length m = sz - 48" for key m
    using Cons.prems that set_update_subset_insert [of "incoming rd" ?i "Some m"] by (auto simp: round_ok_def)
  obtain key opened where u: "unwrap_layer N nonce sk onion = (key, opened)" by fastforce
  have m: "length m = sz - 48" if "opened = Some m" "length onion = sz" for m
    using unwrap_layer_length [OF assms(1), of nonce sk onion key m] u that by simp
  show ?case
    using Cons.prems Cons.IH keys msg m
    by (auto simp: Let_def u split: if_splits option.splits)
qed

lemma convo_inv_Add:
  assumes "nacl_ok N" "convo_inv N srv" "Convo_Add N Round off onions srv r = Ret (res, srv', r')"
  shows "convo_inv N srv'"
proof (cases "getRound srv Round convoRoundOpen")
  case (Inl err)
  then show ?thesis using assms by (simp add: Convo_Add_def)
next
  case (Inr rd)
  note rd = convo_inv_get [OF assms(2) Inr]
  have "round_ok (content_size N srv) rd'"
    if "add_onions N (ForwardNonce Round) (PrivateKey srv) (onion_size N srv) off 0 onions rd = Ret rd'" for rd'
    using add_onions_ok [OF assms(1) that] rd by (simp add: content_size_def)
  then show ?thesis
    using assms(2,3) Inr
    by (auto simp: Convo_Add_def Let_def outcome_simps intro!: convo_inv_put split: if_splits)
qed

lemma convo_inv_Get:
  "convo_inv N srv \<Longrightarrow> Convo_Get N Round off cnt srv r = Ret (res, srv', r') \<Longrightarrow> srv' = srv"
  by (auto simp: Convo_Get_def Let_def outcome_simps split: if_splits sum.splits)

lemma convo_inv_Delete:
  "convo_inv N srv \<Longrightarrow> Convo_Delete Round srv r = Ret (res, srv', r') \<Longrightarrow> convo_inv N srv'"
  by (auto simp: Convo_Delete_def convo_inv_def content_size_def split: if_splits)

subsection \<open>Closing\<close>

lemma round_ok_long_enough: "round_ok m rd \<Longrightarrow> 8 \<le> m \<Longrightarrow> long_enough (incoming rd)"
  by (auto simp: round_ok_def long_enough_def)

definition kept_messages :: "bytes option list \<Rightarrow> bytes list" where
  "kept_messages ms = map (\<lambda>i. the (ms ! i)) (kept {} ms)"

lemma filterIncoming_eq:
  assumes "long_enough (incoming rd)"
  shows "filterIncoming rd = Ret (rd\<lparr>incoming := map Some (kept_messages (incoming rd)),
    incomingIndex := map (rank {} (incoming rd)) [0..<length (incoming rd)]\<rparr>)"
  unfolding filterIncoming_def filter_loop_spec [OF assms] by (simp add: kept_messages_def)

lemma kept_messages_subset: "msg \<in> set (kept_messages ms) \<Longrightarrow> Some msg \<in> set ms"
proof -
  assume "msg \<in> set (kept_messages ms)"
  then obtain i where i: "i < length ms" "first_seen {} ms i" "msg = the (ms ! i)"
    by (auto simp: kept_messages_def kept_def)
  then have "Some msg = ms ! i" by (auto simp: first_seen_def split: option.splits)
  with nth_mem [OF i(1)] show ?thesis by simp
qed

lemma length_kept_messages: "length (kept_messages ms) \<le> length ms"
  by (simp add: kept_messages_def length_kept)

lemma rank_in_range: "i < length ms \<Longrightarrow> rank {} ms i = - 1 \<or> 0 \<le> rank {} ms i \<and> nat (rank {} ms i) < length (kept_messages ms)"
  using kept_nth_rank(1) [of i ms "{}"] by (auto simp: kept_messages_def rank_def)

text \<open>The three ways the relaying branch of \<open>Close\<close> returns.\<close>

lemma Convo_Close_relay:
  assumes "Convo_Close N client orders Round (srv, c) r = Ret (res, (srv', c'), r')"
    "getRound srv Round convoRoundOpen = Inr rd0" "filterIncoming rd0 = Ret rd" "\<not> LastServer srv"
  obtains shuffler r1 shuffled rd1 resN c1 r2 where
    "NewShuffler r (length (incoming rd @ noise rd)) = Ret (shuffler, r1)"
    "Shuffle shuffler (incoming rd @ noise rd) = Ret shuffled"
    "rd1 = rd\<lparr>noise := [], incoming := shared_prefix (length (incoming rd0)) (incoming rd) shuffled\<rparr>"
    "NewConvoRound client Round c r1 = Ret (resN, c1, r2)"
    "(\<exists>err. resN = Inl err \<and> res = Inl (Wrapped ''NewConvoRound'' err) \<and> srv' = put_round Round rd1 srv \<and> c' = c1)
     \<or> (resN = Inr () \<and> Idle srv \<and> (\<exists>resR r3. RunConvoRound client orders Round (map (case_option [] id) shuffled) c1 r2 = Ret (resR, c', r3)
       \<and> ((\<exists>err. resR = Inl err \<and> res = Inl (Wrapped ''RunConvoRound'' err) \<and> srv' = (put_round Round rd1 srv)\<lparr>Idle := False\<rparr>)
         \<or> (\<exists>reps reps'. resR = Inr reps \<and> res = Inr () \<and> Unshuffle shuffler reps = Ret reps'
            \<and> 0 \<le> numIncoming rd \<and> numIncoming rd \<le> int (length reps')
            \<and> srv' = put_round Round (rd1\<lparr>replies := take (nat (numIncoming rd)) reps', status := convoRoundClosed\<rparr>)
                ((put_round Round rd1 srv)\<lparr>Idle := False\<rparr>)))))"
proof -
  show ?thesis
    using assms
    by (auto simp: Convo_Close_eq Let_def outcome_simps unlock_idle_def not_less split: if_splits intro!: that)
qed

lemma Convo_Close_last:
  assumes "Convo_Close N client orders Round (srv, c) r = Ret (res, (srv', c'), r')"
    "getRound srv Round convoRoundOpen = Inr rd0" "filterIncoming rd0 = Ret rd" "LastServer srv"
  obtains singles doubles reps where "res = Inr ()" "c' = c" "r' = r" "Idle srv"
    "exchange_all (map (decode_exchange N) (incoming rd)) = (reps, singles, doubles)"
    "srv' = put_round Round (rd\<lparr>replies := reps, status := convoRoundClosed\<rparr>)
      (report_access \<lparr>Singles = singles, Doubles = doubles\<rparr> (srv\<lparr>Idle := False\<rparr>))"
proof -
  show ?thesis
    using assms
    by (auto simp: Convo_Close_eq unlock_idle_def outcome_simps Let_def split: if_splits prod.splits intro!: that)
qed

lemma shared_prefix_set: "set (shared_prefix n xs ys) \<subseteq> set xs \<union> set ys"
  using set_take_subset [of "length xs" ys] by (auto simp: shared_prefix_def)

lemma length_shared_prefix: "length xs \<le> length ys \<Longrightarrow> length (shared_prefix n xs ys) = length xs"
  by (simp add: shared_prefix_def)

lemma round_ok_filtered:
  assumes "round_ok m rd" "status rd = convoRoundOpen"
  shows "round_ok m (rd\<lparr>incoming := map Some (kept_messages (incoming rd)), incomingIndex := index\<rparr>)"
  using assms kept_messages_subset [of _ "incoming rd"] length_kept_messages [of "incoming rd"]
  by (auto simp: round_ok_def)

lemma round_ok_relayed:
  assumes "round_ok m rd" "status rd = convoRoundOpen" "set xs \<subseteq> set (incoming rd) \<union> set (noise rd)" "length xs = length (incoming rd)"
  shows "round_ok m (rd\<lparr>noise := [], incoming := xs\<rparr>)"
  using assms by (fastforce simp: round_ok_def)

text \<open>The filtered round, with an index that points into the kept messages.\<close>

definition indexed :: "nat \<Rightarrow> ConvoRound \<Rightarrow> bool" where
  "indexed n rd \<longleftrightarrow> length (incomingIndex rd) \<le> nat (numIncoming rd)
     \<and> (\<forall>v \<in> set (incomingIndex rd). v = - 1 \<or> 0 \<le> v \<and> nat v < n)"

lemma filterIncoming_ok:
  assumes "round_ok m rd0" "status rd0 = convoRoundOpen" "8 \<le> m"
  obtains rd where "filterIncoming rd0 = Ret rd" "round_ok m rd" "status rd = convoRoundOpen" "indexed (length (incoming rd)) rd"
proof -
  let ?ms = "incoming rd0"
  let ?rd = "rd0\<lparr>incoming := map Some (kept_messages ?ms), incomingIndex := map (rank {} ?ms) [0..<length ?ms]\<rparr>"
  have "filterIncoming rd0 = Ret ?rd" using round_ok_long_enough [OF assms(1,3)] by (rule filterIncoming_eq)
  moreover have "indexed (length (incoming ?rd)) ?rd"
    using assms(1,2) rank_in_range [of _ ?ms] by (auto simp: indexed_def round_ok_def)
  ultimately show ?thesis
    using that [of ?rd] round_ok_filtered [OF assms(1,2)] assms(2) by simp
qed

lemma round_ok_closed:
  assumes "round_ok m rd" "status rd = convoRoundOpen" "indexed (length reps) rd"
  shows "round_ok m (rd\<lparr>replies := reps, status := convoRoundClosed\<rparr>)"
  using assms by (auto simp: round_ok_def indexed_def)

lemma convo_inv_close_last:
  assumes "convo_inv N srv" "Convo_Close N client orders Round (srv, c) r = Ret (res, (srv', c'), r')"
    "getRound srv Round convoRoundOpen = Inr rd0" "filterIncoming rd0 = Ret rd" "LastServer srv"
    and rd: "round_ok (content_size N srv) rd" "status rd = convoRoundOpen" "indexed (length (incoming rd)) rd"
  shows "convo_inv N srv'"
proof -
  from Convo_Close_last [OF assms(2-5)] obtain singles doubles reps where
    reps: "exchange_all (map (decode_exchange N) (incoming rd)) = (reps, singles, doubles)"
    and srv': "srv' = put_round Round (rd\<lparr>replies := reps, status := convoRoundClosed\<rparr>)
      (report_access \<lparr>Singles = singles, Doubles = doubles\<rparr> (srv\<lparr>Idle := False\<rparr>))" .
  have "length reps = length (incoming rd)"
    using length_exchange_all [of "map (decode_exchange N) (incoming rd)"] reps by simp
  then have "round_ok (content_size N srv) (rd\<lparr>replies := reps, status := convoRoundClosed\<rparr>)"
    using rd by (intro round_ok_closed) simp_all
  then show ?thesis
    unfolding srv' using assms(1) by (intro convo_inv_put) (simp_all add: convo_inv_counts convo_inv_idle)
qed

text \<open>The states in which the relaying branch leaves the service.\<close>

lemma Convo_Close_relay_states:
  assumes "Convo_Close N client orders Round (srv, c) r = Ret (res, (srv', c'), r')"
    "getRound srv Round convoRoundOpen = Inr rd0" "filterIncoming rd0 = Ret rd" "\<not> LastServer srv"
  obtains xs where "set xs \<subseteq> set (incoming rd) \<union> set (noise rd)" "length xs = length (incoming rd)"
    "srv' \<in> {put_round Round (rd\<lparr>noise := [], incoming := xs\<rparr>) srv, (put_round Round (rd\<lparr>noise := [], incoming := xs\<rparr>) srv)\<lparr>Idle := False\<rparr>}
     \<or> (\<exists>reps. numIncoming rd = int (length reps) \<and> srv' = put_round Round (rd\<lparr>noise := [], incoming := xs, replies := reps, status := convoRoundClosed\<rparr>)
          ((put_round Round (rd\<lparr>noise := [], incoming := xs\<rparr>) srv)\<lparr>Idle := False\<rparr>))"
proof -
  from Convo_Close_relay [OF assms] obtain shuffler r1 shuffled rd1 resN c1 r2 where
    sh: "Shuffle shuffler (incoming rd @ noise rd) = Ret shuffled"
    and rd1: "rd1 = rd\<lparr>noise := [], incoming := shared_prefix (length (incoming rd0)) (incoming rd) shuffled\<rparr>"
    and res: "(\<exists>err. resN = Inl err \<and> res = Inl (Wrapped ''NewConvoRound'' err) \<and> srv' = put_round Round rd1 srv \<and> c' = c1)
     \<or> (resN = Inr () \<and> Idle srv \<and> (\<exists>resR r3. RunConvoRound client orders Round (map (case_option [] id) shuffled) c1 r2 = Ret (resR, c', r3)
       \<and> ((\<exists>err. resR = Inl err \<and> res = Inl (Wrapped ''RunConvoRound'' err) \<and> srv' = (put_round Round rd1 srv)\<lparr>Idle := False\<rparr>)
         \<or> (\<exists>reps reps'. resR = Inr reps \<and> res = Inr () \<and> Unshuffle shuffler reps = Ret reps'
            \<and> 0 \<le> numIncoming rd \<and> numIncoming rd \<le> int (length reps')
            \<and> srv' = put_round Round (rd1\<lparr>replies := take (nat (numIncoming rd)) reps', status := convoRoundClosed\<rparr>)
                ((put_round Round rd1 srv)\<lparr>Idle := False\<rparr>)))))" .
  let ?xs = "shared_prefix (length (incoming rd0)) (incoming rd) shuffled"
  have ms: "mset shuffled = mset (incoming rd @ noise rd)" by (rule Shuffle_mset [OF sh])
  have len: "length ?xs = length (incoming rd)"
    using arg_cong [OF ms, of size] by (intro length_shared_prefix) simp
  have sub: "set ?xs \<subseteq> set (incoming rd) \<union> set (noise rd)"
    using shared_prefix_set [of "length (incoming rd0)" "incoming rd" shuffled] mset_eq_setD [OF ms] by auto
  show ?thesis
  proof (rule that [OF sub len], use res in \<open>elim disjE exE conjE\<close>)
    fix reps'
    assume "0 \<le> numIncoming rd" "numIncoming rd \<le> int (length reps')"
      and srv': "srv' = put_round Round (rd1\<lparr>replies := take (nat (numIncoming rd)) reps', status := convoRoundClosed\<rparr>)
        ((put_round Round rd1 srv)\<lparr>Idle := False\<rparr>)"
    then have "numIncoming rd = int (length (take (nat (numIncoming rd)) reps'))" by simp
    with srv' show "srv' \<in> {put_round Round (rd\<lparr>noise := [], incoming := ?xs\<rparr>) srv, (put_round Round (rd\<lparr>noise := [], incoming := ?xs\<rparr>) srv)\<lparr>Idle := False\<rparr>}
     \<or> (\<exists>reps. numIncoming rd = int (length reps) \<and> srv' = put_round Round (rd\<lparr>noise := [], incoming := ?xs, replies := reps, status := convoRoundClosed\<rparr>)
          ((put_round Round (rd\<lparr>noise := [], incoming := ?xs\<rparr>) srv)\<lparr>Idle := False\<rparr>))"
      unfolding rd1 by blast
  qed (simp_all only: rd1 insert_iff simp_thms)
qed

lemma convo_inv_Close:
  assumes N: "nacl_ok N" and inv: "convo_inv N srv"
    and run: "Convo_Close N client orders Round (srv, c) r = Ret (res, (srv', c'), r')"
  shows "convo_inv N srv'"
proof (cases "getRound srv Round convoRoundOpen")
  case (Inl err)
  then show ?thesis using inv run by (simp add: Convo_Close_eq)
next
  case (Inr rd0)
  note rd0 = convo_inv_get [OF inv Inr]
  have "8 \<le> content_size N srv" using content_size_ge [OF N, of srv] inv by (simp add: convo_inv_def)
  then obtain rd where filt: "filterIncoming rd0 = Ret rd" and rd: "round_ok (content_size N srv) rd" "status rd = convoRoundOpen"
    "indexed (length (incoming rd)) rd"
    using filterIncoming_ok rd0 by blast
  show ?thesis
  proof (cases "LastServer srv")
    case True
    then show ?thesis by (rule convo_inv_close_last [OF inv run Inr filt _ rd])
  next
    case False
    from Convo_Close_relay_states [OF run Inr filt False] obtain xs where
      xs: "set xs \<subseteq> set (incoming rd) \<union> set (noise rd)" "length xs = length (incoming rd)"
      and srv': "srv' \<in> {put_round Round (rd\<lparr>noise := [], incoming := xs\<rparr>) srv, (put_round Round (rd\<lparr>noise := [], incoming := xs\<rparr>) srv)\<lparr>Idle := False\<rparr>}
     \<or> (\<exists>reps. numIncoming rd = int (length reps) \<and> srv' = put_round Round (rd\<lparr>noise := [], incoming := xs, replies := reps, status := convoRoundClosed\<rparr>)
          ((put_round Round (rd\<lparr>noise := [], incoming := xs\<rparr>) srv)\<lparr>Idle := False\<rparr>))" .
    let ?rd1 = "rd\<lparr>noise := [], incoming := xs\<rparr>"
    have ok1: "round_ok (content_size N srv) ?rd1" by (rule round_ok_relayed [OF rd(1,2) xs])
    have "round_ok (content_size N srv) (?rd1\<lparr>replies := reps, status := convoRoundClosed\<rparr>)" if "numIncoming rd = int (length reps)" for reps
    proof (rule round_ok_closed [OF ok1])
      have "length (incoming rd) \<le> length reps" using rd(1,2) that by (simp add: round_ok_def)
      then show "indexed (length reps) ?rd1" using rd(3) by (force simp: indexed_def)
    qed (simp add: rd)
    note ok2 = this
    have inv1: "convo_inv N (put_round Round ?rd1 srv)" "convo_inv N ((put_round Round ?rd1 srv)\<lparr>Idle := False\<rparr>)"
      using convo_inv_put [OF inv ok1] by (simp_all only: convo_inv_idle)
    show ?thesis
      using srv'
    proof (elim disjE exE conjE)
      fix reps
      assume reps: "numIncoming rd = int (length reps)"
        and eq: "srv' = put_round Round (?rd1\<lparr>replies := reps, status := convoRoundClosed\<rparr>) ((put_round Round ?rd1 srv)\<lparr>Idle := False\<rparr>)"
      show ?thesis unfolding eq by (rule convo_inv_put [OF inv1(2)]) (use ok2 [OF reps] in simp)
    qed (use inv1 in blast)
  qed
qed

section \<open>The service as a state machine\<close>

datatype convo_call =
    CallNewRound u32
  | CallOpen u32 int
  | CallAdd u32 int "bytes list"
  | CallClose u32
  | CallGet u32 int int
  | CallDelete u32

text \<open>A step is a call that returns, with an error or not.\<close>

inductive convo_step ::
  "nacl \<Rightarrow> float64 \<Rightarrow> 'c convo_client \<Rightarrow> schedule \<times> schedule \<Rightarrow> ConvoService \<times> 'c \<Rightarrow> convo_call \<Rightarrow> ConvoService \<times> 'c \<Rightarrow> bool"
  for N F client orders where
  step_NewRound: "Convo_NewRound N F Round srv r = Ret (res, srv', r') \<Longrightarrow>
    convo_step N F client orders (srv, c) (CallNewRound Round) (srv', c)"
| step_Open: "Convo_Open Round n srv r = Ret (res, srv', r') \<Longrightarrow>
    convo_step N F client orders (srv, c) (CallOpen Round n) (srv', c)"
| step_Add: "Convo_Add N Round off onions srv r = Ret (res, srv', r') \<Longrightarrow>
    convo_step N F client orders (srv, c) (CallAdd Round off onions) (srv', c)"
| step_Close: "Convo_Close N client orders Round (srv, c) r = Ret (res, (srv', c'), r') \<Longrightarrow>
    convo_step N F client orders (srv, c) (CallClose Round) (srv', c')"
| step_Get: "Convo_Get N Round off cnt srv r = Ret (res, srv', r') \<Longrightarrow>
    convo_step N F client orders (srv, c) (CallGet Round off cnt) (srv', c)"
| step_Delete: "Convo_Delete Round srv r = Ret (res, srv', r') \<Longrightarrow>
    convo_step N F client orders (srv, c) (CallDelete Round) (srv', c)"

inductive_cases convo_stepE: "convo_step N F client orders (srv, c) call (srv', c')"

inductive convo_reach ::
  "nacl \<Rightarrow> float64 \<Rightarrow> 'c convo_client \<Rightarrow> schedule \<times> schedule \<Rightarrow> ConvoService \<Rightarrow> 'c \<Rightarrow> ConvoService \<Rightarrow> 'c \<Rightarrow> bool"
  for N F client orders srv0 c0 where
  reach_init: "convo_reach N F client orders srv0 c0 (InitConvoService srv0) c0"
| reach_step: "convo_reach N F client orders srv0 c0 srv c \<Longrightarrow> convo_step N F client orders (srv, c) call (srv', c') \<Longrightarrow>
    convo_reach N F client orders srv0 c0 srv' c'"

lemma convo_inv_step:
  "nacl_ok N \<Longrightarrow> convo_step N F client orders (srv, c) call (srv', c') \<Longrightarrow> convo_inv N srv \<Longrightarrow> convo_inv N srv'"
  by (erule convo_stepE)
    (blast intro: convo_inv_NewRound convo_inv_Open convo_inv_Add convo_inv_Close convo_inv_Delete dest: convo_inv_Get)+

lemma convo_inv_reach:
  assumes "convo_reach N F client orders srv0 c0 srv c" "nacl_ok N" "pki_ok (srv_PKI srv0)"
  shows "convo_inv N srv"
  using assms(1)
proof induction
  case reach_init
  then show ?case using assms(3) by (simp add: convo_inv_def InitConvoService_def)
next
  case (reach_step srv c call srv' c')
  show ?case by (rule convo_inv_step [OF assms(2) reach_step.hyps(2) reach_step.IH])
qed

text \<open>How the handlers move the status of a round.\<close>

definition status_step :: "ConvoRound option \<Rightarrow> ConvoRound option \<Rightarrow> bool" where
  "status_step x y \<longleftrightarrow>
     (case (x, y) of
        (None, Some rd') \<Rightarrow> status rd' = convoRoundNew
      | (Some rd, Some rd') \<Rightarrow> status rd' = status rd
          \<or> (status rd = convoRoundNew \<and> status rd' = convoRoundOpen) \<or> (status rd = convoRoundOpen \<and> status rd' = convoRoundClosed)
      | (_, None) \<Rightarrow> True)"

lemma status_step_refl: "status_step x x"
  by (simp add: status_step_def split: option.splits)

lemma status_step_put:
  "getRound srv Round st = Inr rd \<Longrightarrow> status rd' = st \<or> (st = convoRoundNew \<and> status rd' = convoRoundOpen) \<or> (st = convoRoundOpen \<and> status rd' = convoRoundClosed) \<Longrightarrow>
   rounds srv' = (rounds srv)(Round \<mapsto> rd') \<Longrightarrow> status_step (rounds srv R) (rounds srv' R)"
  by (auto simp: getRound_def status_step_def split: option.splits if_splits)

lemma rounds_put: "rounds (put_round Round rd srv) = (rounds srv)(Round \<mapsto> rd)"
  by (simp add: put_round_def)

lemma add_onions_status: "add_onions N nonce sk sz off k onions rd = Ret rd' \<Longrightarrow> status rd' = status rd"
  by (induction onions arbitrary: k rd) (auto simp: Let_def split: if_splits option.splits prod.splits)

lemma filterIncoming_status: "filterIncoming rd = Ret rd' \<Longrightarrow> status rd' = status rd"
  by (auto simp: filterIncoming_def outcome_simps)

lemma status_step_Close:
  assumes "Convo_Close N client orders Round (srv, c) r = Ret (res, (srv', c'), r')"
  shows "status_step (rounds srv R) (rounds srv' R)"
proof (cases "getRound srv Round convoRoundOpen")
  case (Inl err)
  then show ?thesis using assms by (simp add: Convo_Close_eq status_step_refl)
next
  case (Inr rd0)
  then obtain rd where filt: "filterIncoming rd0 = Ret rd"
    using assms by (auto simp: Convo_Close_eq outcome_simps)
  have open_rd: "status rd = convoRoundOpen"
    using filterIncoming_status [OF filt] Inr by (auto simp: getRound_def split: option.splits if_splits)
  show ?thesis
  proof (cases "LastServer srv")
    case True
    have "\<exists>rd'. rounds srv' = (rounds srv)(Round \<mapsto> rd') \<and> status rd' = convoRoundClosed"
      by (rule Convo_Close_last [OF assms Inr filt True]) (auto simp: rounds_put report_access_def)
    then obtain rd' where "rounds srv' = (rounds srv)(Round \<mapsto> rd')" "status rd' = convoRoundClosed" by blast
    then show ?thesis by (intro status_step_put [OF Inr]) auto
  next
    case False
    have "\<exists>rd'. rounds srv' = (rounds srv)(Round \<mapsto> rd') \<and> status rd' \<in> {convoRoundOpen, convoRoundClosed}"
      by (rule Convo_Close_relay_states [OF assms Inr filt False]) (auto simp: rounds_put open_rd)
    then obtain rd' where "rounds srv' = (rounds srv)(Round \<mapsto> rd')" "status rd' \<in> {convoRoundOpen, convoRoundClosed}" by blast
    then show ?thesis by (intro status_step_put [OF Inr]) auto
  qed
qed

lemma status_step_convo:
  assumes "convo_step N F client orders (srv, c) call (srv', c')"
  shows "status_step (rounds srv R) (rounds srv' R)"
  using assms
proof cases
  case (step_NewRound Round r res r')
  then show ?thesis
    by (auto simp: Convo_NewRound_def Let_def outcome_simps rounds_put status_step_def new_round_def split: if_splits option.splits)
next
  case (step_Open Round n r res r')
  then show ?thesis
    by (auto simp: Convo_Open_def rounds_put status_step_refl split: sum.splits if_splits intro!: status_step_put)
next
  case (step_Add Round off onions r res r')
  then show ?thesis
  proof (cases "getRound srv Round convoRoundOpen")
    case (Inr rd)
    then have "status rd = convoRoundOpen" by (auto simp: getRound_def split: option.splits if_splits)
    moreover have "srv' = srv \<or> (\<exists>rd'. status rd' = status rd \<and> srv' = put_round Round rd' srv)"
      using step_Add Inr
      by (auto simp: Convo_Add_def Let_def outcome_simps split: if_splits dest!: add_onions_status)
    ultimately show ?thesis
    proof (elim disjE exE conjE)
      fix rd' assume "status rd = convoRoundOpen" "status rd' = status rd" "srv' = put_round Round rd' srv"
      then show ?thesis by (intro status_step_put [OF Inr, of rd']) (simp_all add: rounds_put)
    qed (simp add: status_step_refl)
  qed (simp add: Convo_Add_def status_step_refl)
next
  case (step_Close Round r res r')
  then show ?thesis by (simp add: status_step_Close)
next
  case (step_Get Round off cnt r res r')
  then show ?thesis
    by (auto simp: Convo_Get_def Let_def outcome_simps status_step_refl split: sum.splits if_splits)
next
  case (step_Delete Round r res r')
  then show ?thesis by (auto simp: Convo_Delete_def status_step_def split: option.splits if_splits)
qed

section \<open>Properties\<close>

text \<open>
  C10: the invariant of the service.  In every state that any sequence of calls reaches, with any next
  server, every message and every noise onion a round holds has the size the next server expects, the
  slices have the lengths the handlers index them with, and so filtering a round never panics.
\<close>

theorem convo_invariant:
  assumes "nacl_ok N" "pki_ok (srv_PKI srv0)" "convo_reach N F client orders srv0 c0 srv c"
  shows "\<forall>Round rd. rounds srv Round = Some rd \<longrightarrow> round_ok (content_size N srv) rd \<and> filterIncoming rd \<noteq> Panic"
proof (intro allI impI)
  fix Round rd
  assume rd: "rounds srv Round = Some rd"
  have inv: "convo_inv N srv" by (rule convo_inv_reach [OF assms(3,1,2)])
  then have ok: "round_ok (content_size N srv) rd" using rd by (simp add: convo_inv_def)
  have "8 \<le> content_size N srv" using content_size_ge [OF assms(1), of srv] inv by (simp add: convo_inv_def)
  with ok show "round_ok (content_size N srv) rd \<and> filterIncoming rd \<noteq> Panic"
    using filterIncoming_eq [OF round_ok_long_enough] by simp
qed

definition sample_service :: ConvoService where
  "sample_service =
     \<lparr>rounds = Map.empty, Idle = False, LaplaceMu = 0, LaplaceB = 0,
      srv_PKI = \<lparr>People = Map.empty, Servers = [''a'' \<mapsto> Some \<lparr>Address = ''h:1'', PublicKey = Some (replicate 32 1)\<rparr>],
        ServerOrder = [''a''], EntryServer = []\<rparr>,
      ServerName = ''a'', PrivateKey = replicate 32 1, LastServer = True, AccessCounts = []\<rparr>"

text \<open>A next server that accepts everything, for the witness.\<close>

definition yes_client :: "unit convo_client" where
  "yes_client =
     \<lparr>call_NewRound = \<lambda>_. give (), call_Open = \<lambda>_ _. give (), call_Add = \<lambda>_ _ _. give (), call_Close = \<lambda>_. give (),
      call_Get = \<lambda>_ _ n. give (replicate (nat n) []), call_Delete = \<lambda>_. give ()\<rparr>"

lemma sample_service_pki: "pki_ok (srv_PKI sample_service)"
  by (simp add: pki_ok_def sample_service_def server_info_def)

theorem convo_invariant_witness:
  "\<exists>srv :: ConvoService. rounds srv 7 = Some new_round \<and> round_ok (content_size clear_box srv) new_round"
proof -
  let ?srv = "put_round 7 new_round (sample_service\<lparr>Idle := True\<rparr>)"
  have "Convo_NewRound clear_box exact_float64 7 (InitConvoService sample_service) (\<lambda>_. 0) = Ret (Inr (), ?srv, \<lambda>_. 0)"
    by (simp add: Convo_NewRound_def InitConvoService_def sample_service_def put_round_def)
  then have "convo_step clear_box exact_float64 yes_client (\<lambda>_. [], \<lambda>_. []) (InitConvoService sample_service, ()) (CallNewRound 7) (?srv, ())"
    by (rule step_NewRound)
  from reach_step [OF reach_init this]
  have "convo_reach clear_box exact_float64 yes_client (\<lambda>_. [], \<lambda>_. []) sample_service () ?srv ()" .
  from convo_invariant [OF clear_box_ok sample_service_pki this]
  have all: "\<forall>Round rd. rounds ?srv Round = Some rd \<longrightarrow> round_ok (content_size clear_box ?srv) rd \<and> filterIncoming rd \<noteq> Panic" .
  have "rounds ?srv 7 = Some new_round" by simp
  with all show ?thesis by blast
qed

text \<open>
  C30: a round is created as new, is opened once and closed once, and never goes back: every call leaves
  the status of every round as it is, or moves it from new to open or from open to closed, or deletes the
  round.
\<close>

theorem convo_status_order:
  assumes "convo_step N F client orders (srv, c) call (srv', c')"
  shows "(\<forall>rd rd'. rounds srv R = Some rd \<longrightarrow> rounds srv' R = Some rd' \<longrightarrow>
      status rd' = status rd \<or> (status rd = convoRoundNew \<and> status rd' = convoRoundOpen)
      \<or> (status rd = convoRoundOpen \<and> status rd' = convoRoundClosed))
    \<and> (\<forall>rd'. rounds srv R = None \<longrightarrow> rounds srv' R = Some rd' \<longrightarrow> status rd' = convoRoundNew)"
  using status_step_convo [OF assms, of R] by (auto simp: status_step_def)

text \<open>A round is created and then opened.\<close>

theorem convo_status_order_witness:
  "\<exists>srv srv' rd rd'. convo_step clear_box exact_float64 yes_client (\<lambda>_. [], \<lambda>_. []) (sample_service, ()) (CallNewRound 7) (srv, ())
    \<and> rounds sample_service 7 = None \<and> rounds srv 7 = Some rd \<and> status rd = convoRoundNew
    \<and> convo_step clear_box exact_float64 yes_client (\<lambda>_. [], \<lambda>_. []) (srv, ()) (CallOpen 7 0) (srv', ())
    \<and> rounds srv' 7 = Some rd' \<and> status rd' = convoRoundOpen"
proof -
  let ?srv = "put_round 7 new_round (sample_service\<lparr>Idle := True\<rparr>)"
  let ?rd' = "new_round\<lparr>numIncoming := 0, sharedKeys := [], incoming := [], status := convoRoundOpen\<rparr>"
  let ?srv' = "put_round 7 ?rd' ?srv"
  have "Convo_NewRound clear_box exact_float64 7 sample_service (\<lambda>_. 0) = Ret (Inr (), ?srv, \<lambda>_. 0)"
    by (simp add: Convo_NewRound_def) (simp add: sample_service_def)
  then have create: "convo_step clear_box exact_float64 yes_client (\<lambda>_. [], \<lambda>_. []) (sample_service, ()) (CallNewRound 7) (?srv, ())"
    by (rule step_NewRound)
  have "Convo_Open 7 0 ?srv (\<lambda>_. 0) = Ret (Inr (), ?srv', \<lambda>_. 0)"
    by (simp add: Convo_Open_def new_round_def)
  then have opened: "convo_step clear_box exact_float64 yes_client (\<lambda>_. [], \<lambda>_. []) (?srv, ()) (CallOpen 7 0) (?srv', ())"
    by (rule step_Open)
  have at: "rounds sample_service 7 = None" "rounds ?srv 7 = Some new_round" "rounds ?srv' 7 = Some ?rd'" "status ?rd' = convoRoundOpen"
    by (simp_all add: sample_service_def)
  have "status new_round = convoRoundNew" using convo_status_order [OF create, of 7] at(1,2) by blast
  with create opened at show ?thesis by blast
qed

end
