(* ===== verification/ConvoErrors.thy ===== *)
theory ConvoErrors
  imports Rounds
begin

text \<open>
  The paths of the conversation service that do not end well: the errors its handlers return, the
  ways a call leaves the service locked, and the inputs that make a handler panic; and the sizes that
  \<^verbatim>\<open>Get\<close> guarantees whatever happened to a message.
\<close>

section \<open>Lengths of what RunConvoRound returns\<close>

lemma length_copy_span: "Start sp + Count sp \<le> length reps \<Longrightarrow> length (copy_span sp onions reps) = length reps"
  by (simp add: copy_span_def span_of_def)

lemma length_fold_copy_span:
  "\<forall>sp \<in> set spans. Start sp + Count sp \<le> n \<Longrightarrow> length reps = n \<Longrightarrow>
   length (fold (\<lambda>(sp, res). copy_span sp res) (zip spans results) reps) = n"
proof (induction spans arbitrary: results reps)
  case (Cons sp spans)
  then show ?case by (cases results) (simp_all add: length_copy_span)
qed simp

lemma RunConvoRound_length:
  assumes "RunConvoRound client orders Round onions c r = Ret (Inr reps, c', r')"
  shows "length reps = length onions"
proof -
  obtain spans results where "Spans (length onions) 4000 = Ret spans"
    and "reps = fold (\<lambda>(sp, res). copy_span sp res) (zip spans results) (replicate (length onions) [])"
    using assms by (auto simp: RunConvoRound_def outcome_simps give_def)
  then show ?thesis
    using spans_loop_counts [of 0 "length onions" 4000]
    by (auto simp: Spans_def intro!: length_fold_copy_span)
qed

section \<open>Properties\<close>

text \<open>
  Every onion that \<open>Get\<close> returns has exactly the size of an encrypted message with one layer for
  each server from this one on, and there are as many as were asked for, whether the message behind a
  position was exchanged, repeated, malformed or missing.
\<close>

theorem Get_sizes:
  assumes "Convo_Get N Round off cnt srv r = Ret (Inr onions, srv', r')"
  shows "int (length onions) = cnt \<and> srv' = srv
    \<and> (\<forall>onion \<in> set onions. length onion = OutgoingOnionOverhead N (srv_PKI srv) (ServerName srv) + SizeEncryptedMessage N)"
proof -
  let ?sz = "OutgoingOnionOverhead N (srv_PKI srv) (ServerName srv) + SizeEncryptedMessage N"
  obtain rd where run: "omap (get_onion N (BackwardNonce Round) ?sz off rd) [0..<nat cnt] r = Ret (onions, r')"
    and cnt: "0 \<le> cnt" "srv' = srv"
    using assms by (auto simp: Convo_Get_def Let_def outcome_simps split: if_splits)
  have "\<forall>onion \<in> set onions. length onion = ?sz"
    using run by (rule omap_set) (auto simp: get_onion_def Let_def outcome_simps rread_lenD split: if_splits)
  then show ?thesis using omap_length [OF run] cnt by simp
qed

theorem Get_sizes_witness:
  "\<exists>onions r'. Convo_Get clear_box 7 0 1 (put_round 7 (new_round\<lparr>status := convoRoundClosed, incomingIndex := [- 1]\<rparr>) sample_service)
      (\<lambda>_. 0) = Ret (Inr onions, put_round 7 (new_round\<lparr>status := convoRoundClosed, incomingIndex := [- 1]\<rparr>) sample_service, r')
    \<and> (\<forall>onion \<in> set onions. length onion = 272)"
proof -
  let ?srv = "put_round 7 (new_round\<lparr>status := convoRoundClosed, incomingIndex := [- 1]\<rparr>) sample_service"
  have size: "OutgoingOnionOverhead clear_box (srv_PKI sample_service) (ServerName sample_service) = 16" "SizeEncryptedMessage clear_box = 256"
    by (simp_all add: OutgoingOnionOverhead_def Index_def sample_service_def nacl_overhead clear_box_ok wire_simps)
  have run: "Convo_Get clear_box 7 0 1 ?srv (\<lambda>_. 0) = Ret (Inr [map (\<lambda>_. 0) [0..<272]], ?srv, \<lambda>_. 0)"
    by (simp add: Convo_Get_def new_round_def get_onion_def wrap_int_def rread_def size del: upt_rec_numeral)
  show ?thesis using run Get_sizes [OF run] by (auto simp: size)
qed

text \<open>
  C31: the errors.  A call for a round that does not exist, or is not in the status the call expects,
  returns that error and changes nothing, and so does an \<open>Add\<close> that would write past the announced
  number of onions.
\<close>

theorem convo_errors:
  "(rounds srv Round = None \<longrightarrow>
      Convo_Open Round n srv r = Ret (Inl (RoundNotFound Round), srv, r)
      \<and> Convo_Add N Round off onions srv r = Ret (Inl (RoundNotFound Round), srv, r)
      \<and> Convo_Close N client orders Round (srv, c) r = Ret (Inl (RoundNotFound Round), (srv, c), r)
      \<and> Convo_Get N Round off cnt srv r = Ret (Inl (RoundNotFound Round), srv, r))
    \<and> (\<forall>rd. rounds srv Round = Some rd \<longrightarrow>
      (status rd \<noteq> convoRoundNew \<longrightarrow> Convo_Open Round n srv r = Ret (Inl (RoundStatus Round (status_num (status rd)) 1), srv, r))
      \<and> (status rd \<noteq> convoRoundOpen \<longrightarrow>
          Convo_Add N Round off onions srv r = Ret (Inl (RoundStatus Round (status_num (status rd)) 2), srv, r)
          \<and> Convo_Close N client orders Round (srv, c) r = Ret (Inl (RoundStatus Round (status_num (status rd)) 2), (srv, c), r))
      \<and> (status rd \<noteq> convoRoundClosed \<longrightarrow> Convo_Get N Round off cnt srv r = Ret (Inl (RoundStatus Round (status_num (status rd)) 3), srv, r))
      \<and> (status rd = convoRoundOpen \<longrightarrow> numIncoming rd < wrap_int (off + int (length onions)) \<longrightarrow>
          Convo_Add N Round off onions srv r = Ret (Inl (OverflowingOnions off (length onions) (numIncoming rd)), srv, r)))"
  by (auto simp: Convo_Open_def Convo_Add_def Convo_Close_eq Convo_Get_def getRound_def)

theorem convo_errors_witness:
  "Convo_Add clear_box 7 0 [[], []] (put_round 7 (new_round\<lparr>status := convoRoundOpen, numIncoming := 1\<rparr>) sample_service) (\<lambda>_. 0) =
    Ret (Inl (OverflowingOnions 0 2 1), put_round 7 (new_round\<lparr>status := convoRoundOpen, numIncoming := 1\<rparr>) sample_service, \<lambda>_. 0)"
proof -
  let ?rd = "new_round\<lparr>status := convoRoundOpen, numIncoming := 1\<rparr>"
  let ?srv = "put_round 7 ?rd sample_service"
  have "rounds ?srv 7 = Some ?rd" "status ?rd = convoRoundOpen" "numIncoming ?rd < wrap_int (0 + int (length [[] :: bytes, []]))"
    by (simp_all add: wrap_int_def)
  from convo_errors [where srv = ?srv and Round = 7 and r = "\<lambda>_. 0" and N = clear_box and off = 0 and onions = "[[], []]",
      THEN conjunct2, THEN spec [of _ ?rd], THEN mp, OF this(1), THEN conjunct2, THEN conjunct2, THEN conjunct2, THEN mp, OF this(2), THEN mp, OF this(3)]
  show ?thesis by simp
qed



text \<open>
  C33: a relay that filtered out more onions than it added noise panics, although the next server
  answered: it cuts the replies at the number of onions that were announced, not at the number that
  was kept.
\<close>

theorem Close_short_batch_panics:
  assumes "getRound srv Round convoRoundOpen = Inr rd" "\<not> LastServer srv" "Idle srv" "long_enough (incoming rd)"
    and short: "int (length (kept_messages (incoming rd)) + length (noise rd)) < numIncoming rd"
    and shuffler: "NewShuffler r (length (kept_messages (incoming rd)) + length (noise rd)) = Ret (shuffler, r1)"
    and next_ok: "\<forall>c r. \<exists>c' r'. NewConvoRound client Round c r = Ret (Inr (), c', r')"
      "\<forall>onions c r. \<exists>reps c' r'. RunConvoRound client orders Round onions c r = Ret (Inr reps, c', r')"
  shows "Convo_Close N client orders Round (srv, c) r = Panic"
proof -
  let ?out = "map Some (kept_messages (incoming rd)) @ noise rd"
  show ?thesis
  proof (cases "Shuffle shuffler ?out")
    case (Ret shuffled)
    obtain c1 r2 where new: "NewConvoRound client Round c r1 = Ret (Inr (), c1, r2)" using next_ok(1) by blast
    obtain reps c2 r3 where run: "RunConvoRound client orders Round (map (case_option [] id) shuffled) c1 r2 = Ret (Inr reps, c2, r3)"
      using next_ok(2) by blast
    have "length reps = length ?out"
      using RunConvoRound_length [OF run] arg_cong [OF Shuffle_mset [OF Ret], of size] by simp
    then have len: "length reps' = length ?out" if "Unshuffle shuffler reps = Ret reps'" for reps'
      using Unshuffle_length [OF that] by simp
    show ?thesis
    proof (cases "Unshuffle shuffler reps")
      case (Ret reps')
      have "int (length reps') < numIncoming rd" using short len [OF Ret] by simp
      then show ?thesis
        by (simp add: Convo_Close_eq filterIncoming_eq unlock_idle_def assms(1-4) shuffler \<open>Shuffle shuffler ?out = Ret shuffled\<close> new run Ret)
    next
      case Panic
      then show ?thesis
        by (simp add: Convo_Close_eq filterIncoming_eq unlock_idle_def assms(1-4) shuffler \<open>Shuffle shuffler ?out = Ret shuffled\<close> new run)
    next
      case Hang
      then show ?thesis by (simp add: Unshuffle_def swaps_not_Hang)
    qed
  next
    case Panic
    then show ?thesis by (simp add: Convo_Close_eq filterIncoming_eq assms(1-4) shuffler)
  next
    case Hang
    then show ?thesis by (simp add: Shuffle_def swaps_not_Hang)
  qed
qed

lemma complete_upt: "complete_order n [0..<n]"
  by (auto simp: complete_order_def)

lemma yes_client_many:
  "\<exists>ys s' r'. CallMany [0..<length calls] (\<lambda>call. give (f call)) calls s r = Ret (Inr ys, s', r')"
  by (rule CallMany_total [where I = "\<lambda>_ _. True", OF TrueI complete_upt]) (simp add: give_def)

lemma yes_client_runs:
  "\<exists>reps c' r'. RunConvoRound yes_client (\<lambda>n. [0..<n], \<lambda>n. [0..<n]) Round onions c r = Ret (Inr reps, c', r')"
proof -
  obtain spans where spans: "Spans (length onions) 4000 = Ret spans" by (simp add: Spans_def)
  obtain ys s1 r1 where "CallMany [0..<length spans] (\<lambda>sp :: Span. give ()) spans c r = Ret (Inr ys, s1, r1)"
    using yes_client_many [of spans "\<lambda>_. ()" c r] by blast
  moreover obtain zs s2 r2 where "CallMany [0..<length spans] (\<lambda>sp. give (replicate (nat (int (Count sp))) [])) spans s1 r1 =
      Ret (Inr (zs :: bytes list list), s2, r2)"
    using yes_client_many [of spans "\<lambda>sp. replicate (nat (int (Count sp))) []" s1 r1] by blast
  ultimately show ?thesis
    by (simp add: RunConvoRound_def yes_client_def spans attempt_def give_def)
qed

theorem Close_short_batch_panics_witness:
  "Convo_Close clear_box yes_client (\<lambda>n. [0..<n], \<lambda>n. [0..<n]) 7
    (put_round 7 (new_round\<lparr>status := convoRoundOpen, numIncoming := 1, incoming := [None], sharedKeys := [None]\<rparr>)
      (sample_service\<lparr>Idle := True, LastServer := False\<rparr>), ()) (\<lambda>_. 0) = Panic"
proof -
  let ?rd = "new_round\<lparr>status := convoRoundOpen, numIncoming := 1, incoming := [None], sharedKeys := [None]\<rparr>"
  have none: "kept_messages (incoming ?rd) = []" "noise ?rd = []"
    by (simp_all add: kept_messages_def kept_def first_seen_def new_round_def)
  show ?thesis
  proof (rule Close_short_batch_panics [where rd = ?rd and shuffler = "[]" and ?r1.0 = "\<lambda>_. 0"])
    show "int (length (kept_messages (incoming ?rd)) + length (noise ?rd)) < numIncoming ?rd" unfolding none by simp
    show "NewShuffler (\<lambda>_. 0) (length (kept_messages (incoming ?rd)) + length (noise ?rd)) = Ret ([], \<lambda>_. 0)"
      unfolding none by (simp add: NewShuffler_def)
    show "long_enough (incoming ?rd)" by (simp add: long_enough_def)
    show "\<forall>c r. \<exists>c' r'. NewConvoRound yes_client 7 c r = Ret (Inr (), c', r')"
      by (simp add: NewConvoRound_def yes_client_def give_def)
    show "\<forall>onions c r. \<exists>reps c' r'. RunConvoRound yes_client (\<lambda>n. [0..<n], \<lambda>n. [0..<n]) 7 onions c r = Ret (Inr reps, c', r')"
      using yes_client_runs by blast
  qed simp_all
qed

text \<open>
  C34: positions chosen by the caller.  The guard of \<open>Add\<close> bounds the end of the batch but not its
  start, and \<open>Get\<close> has no guard, so a negative position makes either of them panic, as does a
  position or a count beyond the round in \<open>Get\<close>.
\<close>

theorem bad_positions_panic:
  "(\<forall>rd. getRound srv Round convoRoundOpen = Inr rd \<longrightarrow> - (2 ^ 63) \<le> off \<longrightarrow> off < 0 \<longrightarrow> onions \<noteq> [] \<longrightarrow>
      off + int (length onions) \<le> numIncoming rd \<longrightarrow> int (length onions) < 2 ^ 63 \<longrightarrow> Convo_Add N Round off onions srv r = Panic)
    \<and> (\<forall>rd. getRound srv Round convoRoundClosed = Inr rd \<longrightarrow> cnt < 0 \<longrightarrow> Convo_Get N Round off cnt srv r = Panic)
    \<and> (\<forall>rd. getRound srv Round convoRoundClosed = Inr rd \<longrightarrow> 0 < cnt \<longrightarrow> - (2 ^ 63) \<le> off \<longrightarrow> off < 2 ^ 63 \<longrightarrow>
      off < 0 \<or> int (length (incomingIndex rd)) \<le> off \<longrightarrow> Convo_Get N Round off cnt srv r = Panic)"
proof (intro conjI allI impI)
  fix rd
  assume rd: "getRound srv Round convoRoundOpen = Inr rd" and off: "- (2 ^ 63) \<le> off" "off < 0" and "onions \<noteq> []"
    and le: "off + int (length onions) \<le> numIncoming rd" "int (length onions) < 2 ^ 63"
  then obtain x xs where xs: "onions = x # xs" by (cases onions) auto
  have "wrap_int (off + int (length onions)) = off + int (length onions)" "wrap_int (off + int 0) = off"
    using off le by (simp_all add: wrap_int_id)
  then show "Convo_Add N Round off onions srv r = Panic"
    using rd off le by (simp add: Convo_Add_def xs)
next
  fix rd
  assume "getRound srv Round convoRoundClosed = Inr rd" "cnt < 0"
  then show "Convo_Get N Round off cnt srv r = Panic" by (simp add: Convo_Get_def)
next
  fix rd
  assume rd: "getRound srv Round convoRoundClosed = Inr rd" and cnt: "0 < cnt"
    and off: "- (2 ^ 63) \<le> off" "off < 2 ^ 63" "off < 0 \<or> int (length (incomingIndex rd)) \<le> off"
  have first: "[0..<nat cnt] = 0 # [1..<nat cnt]" using cnt by (simp add: upt_conv_Cons)
  have "wrap_int (off + int 0) = off" using off by (simp add: wrap_int_id)
  then have "get_onion N nonce sz off rd 0 r = Panic" for nonce sz
    using off(3) by (auto simp: get_onion_def idx_def)
  then show "Convo_Get N Round off cnt srv r = Panic"
    using rd cnt by (simp add: Convo_Get_def first)
qed

theorem bad_positions_panic_witness:
  "Convo_Add clear_box 7 (- 1) [[]] (put_round 7 (new_round\<lparr>status := convoRoundOpen\<rparr>) sample_service) (\<lambda>_. 0) = Panic"
proof -
  let ?rd = "new_round\<lparr>status := convoRoundOpen\<rparr>"
  let ?srv = "put_round 7 ?rd sample_service"
  have "getRound ?srv 7 convoRoundOpen = Inr ?rd" "- (2 ^ 63) \<le> (- 1 :: int)" "(- 1 :: int) < 0" "[[]] \<noteq> ([] :: bytes list)"
    "- 1 + int (length [[] :: bytes]) \<le> numIncoming ?rd" "int (length [[] :: bytes]) < 2 ^ 63"
    by (simp_all add: new_round_def)
  with bad_positions_panic [where srv = ?srv and Round = 7 and off = "- 1" and onions = "[[]]" and N = clear_box and r = "\<lambda>_. 0",
      THEN conjunct1, THEN spec [of _ ?rd]]
  show ?thesis by (simp only: simp_thms)
qed

end
