(* ===== verification/Chain.thy ===== *)
theory Chain
  imports ConvoErrors
begin

text \<open>
  A chain of mix servers.  \<open>convo_chain\<close> ties the handlers of \<open>Convo\<close> together: the client of a server
  is the next server, so the state of a chain is the list of its services.  \<open>mix_round\<close> is the abstract
  specification of what a chain does to a batch, without calls, spans, slices or locks: each server
  opens its layer, keeps the first message with each key, mixes the kept messages with cover traffic,
  and seals what comes back for the position it came from; the last one exchanges.  The lemmas show
  that every completed run of the chain refines it, and what follows for a client.
\<close>

section \<open>The chain\<close>

definition lift_hd :: "('s, 'y) action \<Rightarrow> ('s list, 'y) action" where
  "lift_hd act ss r =
     (case ss of [] \<Rightarrow> Panic | s # rest \<Rightarrow> obind (act s r) (\<lambda>(res, s, r). Ret (res, s # rest, r)))"

definition lift_pair :: "('s \<times> 's list, 'y) action \<Rightarrow> ('s list, 'y) action" where
  "lift_pair act ss r =
     (case ss of [] \<Rightarrow> Panic | s # rest \<Rightarrow> obind (act (s, rest) r) (\<lambda>(res, (s, rest), r). Ret (res, s # rest, r)))"

text \<open>Calling through a nil client panics.\<close>

definition nil_client :: "'c convo_client" where
  "nil_client =
     \<lparr>call_NewRound = \<lambda>_ _ _. Panic, call_Open = \<lambda>_ _ _ _. Panic, call_Add = \<lambda>_ _ _ _ _. Panic,
      call_Close = \<lambda>_ _ _. Panic, call_Get = \<lambda>_ _ _ _ _. Panic, call_Delete = \<lambda>_ _ _. Panic\<rparr>"

primrec convo_chain ::
  "nacl \<Rightarrow> float64 \<Rightarrow> (nat \<Rightarrow> schedule \<times> schedule) \<Rightarrow> nat \<Rightarrow> ConvoService list convo_client" where
  "convo_chain N F sch 0 = nil_client"
| "convo_chain N F sch (Suc n) =
     \<lparr>call_NewRound = \<lambda>Round. lift_hd (Convo_NewRound N F Round),
      call_Open = \<lambda>Round k. lift_hd (Convo_Open Round k),
      call_Add = \<lambda>Round off onions. lift_hd (Convo_Add N Round off onions),
      call_Close = \<lambda>Round. lift_pair (Convo_Close N (convo_chain N F sch n) (sch n) Round),
      call_Get = \<lambda>Round off cnt. lift_hd (Convo_Get N Round off cnt),
      call_Delete = \<lambda>Round. lift_hd (Convo_Delete Round)\<rparr>"

definition sched_ok :: "schedule \<times> schedule \<Rightarrow> bool" where
  "sched_ok orders \<longleftrightarrow> (\<forall>n. complete_order n (fst orders n) \<and> complete_order n (snd orders n))"

lemma lift_hd_Ret: "lift_hd act (s # rest) r = Ret (res, ss, r') \<longleftrightarrow> (\<exists>s'. act s r = Ret (res, s', r') \<and> ss = s' # rest)"
  by (auto simp: lift_hd_def outcome_simps)

lemma lift_pair_Ret:
  "lift_pair act (s # rest) r = Ret (res, ss, r') \<longleftrightarrow> (\<exists>s' rest'. act (s, rest) r = Ret (res, (s', rest'), r') \<and> ss = s' # rest')"
  by (auto simp: lift_pair_def outcome_simps)

section \<open>One server's part of a run\<close>

lemma nth_copy_span:
  assumes "Start sp + Count sp \<le> length reps" "length onions = Count sp" "m < length reps"
  shows "copy_span sp onions reps ! m = (if Start sp \<le> m \<and> m < Start sp + Count sp then onions ! (m - Start sp) else reps ! m)"
  using assms by (auto simp: copy_span_def span_of_def nth_append min_def slice_def)

lemma assemble_spans:
  assumes "0 < k" "i \<le> tot" "length reps = tot" "length results = length (spans_loop i tot k)"
    and "\<And>sp res. (sp, res) \<in> set (zip (spans_loop i tot k) results) \<Longrightarrow>
      length res = Count sp \<and> (\<forall>m < Count sp. Q (Start sp + m) (res ! m))"
  shows "(\<forall>m. i \<le> m \<and> m < tot \<longrightarrow> Q m (fold (\<lambda>(sp, res). copy_span sp res) (zip (spans_loop i tot k) results) reps ! m))
    \<and> (\<forall>m < i. fold (\<lambda>(sp, res). copy_span sp res) (zip (spans_loop i tot k) results) reps ! m = reps ! m)"
  using assms
proof (induction i tot k arbitrary: reps results rule: spans_loop.induct)
  case (1 i tot k)
  show ?case
  proof (cases "i < tot")
    case False
    then show ?thesis by (auto simp: spans_loop.simps [of i])
  next
    case True
    define c where "c = (if i + k \<le> tot then k else tot - i)"
    let ?sp = "\<lparr>Start = i, Count = c\<rparr>"
    have c: "0 < c" "i + c \<le> tot" using True "1.prems"(1) by (auto simp: c_def)
    have loop: "spans_loop i tot k = ?sp # spans_loop (i + c) tot k"
      using True "1.prems"(1) by (subst spans_loop.simps) (simp add: c_def Let_def)
    obtain res rs where rs: "results = res # rs" using "1.prems"(4) by (cases results) (auto simp: loop)
    have res: "length res = c" "\<forall>m < c. Q (i + m) (res ! m)"
      using "1.prems"(5) [of ?sp res] by (simp_all add: loop rs)
    let ?reps = "copy_span ?sp res reps"
    have len: "length ?reps = tot" using c "1.prems"(3) by (simp add: length_copy_span)
    let ?out = "fold (\<lambda>(sp, res). copy_span sp res) (zip (spans_loop (i + c) tot k) rs) ?reps"
    have IH: "(\<forall>m. i + c \<le> m \<and> m < tot \<longrightarrow> Q m (?out ! m)) \<and> (\<forall>m < i + c. ?out ! m = ?reps ! m)"
    proof (rule "1.IH" [OF conjI [OF True "1.prems"(1)] c_def "1.prems"(1) c(2) len])
      show "length rs = length (spans_loop (i + c) tot k)" using "1.prems"(4) by (simp add: loop rs)
      show "length res' = Count sp \<and> (\<forall>m < Count sp. Q (Start sp + m) (res' ! m))"
        if "(sp, res') \<in> set (zip (spans_loop (i + c) tot k) rs)" for sp res'
        using "1.prems"(5) [of sp res'] that by (simp add: loop rs)
    qed
    have old: "?reps ! m = (if i \<le> m \<and> m < i + c then res ! (m - i) else reps ! m)" if "m < tot" for m
      using nth_copy_span [of ?sp reps res m] c res(1) "1.prems"(3) that by simp
    have "Q m (?out ! m)" if m: "i \<le> m" "m < tot" for m
    proof (cases "i + c \<le> m")
      case False
      then have "Q (i + (m - i)) (res ! (m - i))" using res(2) [THEN spec [of _ "m - i"]] m by simp
      then show ?thesis using IH old [OF m(2)] m False by simp
    qed (use IH m in blast)
    moreover have "?out ! m = reps ! m" if "m < i" for m using IH old [of m] that c True by simp
    ultimately show ?thesis by (simp add: loop rs)
  qed
qed


lemma span_range_set: "set (span_range sp) = {Start sp..<Start sp + Count sp}"
  by (simp add: span_range_def)

lemma spans_cover: "(\<Union>j < length (spans_loop 0 n 4000). {Start (spans_loop 0 n 4000 ! j)..<Start (spans_loop 0 n 4000 ! j) + Count (spans_loop 0 n 4000 ! j)}) = {..<n}"
proof -
  let ?spans = "spans_loop 0 n 4000"
  have "{..<n} = set (concat (map span_range ?spans))" by (subst spans_loop_ranges) auto
  also have "\<dots> = (\<Union>j < length ?spans. {Start (?spans ! j)..<Start (?spans ! j) + Count (?spans ! j)})"
    by (auto simp: span_range_set in_set_conv_nth intro!: bexI [OF _ nth_mem])
  finally show ?thesis by (rule sym)
qed

text \<open>What \<open>Get\<close> may answer for position \<open>i\<close>.\<close>

definition returned :: "nacl \<Rightarrow> u32 \<Rightarrow> nat \<Rightarrow> ConvoRound \<Rightarrow> nat \<Rightarrow> bytes \<Rightarrow> bool" where
  "returned N Round sz rd i onion \<longleftrightarrow> (\<exists>r r'. get_onion N (BackwardNonce Round) sz (int i) rd 0 r = Ret (onion, r'))"

lemma get_onion_shift: "get_onion N nonce sz (int off) rd k r = get_onion N nonce sz (int (off + k)) rd 0 r"
  by (simp add: get_onion_def)

lemma Convo_Get_returned:
  assumes "Convo_Get N Round (int off) (int cnt) srv r = Ret (Inr onions, srv', r')"
  shows "srv' = srv \<and> length onions = cnt \<and> (\<exists>rd. rounds srv Round = Some rd \<and> status rd = convoRoundClosed \<and>
    (\<forall>m < cnt. returned N Round (OutgoingOnionOverhead N (srv_PKI srv) (ServerName srv) + SizeEncryptedMessage N) rd (off + m) (onions ! m)))"
proof -
  let ?sz = "OutgoingOnionOverhead N (srv_PKI srv) (ServerName srv) + SizeEncryptedMessage N"
  obtain rd where rd: "rounds srv Round = Some rd" "status rd = convoRoundClosed" "srv' = srv"
    and run: "omap (get_onion N (BackwardNonce Round) ?sz (int off) rd) [0..<cnt] r = Ret (onions, r')"
    using assms by (auto simp: Convo_Get_def getRound_def Let_def outcome_simps split: option.splits if_splits)
  have "list_all2 (\<lambda>k onion. returned N Round ?sz rd (off + k) onion) [0..<cnt] onions"
    using run by (rule omap_all) (auto simp: returned_def get_onion_shift [of N _ ?sz off])
  with rd show ?thesis by (auto simp: list_all2_conv_all_nth)
qed


lemma span_within: "j < length (spans_loop 0 n 4000) \<Longrightarrow> Start (spans_loop 0 n 4000 ! j) + Count (spans_loop 0 n 4000 ! j) \<le> n"
  using spans_loop_counts [of 0 n 4000] nth_mem by blast

text \<open>The \<^verbatim>\<open>Add\<close> calls of a run deliver the whole batch, in whatever order they are run.\<close>

lemma chain_Add_many:
  assumes add: "CallMany order (\<lambda>sp. call_Add (convo_chain N F sch (Suc n)) Round (int (Start sp)) (span_of onions sp))
      (spans_loop 0 (length onions) 4000) (batch_at N Round onions {} rd srv # rest) r = Ret (Inr ys, c1, r1)"
    and order: "complete_order (length (spans_loop 0 (length onions) 4000)) order" and len: "length onions < 2 ^ 62"
  shows "c1 = batch_at N Round onions {..<length onions} rd srv # rest"
proof -
  let ?chain = "convo_chain N F sch (Suc n)" and ?spans = "spans_loop 0 (length onions) 4000"
  let ?C = "\<lambda>D. \<Union>j \<in> D. {Start (?spans ! j)..<Start (?spans ! j) + Count (?spans ! j)}"
  have "c1 = batch_at N Round onions (?C {..<length ?spans}) rd srv # rest \<and> length ys = length ?spans \<and> (\<forall>i < length ?spans. True)"
  proof (rule CallMany_inv [OF add order])
    fix D j s r y s' r'
    assume j: "j < length ?spans" and s: "s = batch_at N Round onions (?C D) rd srv # rest"
      and one: "call_Add ?chain Round (int (Start (?spans ! j))) (span_of onions (?spans ! j)) s r = Ret (Inr y, s', r')"
    have le: "length (span_of onions (?spans ! j)) = Count (?spans ! j)" using span_within [OF j] by (simp add: span_of_def)
    have "Convo_Add N Round (int (Start (?spans ! j))) (span_of onions (?spans ! j)) (batch_at N Round onions (?C D) rd srv) r =
        Ret (Inr (), batch_at N Round onions (?C D \<union> {Start (?spans ! j)..<Start (?spans ! j) + Count (?spans ! j)}) rd srv, r)"
      using Convo_Add_batch [OF len, of "Start (?spans ! j)" "span_of onions (?spans ! j)" N Round "?C D" rd srv r] span_within [OF j]
      by (simp add: le) (simp add: span_of_def slice_def)
    then show "s' = batch_at N Round onions (?C (insert j D)) rd srv # rest \<and> True"
      using one by (auto simp: s lift_hd_Ret Un_commute)
  qed simp
  then show ?thesis by (simp add: spans_cover)
qed

text \<open>The \<^verbatim>\<open>Get\<close> calls fetch the answer for each position.\<close>

definition fetched :: "nacl \<Rightarrow> u32 \<Rightarrow> ConvoService \<Rightarrow> nat \<Rightarrow> bytes \<Rightarrow> bool" where
  "fetched N Round srv i onion \<longleftrightarrow> (\<exists>rd. rounds srv Round = Some rd \<and> status rd = convoRoundClosed \<and>
     returned N Round (OutgoingOnionOverhead N (srv_PKI srv) (ServerName srv) + SizeEncryptedMessage N) rd i onion)"

lemma chain_Get_many:
  assumes get: "CallMany order (\<lambda>sp. call_Get (convo_chain N F sch (Suc n)) Round (int (Start sp)) (int (Count sp)))
      (spans_loop 0 k 4000) (srv # rest) r = Ret (Inr results, c, r')"
    and order: "complete_order (length (spans_loop 0 k 4000)) order" and i: "i < k"
  shows "fetched N Round srv i (fold (\<lambda>(sp, res). copy_span sp res) (zip (spans_loop 0 k 4000) results) (replicate k []) ! i)"
proof -
  let ?spans = "spans_loop 0 k 4000" and ?Q = "fetched N Round srv"
  have "c = srv # rest \<and> length results = length ?spans \<and> (\<forall>j < length ?spans. length (results ! j) = Count (?spans ! j)
      \<and> (\<forall>m < Count (?spans ! j). ?Q (Start (?spans ! j) + m) (results ! j ! m)))"
  proof (rule CallMany_inv [OF get order, where I = "\<lambda>_ c. c = srv # rest"])
    fix D j s r y s' r'
    assume s: "s = srv # rest"
      and one: "call_Get (convo_chain N F sch (Suc n)) Round (int (Start (?spans ! j))) (int (Count (?spans ! j))) s r = Ret (Inr y, s', r')"
    then obtain srv3 where "Convo_Get N Round (int (Start (?spans ! j))) (int (Count (?spans ! j))) srv r = Ret (Inr y, srv3, r')"
      "s' = srv3 # rest" by (auto simp: lift_hd_Ret)
    then show "s' = srv # rest \<and> length y = Count (?spans ! j) \<and> (\<forall>m < Count (?spans ! j). ?Q (Start (?spans ! j) + m) (y ! m))"
      unfolding fetched_def using Convo_Get_returned by blast
  qed simp
  then have "length results = length ?spans" and res: "\<And>sp res. (sp, res) \<in> set (zip ?spans results) \<Longrightarrow>
      length res = Count sp \<and> (\<forall>m < Count sp. ?Q (Start sp + m) (res ! m))"
    by (auto simp: in_set_zip)
  then show ?thesis
    using assemble_spans [of 4000 0 k "replicate k []" results ?Q] i by simp
qed

lemma RunConvoRound_server:
  assumes run: "RunConvoRound (convo_chain N F sch (Suc n)) orders Round onions (srv # rest) r = Ret (Inr reps, cs', r')"
    and new: "getRound srv Round convoRoundNew = Inr rd" and len: "length onions < 2 ^ 62" and sched: "sched_ok orders"
  obtains srv2 rest2 r1 r2 where
    "Convo_Close N (convo_chain N F sch n) (sch n) Round (batch_at N Round onions {..<length onions} rd srv, rest) r1 =
      Ret (Inr (), (srv2, rest2), r2)"
    "length reps = length onions" "\<forall>i < length onions. fetched N Round srv2 i (reps ! i)"
proof -
  let ?chain = "convo_chain N F sch (Suc n)" and ?spans = "spans_loop 0 (length onions) 4000"
  obtain ys c1 r1 c2 r2 results c3 r3 where
    add: "CallMany (fst orders (length ?spans)) (\<lambda>sp. call_Add ?chain Round (int (Start sp)) (span_of onions sp)) ?spans
      (batch_at N Round onions {} rd srv # rest) r = Ret (Inr ys, c1, r1)"
    and close: "call_Close ?chain Round c1 r1 = Ret (Inr (), c2, r2)"
    and get: "CallMany (snd orders (length ?spans)) (\<lambda>sp. call_Get ?chain Round (int (Start sp)) (int (Count sp))) ?spans
      c2 r2 = Ret (Inr results, c3, r3)"
    and reps: "reps = fold (\<lambda>(sp, res). copy_span sp res) (zip ?spans results) (replicate (length onions) [])"
    using run by (auto simp: RunConvoRound_def outcome_simps give_def Spans_def lift_hd_Ret Convo_Open_batch [OF new, of onions _ N])
  have c1: "c1 = batch_at N Round onions {..<length onions} rd srv # rest"
    using sched by (intro chain_Add_many [OF add _ len]) (simp add: sched_ok_def)
  obtain srv2 rest2 where c2: "c2 = srv2 # rest2"
    and closed: "Convo_Close N (convo_chain N F sch n) (sch n) Round (batch_at N Round onions {..<length onions} rd srv, rest) r1 =
      Ret (Inr (), (srv2, rest2), r2)"
    using close by (auto simp: c1 lift_pair_Ret)
  have "fetched N Round srv2 i (reps ! i)" if "i < length onions" for i
    unfolding reps using sched that by (intro chain_Get_many [OF get [unfolded c2]]) (simp_all add: sched_ok_def)
  then show ?thesis using that [OF closed RunConvoRound_length [OF run]] by blast
qed

end
