(* ===== verification/MixRound.thy ===== *)
theory MixRound
  imports Chain
begin

text \<open>
  The abstract specification of a conversation round, \<open>mix_round\<close>, and the refinement: a run of the
  chain that returns replies is one of the behaviours \<open>mix_round\<close> allows.  It speaks of batches,
  permutations and dead drops only; spans, calls and their order, slices and locks are gone.
\<close>

section \<open>The specification\<close>

text \<open>The sizes of an onion with \<open>m\<close> servers to go, on the way in and on the way back.\<close>

definition onion_in :: "nacl \<Rightarrow> nat \<Rightarrow> nat" where
  "onion_in N m = m * 48 + SizeConvoExchange N"

definition onion_out :: "nacl \<Rightarrow> nat \<Rightarrow> nat" where
  "onion_out N m = m * 16 + SizeEncryptedMessage N"

text \<open>The batch a server with private key \<open>sk\<close> and \<open>m - 1\<close> servers after it finds in the onions.\<close>

definition opened :: "nacl \<Rightarrow> u32 \<Rightarrow> bytes \<Rightarrow> nat \<Rightarrow> bytes list \<Rightarrow> bytes option list" where
  "opened N Round sk m onions = map (server_open N Round sk (onion_in N m)) onions"

text \<open>
  What the server answers when \<open>inner\<close> came back for the messages it kept: the answer to a kept
  message, sealed with the key of its onion; anything of the right size for the others.
\<close>

definition answered :: "nacl \<Rightarrow> u32 \<Rightarrow> bytes \<Rightarrow> nat \<Rightarrow> bytes list \<Rightarrow> bytes list \<Rightarrow> bytes list \<Rightarrow> bool" where
  "answered N Round sk m onions inner reps \<longleftrightarrow> length reps = length onions
     \<and> (\<forall>i < length onions. length (reps ! i) = onion_out N m
       \<and> (first_seen {} (opened N Round sk m onions) i \<longrightarrow>
            reps ! i = box_SealAfterPrecomputation N (inner ! nat (rank {} (opened N Round sk m onions) i))
              (BackwardNonce Round) (server_key N Round sk (onion_in N m) (onions ! i))))"

text \<open>
  \<open>mix_round N Round sks onions reps batches exs\<close>: the servers with private keys \<open>sks\<close> may answer the
  onions with \<open>reps\<close>, where \<open>batches\<close> are the batches they opened and \<open>exs\<close> the exchanges the last one
  performed.  A relay sends what it kept and cover traffic of the same size, permuted by \<open>p\<close>.
\<close>

inductive mix_round ::
  "nacl \<Rightarrow> u32 \<Rightarrow> bytes list \<Rightarrow> bytes list \<Rightarrow> bytes list \<Rightarrow> bytes option list list \<Rightarrow> ConvoExchange list \<Rightarrow> bool"
  for N Round where
  mix_last: "ms = opened N Round sk 1 onions \<Longrightarrow>
    exs = map (\<lambda>msg. decode_exchange N (Some msg)) (kept_messages ms) \<Longrightarrow>
    answered N Round sk 1 onions (fst (exchange_all exs)) reps \<Longrightarrow>
    mix_round N Round [sk] onions reps [ms] exs"
| mix_relay: "ms = opened N Round sk (Suc (length sks)) onions \<Longrightarrow>
    \<forall>onion \<in> set cover. length onion = onion_in N (length sks) \<Longrightarrow>
    length out = length (kept_messages ms @ cover) \<Longrightarrow>
    bij_betw p {..<length out} {..<length out} \<Longrightarrow>
    \<forall>v < length out. out ! p v = (kept_messages ms @ cover) ! v \<Longrightarrow>
    mix_round N Round sks out came batches exs \<Longrightarrow>
    answered N Round sk (Suc (length sks)) onions (map (\<lambda>v. came ! p v) [0..<length (kept_messages ms)]) reps \<Longrightarrow>
    mix_round N Round (sk # sks) onions reps (ms # batches) exs"

lemma mix_round_sizes:
  "mix_round N Round sks onions reps batches exs \<Longrightarrow>
    length reps = length onions \<and> (\<forall>rep \<in> set reps. length rep = onion_out N (length sks))"
  by (induction rule: mix_round.cases) (auto simp: answered_def in_set_conv_nth)


section \<open>The refinement\<close>

text \<open>
  A chain as the directory lays it out: all servers read the same directory, their places in it are
  the last ones in this order, and exactly the last server is configured as such.
\<close>

primrec chain_ok :: "PKI \<Rightarrow> ConvoService list \<Rightarrow> bool" where
  "chain_ok pki [] = True"
| "chain_ok pki (srv # rest) \<longleftrightarrow> srv_PKI srv = pki \<and> Index pki (ServerName srv) + Suc (length rest) = length (ServerOrder pki)
     \<and> (LastServer srv \<longleftrightarrow> rest = []) \<and> chain_ok pki rest"

lemma chain_sizes:
  assumes "nacl_ok N" "chain_ok pki (srv # rest)"
  shows "onion_size N srv = onion_in N (Suc (length rest))"
    "OutgoingOnionOverhead N (srv_PKI srv) (ServerName srv) + SizeEncryptedMessage N = onion_out N (Suc (length rest))"
proof -
  have "length (ServerOrder pki) - Index pki (ServerName srv) = Suc (length rest)" using assms(2) by auto
  then show "onion_size N srv = onion_in N (Suc (length rest))"
    "OutgoingOnionOverhead N (srv_PKI srv) (ServerName srv) + SizeEncryptedMessage N = onion_out N (Suc (length rest))"
    using assms by (simp_all add: IncomingOnionOverhead_def OutgoingOnionOverhead_def onion_in_def onion_out_def wire_simps nacl_overhead)
qed

lemma returned_answer:
  assumes N: "nacl_ok N" and "returned N Round sz rd i onion" "i < 2 ^ 62"
    and rd: "i < length (incomingIndex rd)" "incomingIndex rd ! i = v" "i < length (sharedKeys rd)" "sharedKeys rd ! i = Some key"
    and v: "v = - 1 \<or> 0 \<le> v \<and> length (replies rd ! nat v) + 16 = sz"
  shows "length onion = sz \<and> (0 \<le> v \<longrightarrow> onion = box_SealAfterPrecomputation N (replies rd ! nat v) (BackwardNonce Round) key)"
proof -
  have w: "wrap_int (int i) = int i" using assms(3) by (simp add: wrap_int_id)
  obtain r r' where run: "get_onion N (BackwardNonce Round) sz (int i) rd 0 r = Ret (onion, r')"
    using assms(2) by (auto simp: returned_def)
  show ?thesis
    using v
  proof (elim disjE conjE)
    assume "v = - 1"
    with run rd(1,2) have "onion = [] \<and> sz = 0 \<or> rread sz r = (onion, r')"
      by (auto simp: get_onion_def w outcome_simps split: if_splits)
    with \<open>v = - 1\<close> show ?thesis by (auto dest: rread_lenD)
  next
    assume v: "0 \<le> v" "length (replies rd ! nat v) + 16 = sz"
    with run rd have "onion = box_SealAfterPrecomputation N (replies rd ! nat v) (BackwardNonce Round) key"
      by (auto simp: get_onion_def w outcome_simps len_simps N split: if_splits)
    with v show ?thesis by (simp add: len_simps N)
  qed
qed

lemma fetched_answered:
  assumes N: "nacl_ok N" and len: "length onions < 2 ^ 62" "length reps = length onions"
    and sz: "OutgoingOnionOverhead N (srv_PKI srv) (ServerName srv) + SizeEncryptedMessage N = onion_out N m"
    and all: "\<forall>i < length onions. fetched N Round srv i (reps ! i)"
    and rd: "rounds srv Round = Some rd" "incomingIndex rd = map (rank {} (opened N Round sk m onions)) [0..<length onions]"
      "sharedKeys rd = map (\<lambda>onion. Some (server_key N Round sk (onion_in N m) onion)) onions"
    and inner: "\<forall>v < length (kept_messages (opened N Round sk m onions)).
      inner ! v = replies rd ! v \<and> length (replies rd ! v) + 16 = onion_out N m"
  shows "answered N Round sk m onions inner reps"
proof -
  let ?ms = "opened N Round sk m onions"
  have "length (reps ! i) = onion_out N m \<and> (first_seen {} ?ms i \<longrightarrow>
      reps ! i = box_SealAfterPrecomputation N (inner ! nat (rank {} ?ms i)) (BackwardNonce Round) (server_key N Round sk (onion_in N m) (onions ! i)))"
    if i: "i < length onions" for i
  proof -
    have ret: "returned N Round (onion_out N m) rd i (reps ! i)"
      using all i rd(1) by (auto simp: fetched_def sz)
    have r: "rank {} ?ms i = - 1 \<or> 0 \<le> rank {} ?ms i \<and> nat (rank {} ?ms i) < length (kept_messages ?ms)"
      using i by (intro rank_in_range) (simp add: opened_def)
    then have v: "rank {} ?ms i = - 1 \<or> 0 \<le> rank {} ?ms i \<and> length (replies rd ! nat (rank {} ?ms i)) + 16 = onion_out N m"
      using inner by blast
    have "length (reps ! i) = onion_out N m \<and> (0 \<le> rank {} ?ms i \<longrightarrow> reps ! i =
        box_SealAfterPrecomputation N (replies rd ! nat (rank {} ?ms i)) (BackwardNonce Round) (server_key N Round sk (onion_in N m) (onions ! i)))"
      using i len(1) by (intro returned_answer [OF N ret _ _ _ _ _ v]) (simp_all add: rd(2,3))
    moreover have "inner ! nat (rank {} ?ms i) = replies rd ! nat (rank {} ?ms i)" if "first_seen {} ?ms i"
      using r inner that by (auto simp: rank_nonneg [symmetric])
    ultimately show ?thesis by (simp add: rank_nonneg)
  qed
  then show ?thesis using len(2) by (simp add: answered_def)
qed


lemma batch_full:
  assumes "onion_size N srv = onion_in N m"
  shows "\<exists>rd'. batch_at N Round onions {..<length onions} rd srv = put_round Round rd' srv
    \<and> status rd' = convoRoundOpen \<and> numIncoming rd' = int (length onions) \<and> noise rd' = noise rd
    \<and> incoming rd' = opened N Round (PrivateKey srv) m onions
    \<and> sharedKeys rd' = map (\<lambda>onion. Some (server_key N Round (PrivateKey srv) (onion_in N m) onion)) onions"
  unfolding batch_at_def assms
  by (intro exI conjI, rule refl) (auto simp: batch_round_def opened_def intro: nth_equalityI)

lemma opened_sizes:
  assumes "nacl_ok N" "Some msg \<in> set (opened N Round sk (Suc m) onions)"
  shows "length msg = onion_in N m"
proof -
  obtain onion where "length onion = onion_in N (Suc m)" "snd (unwrap_layer N (ForwardNonce Round) sk onion) = Some msg"
    using assms(2) by (auto simp: opened_def server_open_def split: if_splits)
  with unwrap_layer_length [OF assms(1), of "ForwardNonce Round" sk onion _ msg]
  show ?thesis by (cases "unwrap_layer N (ForwardNonce Round) sk onion") (simp add: onion_in_def)
qed

lemma opened_long_enough: "nacl_ok N \<Longrightarrow> long_enough (opened N Round sk (Suc m) onions)"
  using SizeConvoExchange_eq [of N] by (auto simp: long_enough_def onion_in_def dest!: opened_sizes)

text \<open>Replies to exchanges have the size of an encrypted message.\<close>

lemma read_full_len: "read_full n data = Inr b \<Longrightarrow> length b = n"
  by (auto simp: read_full_def split: if_splits)

lemma decode_exchange_length: "length (EncryptedMessage (decode_exchange N msg)) = SizeEncryptedMessage N"
  by (cases "read_full (16 + SizeEncryptedMessage N) (case msg of None \<Rightarrow> [] | Some m \<Rightarrow> m)")
    (auto simp: decode_exchange_def ConvoExchange_Unmarshal_def dest!: read_full_len)

lemma exchange_sizes:
  assumes "v < length ms"
  shows "length (fst (exchange_all (map (decode_exchange N) ms)) ! v) = SizeEncryptedMessage N"
proof -
  let ?exs = "map (decode_exchange N) ms"
  obtain j where "j < length ?exs" "meant_for ?exs v = EncryptedMessage (?exs ! j)"
    using meant_for_from_visitor [of v ?exs] assms by auto
  then show ?thesis using assms decode_exchange_length by (simp add: exchange_all_replies reply_at_meant)
qed


lemma closed_last:
  assumes N: "nacl_ok N" and "LastServer srv" and ch: "chain_ok pki [srv]" and len: "length onions < 2 ^ 62" "length reps = length onions"
    and close: "Convo_Close N client orders Round (batch_at N Round onions {..<length onions} rd srv, c) r = Ret (Inr (), (srv2, c2), r2)"
    and all: "\<forall>i < length onions. fetched N Round srv2 i (reps ! i)"
  shows "\<exists>batches exs. mix_round N Round [PrivateKey srv] onions reps batches exs"
proof -
  let ?ms = "opened N Round (PrivateKey srv) 1 onions"
  have sz: "onion_size N srv = onion_in N 1"
    "OutgoingOnionOverhead N (srv_PKI srv) (ServerName srv) + SizeEncryptedMessage N = onion_out N 1"
    using chain_sizes [OF N ch] by simp_all
  obtain rd1 where at: "batch_at N Round onions {..<length onions} rd srv = put_round Round rd1 srv"
    and rd1: "status rd1 = convoRoundOpen" "incoming rd1 = ?ms"
      "sharedKeys rd1 = map (\<lambda>onion. Some (server_key N Round (PrivateKey srv) (onion_in N 1) onion)) onions"
    using batch_full [OF sz(1), of Round onions rd] by blast
  let ?rd = "rd1\<lparr>incoming := map Some (kept_messages ?ms), incomingIndex := map (rank {} ?ms) [0..<length ?ms]\<rparr>"
  have filt: "filterIncoming rd1 = Ret ?rd"
    using filterIncoming_eq [of rd1] opened_long_enough [OF N, of Round "PrivateKey srv" 0 onions] by (simp add: rd1)
  have get: "getRound (put_round Round rd1 srv) Round convoRoundOpen = Inr rd1" by (simp add: rd1)
  have last: "LastServer (put_round Round rd1 srv)" using assms(2) by simp
  let ?exs = "map (decode_exchange N) (map Some (kept_messages ?ms))"
  obtain rd2 where rd2: "rounds srv2 Round = Some rd2" "replies rd2 = fst (exchange_all ?exs)"
      "incomingIndex rd2 = map (rank {} ?ms) [0..<length onions]" "sharedKeys rd2 = sharedKeys rd1"
    and srv2: "srv_PKI srv2 = srv_PKI srv" "ServerName srv2 = ServerName srv"
    by (rule Convo_Close_last [OF close [unfolded at] get filt last]) (simp add: report_access_def opened_def)
  have "answered N Round (PrivateKey srv) 1 onions (fst (exchange_all ?exs)) reps"
  proof (rule fetched_answered [OF N len _ all rd2(1,3)])
    show "\<forall>v < length (kept_messages ?ms). fst (exchange_all ?exs) ! v = replies rd2 ! v \<and> length (replies rd2 ! v) + 16 = onion_out N 1"
      using exchange_sizes [of _ "map Some (kept_messages ?ms)" N] by (simp add: rd2 onion_out_def)
  qed (simp_all add: srv2 sz rd2 rd1)
  then have "mix_round N Round [PrivateKey srv] onions reps [?ms] (map (\<lambda>msg. decode_exchange N (Some msg)) (kept_messages ?ms))"
    by (intro mix_last [OF refl refl]) (simp add: o_def)
  then show ?thesis by blast
qed


text \<open>The mixing step of a relay: what it sends, and what it files of what comes back.\<close>

lemma relay_mix:
  assumes new: "NewShuffler r (length (map Some ks @ fake)) = Ret (shuffler, r1)"
    and sh: "Shuffle shuffler (map Some ks @ fake) = Ret shuffled"
    and un: "Unshuffle shuffler (came :: bytes list) = Ret w" "length came = length shuffled"
    and fake: "fake = map Some cover"
  obtains p where "length shuffled = length (ks @ cover)" "bij_betw p {..<length (ks @ cover)} {..<length (ks @ cover)}"
    "\<forall>v < length (ks @ cover). map (case_option [] id) shuffled ! p v = (ks @ cover) ! v"
    "length w = length (ks @ cover)" "\<forall>v < length (ks @ cover). w ! v = came ! p v"
proof -
  let ?x = "map Some (ks @ cover)"
  have x: "map Some ks @ fake = ?x" by (simp add: fake)
  have "valid_shuffler shuffler \<and> length ?x \<le> length shuffler"
    using NewShuffler_ok [OF new [unfolded x]] new [unfolded x] by simp
  from shuf.mix_serve [OF this] obtain y p where y: "Shuffle shuffler ?x = Ret y" "length y = length ?x"
    and p: "bij_betw p {..<length ?x} {..<length ?x}" "\<forall>i < length ?x. y ! p i = ?x ! i"
    and z: "\<forall>z :: bytes list. length z = length ?x \<longrightarrow> (\<exists>w. Unshuffle shuffler z = Ret w \<and> length w = length ?x \<and> (\<forall>i < length ?x. w ! i = z ! p i))"
    by (elim exE conjE) (rule that)
  have eq: "shuffled = y" using sh [unfolded x] y(1) by simp
  have "map (case_option [] id) shuffled ! p v = (ks @ cover) ! v" if "v < length (ks @ cover)" for v
  proof -
    have "p v < length y" using bij_betw_apply [OF p(1), of v] that y(2) by simp
    moreover have "y ! p v = Some ((ks @ cover) ! v)" using p(2) that by (auto simp: nth_append)
    ultimately show ?thesis by (simp add: eq)
  qed
  moreover have "length w = length ?x \<and> (\<forall>i < length ?x. w ! i = came ! p i)"
  proof -
    have "length came = length ?x" using un(2) y(2) eq by simp
    from z [THEN spec [of _ came], THEN mp, OF this] un(1) show ?thesis by auto
  qed
  ultimately show ?thesis using p(1) y(2) eq by (intro that [of p]) simp_all
qed

lemma closed_relay:
  assumes N: "nacl_ok N" and relay: "\<not> LastServer srv" and ch: "chain_ok pki (srv # rest)"
    and len: "length onions < 2 ^ 62" "length reps = length onions"
    and fake: "noise rd = map Some cover" "\<forall>onion \<in> set cover. length onion = onion_in N (length rest)"
    and close: "Convo_Close N client orders Round (batch_at N Round onions {..<length onions} rd srv, c) r = Ret (Inr (), (srv2, c2), r2)"
    and all: "\<forall>i < length onions. fetched N Round srv2 i (reps ! i)"
    and sks: "length sks = length rest"
    and IH: "\<And>ra c1 rb out came rc. NewConvoRound client Round c ra = Ret (Inr (), c1, rb) \<Longrightarrow>
      RunConvoRound client orders Round out c1 rb = Ret (Inr came, c2, rc) \<Longrightarrow> length out < 2 ^ 62 \<Longrightarrow>
      \<exists>batches exs. mix_round N Round sks out came batches exs"
  shows "\<exists>batches exs. mix_round N Round (PrivateKey srv # sks) onions reps batches exs"
proof -
  let ?m = "Suc (length rest)"
  let ?ms = "opened N Round (PrivateKey srv) ?m onions"
  let ?ks = "kept_messages ?ms"
  obtain rd1 where at: "batch_at N Round onions {..<length onions} rd srv = put_round Round rd1 srv"
    and rd1: "status rd1 = convoRoundOpen" "incoming rd1 = ?ms" "noise rd1 = noise rd" "numIncoming rd1 = int (length onions)"
      "sharedKeys rd1 = map (\<lambda>onion. Some (server_key N Round (PrivateKey srv) (onion_in N ?m) onion)) onions"
    using batch_full [OF chain_sizes(1) [OF N ch], of Round onions rd] by blast
  let ?rd = "rd1\<lparr>incoming := map Some ?ks, incomingIndex := map (rank {} ?ms) [0..<length ?ms]\<rparr>"
  have filt: "filterIncoming rd1 = Ret ?rd"
    using filterIncoming_eq [of rd1] opened_long_enough [OF N, of Round "PrivateKey srv" "length rest" onions] by (simp add: rd1)
  have get: "getRound (put_round Round rd1 srv) Round convoRoundOpen = Inr rd1" by (simp add: rd1)
  have not_last: "\<not> LastServer (put_round Round rd1 srv)" using relay by simp
  obtain shuffler ra shuffled c1 rb came rc w rd2 where
    new: "NewShuffler r (length (map Some ?ks @ noise rd)) = Ret (shuffler, ra)"
    and sh: "Shuffle shuffler (map Some ?ks @ noise rd) = Ret shuffled"
    and nx: "NewConvoRound client Round c ra = Ret (Inr (), c1, rb)"
    and run: "RunConvoRound client orders Round (map (case_option [] id) shuffled) c1 rb = Ret (Inr came, c2, rc)"
    and un: "Unshuffle shuffler came = Ret w" and w: "length onions \<le> length w"
    and rd2: "rounds srv2 Round = Some rd2" "replies rd2 = take (length onions) w"
      "incomingIndex rd2 = map (rank {} ?ms) [0..<length onions]" "sharedKeys rd2 = sharedKeys rd1"
    and srv2: "srv_PKI srv2 = srv_PKI srv" "ServerName srv2 = ServerName srv"
    by (rule Convo_Close_relay [OF close [unfolded at] get filt not_last]) (auto simp: rd1 opened_def)
  have came: "length came = length shuffled" using RunConvoRound_length [OF run] by simp
  from relay_mix [OF new sh un came fake(1)] obtain p where
    p: "length shuffled = length (?ks @ cover)" "bij_betw p {..<length (?ks @ cover)} {..<length (?ks @ cover)}"
      "\<forall>v < length (?ks @ cover). map (case_option [] id) shuffled ! p v = (?ks @ cover) ! v"
      "length w = length (?ks @ cover)" "\<forall>v < length (?ks @ cover). w ! v = came ! p v" .
  have small: "length (map (case_option [] id) shuffled) < 2 ^ 62"
    using NewShuffler_small [OF new] p(1) fake(1) by simp
  from IH [OF nx run small] obtain batches exs where
    mix: "mix_round N Round sks (map (case_option [] id) shuffled) came batches exs" by blast
  have kl: "length ?ks \<le> length onions" using length_kept_messages [of ?ms] by (simp add: opened_def)
  have ans: "answered N Round (PrivateKey srv) ?m onions (map (\<lambda>v. came ! p v) [0..<length ?ks]) reps"
  proof (rule fetched_answered [OF N len _ all rd2(1,3)])
    have "length (came ! p v) + 16 = onion_out N ?m" if "v < length ?ks" for v
    proof -
      have "p v < length came" using bij_betw_apply [OF p(2), of v] that came p(1) by simp
      then show ?thesis using mix_round_sizes [OF mix] sks by (simp add: onion_out_def)
    qed
    then show "\<forall>v < length ?ks. map (\<lambda>v. came ! p v) [0..<length ?ks] ! v = replies rd2 ! v \<and> length (replies rd2 ! v) + 16 = onion_out N ?m"
      using p(5) kl by (simp add: rd2)
  qed (simp_all add: srv2 chain_sizes [OF N ch] rd2 rd1)
  have "mix_round N Round (PrivateKey srv # sks) onions reps (?ms # batches) exs"
  proof (rule mix_relay [OF _ _ _ _ _ mix])
    show "\<forall>v < length (map (case_option [] id) shuffled). map (case_option [] id) shuffled ! p v = (?ks @ cover) ! v"
      using p(1,3) by simp
  qed (use p(1,2) fake(2) ans sks in simp_all)
  then show ?thesis by blast
qed


lemma Convo_NewRound_new:
  assumes "Convo_NewRound N F Round srv r = Ret (Inr (), srv', r')"
  shows "\<exists>rd. getRound srv' Round convoRoundNew = Inr rd \<and> srv_PKI srv' = srv_PKI srv \<and> ServerName srv' = ServerName srv
    \<and> PrivateKey srv' = PrivateKey srv \<and> LastServer srv' = LastServer srv"
  using assms by (auto simp: Convo_NewRound_def Let_def outcome_simps new_round_def split: if_splits)

lemma noise_cover:
  assumes N: "nacl_ok N" and inv: "convo_inv N srv" and ch: "chain_ok pki (srv # rest)" and rd: "getRound srv Round st = Inr rd"
  obtains cover where "noise rd = map Some cover" "\<forall>onion \<in> set cover. length onion = onion_in N (length rest)"
proof -
  have "content_size N srv = onion_in N (length rest)"
    using chain_sizes(1) [OF N ch] by (simp add: content_size_def onion_in_def)
  then have all: "\<forall>onion \<in> set (noise rd). \<exists>b. onion = Some b \<and> length b = onion_in N (length rest)"
    using convo_inv_get [OF inv rd] by (simp add: round_ok_def)
  have "noise rd = map Some (map the (noise rd))" by (rule sym) (use all in \<open>auto intro!: map_idI simp: o_def\<close>)
  moreover have "\<forall>onion \<in> set (map the (noise rd)). length onion = onion_in N (length rest)" using all by fastforce
  ultimately show ?thesis using that by blast
qed

lemma chain_refines:
  assumes N: "nacl_ok N" and sch: "\<forall>n. sched_ok (sch n)"
  shows "chain_ok pki (srv # rest) \<Longrightarrow> \<forall>s \<in> set (srv # rest). convo_inv N s \<Longrightarrow> getRound srv Round convoRoundNew = Inr rd \<Longrightarrow>
    sched_ok orders \<Longrightarrow> length onions < 2 ^ 62 \<Longrightarrow>
    RunConvoRound (convo_chain N F sch (Suc (length rest))) orders Round onions (srv # rest) r = Ret (Inr reps, ss', r') \<Longrightarrow>
    \<exists>batches exs. mix_round N Round (map PrivateKey (srv # rest)) onions reps batches exs"
proof (induction rest arbitrary: srv rd orders onions r reps ss' r')
  case Nil
  obtain srv2 rest2 r1 r2 where
    close: "Convo_Close N (convo_chain N F sch (length ([] :: ConvoService list))) (sch (length ([] :: ConvoService list))) Round (batch_at N Round onions {..<length onions} rd srv, []) r1 =
      Ret (Inr (), (srv2, rest2), r2)"
    and reps: "length reps = length onions" "\<forall>i < length onions. fetched N Round srv2 i (reps ! i)"
    by (rule RunConvoRound_server [OF Nil(6,3,5,4)]) blast
  have "LastServer srv" using Nil(1) by simp
  from closed_last [OF N this Nil(1,5) reps(1) close reps(2)] show ?case by simp
next
  case (Cons t rest)
  obtain srv2 rest2 r1 r2 where
    close: "Convo_Close N (convo_chain N F sch (length (t # rest))) (sch (length (t # rest))) Round
        (batch_at N Round onions {..<length onions} rd srv, t # rest) r1 = Ret (Inr (), (srv2, rest2), r2)"
    and reps: "length reps = length onions" "\<forall>i < length onions. fetched N Round srv2 i (reps ! i)"
    by (rule RunConvoRound_server [OF Cons.prems(6,3,5,4)]) blast
  have relay: "\<not> LastServer srv" using Cons.prems(1) by simp
  have inv: "convo_inv N srv" using Cons.prems(2) by simp
  from noise_cover [OF N inv Cons.prems(1,3)] obtain cover where
    cover: "noise rd = map Some cover" "\<forall>onion \<in> set cover. length onion = onion_in N (length (t # rest))" .
  have "\<exists>batches exs. mix_round N Round (PrivateKey srv # map PrivateKey (t # rest)) onions reps batches exs"
  proof (rule closed_relay [OF N relay Cons.prems(1,5) reps(1) cover close reps(2)])
    fix ra c1 rb out came rc
    assume nx: "NewConvoRound (convo_chain N F sch (length (t # rest))) Round (t # rest) ra = Ret (Inr (), c1, rb)"
      and run: "RunConvoRound (convo_chain N F sch (length (t # rest))) (sch (length (t # rest))) Round out c1 rb = Ret (Inr came, rest2, rc)"
      and len: "length out < 2 ^ 62"
    obtain t' where t': "Convo_NewRound N F Round t ra = Ret (Inr (), t', rb)" "c1 = t' # rest"
      using nx by (auto simp: NewConvoRound_def lift_hd_Ret)
    obtain rd' where rd': "getRound t' Round convoRoundNew = Inr rd'" and same: "srv_PKI t' = srv_PKI t" "ServerName t' = ServerName t"
        "PrivateKey t' = PrivateKey t" "LastServer t' = LastServer t"
      using Convo_NewRound_new [OF t'(1)] by blast
    have "chain_ok pki (t' # rest)" using Cons.prems(1) same by simp
    moreover have "\<forall>s \<in> set (t' # rest). convo_inv N s"
      using Cons.prems(2) convo_inv_NewRound [OF N _ t'(1)] by simp
    moreover have "RunConvoRound (convo_chain N F sch (Suc (length rest))) (sch (length (t # rest))) Round out (t' # rest) rb = Ret (Inr came, rest2, rc)"
      using run unfolding t'(2) length_Cons .
    ultimately have "\<exists>batches exs. mix_round N Round (map PrivateKey (t' # rest)) out came batches exs"
      by (rule Cons.IH [OF _ _ rd' sch [rule_format] len])
    then show "\<exists>batches exs. mix_round N Round (map PrivateKey (t # rest)) out came batches exs" by (simp add: same)
  qed simp
  then show ?case by simp
qed

end
