(* ===== verification/Delivery.thy ===== *)
theory Delivery
  imports MixRound
begin

text \<open>
  What the specification of a round means for the clients: an onion whose message is not mistaken for
  a repetition on its way gets back the reply to its own exchange, wrapped with the keys its client
  kept, and two clients that alone meet at a dead drop read each other's messages.
\<close>

section \<open>The way of an onion\<close>

text \<open>
  The key and the content at each server, while the onion opens and has the expected size; \<open>base\<close> is
  the size of the innermost message.
\<close>

primrec way :: "nacl \<Rightarrow> nat \<Rightarrow> u32 \<Rightarrow> bytes list \<Rightarrow> bytes \<Rightarrow> (bytes \<times> bytes) list option" where
  "way N base Round [] onion = Some []"
| "way N base Round (sk # sks) onion =
     (case server_open N Round sk (Suc (length sks) * 48 + base) onion of
        None \<Rightarrow> None
      | Some m \<Rightarrow> map_option (Cons (server_key N Round sk (Suc (length sks) * 48 + base) onion, m)) (way N base Round sks m))"

lemma way_convo:
  "way N (SizeConvoExchange N) Round (sk # sks) onion =
     (case server_open N Round sk (onion_in N (Suc (length sks))) onion of
        None \<Rightarrow> None
      | Some m \<Rightarrow> map_option (Cons (server_key N Round sk (onion_in N (Suc (length sks))) onion, m)) (way N (SizeConvoExchange N) Round sks m))"
  unfolding onion_in_def by simp

text \<open>No other message of the batch has the key of \<open>m\<close>.\<close>

definition lone :: "bytes option list \<Rightarrow> bytes \<Rightarrow> bool" where
  "lone ms m \<longleftrightarrow> length (filter (\<lambda>x. case x of None \<Rightarrow> False | Some m' \<Rightarrow> msgkey m' = msgkey m) ms) \<le> 1"

definition undisturbed :: "nacl \<Rightarrow> u32 \<Rightarrow> bytes list \<Rightarrow> bytes option list list \<Rightarrow> bytes \<Rightarrow> bool" where
  "undisturbed N Round sks batches onion \<longleftrightarrow>
     (case way N (SizeConvoExchange N) Round sks onion of None \<Rightarrow> False | Some w \<Rightarrow> list_all2 (\<lambda>ms (k, m). lone ms m) batches w)"

lemma filter_two:
  assumes "i < length xs" "j < length xs" "i \<noteq> j" "P (xs ! i)" "P (xs ! j)"
  shows "2 \<le> length (filter P xs)"
proof -
  have "card {i, j} \<le> card {k. k < length xs \<and> P (xs ! k)}"
    by (rule card_mono) (use assms in auto)
  then show ?thesis using assms(3) by (simp add: length_filter_conv_card)
qed

lemma lone_first_seen:
  assumes "i < length ms" "ms ! i = Some m" "lone ms m"
  shows "first_seen {} ms i"
proof -
  have "msgkey m' \<noteq> msgkey m" if "j < i" "ms ! j = Some m'" for j m'
    using filter_two [of i ms j "\<lambda>x. case x of None \<Rightarrow> False | Some m' \<Rightarrow> msgkey m' = msgkey m"] assms that
    by (auto simp: lone_def)
  with assms(2) show ?thesis by (simp add: first_seen_def)
qed

lemma kept_messages_rank:
  assumes "i < length ms" "first_seen {} ms i"
  shows "nat (rank {} ms i) < length (kept_messages ms)" "kept_messages ms ! nat (rank {} ms i) = the (ms ! i)"
  using kept_nth_rank [OF assms] by (simp_all add: kept_messages_def)

lemma rank_inj: "inj_on (\<lambda>i. nat (rank {} ms i)) {i. first_seen {} ms i}"
  by (rule linorder_inj_onI) (use rank_mono rank_nonneg in \<open>fastforce simp: eq_nat_nat_iff\<close>)+

lemma opened_nth: "i < length onions \<Longrightarrow> opened N Round sk m onions ! i = server_open N Round sk (onion_in N m) (onions ! i)"
  by (simp add: opened_def)

text \<open>The first server of the way: the message is kept, and its reply is sealed with the key of the way.\<close>

lemma way_first:
  assumes ms: "ms = opened N Round sk (Suc (length sks)) onions" and i: "i < length onions"
    and und: "undisturbed N Round (sk # sks) (ms # batches) (onions ! i)"
    and ans: "answered N Round sk (Suc (length sks)) onions inner reps"
  obtains k m w where "way N (SizeConvoExchange N) Round (sk # sks) (onions ! i) = Some ((k, m) # w)" "way N (SizeConvoExchange N) Round sks m = Some w"
    "undisturbed N Round sks batches m" "first_seen {} ms i" "kept_messages ms ! nat (rank {} ms i) = m"
    "nat (rank {} ms i) < length (kept_messages ms)"
    "reps ! i = box_SealAfterPrecomputation N (inner ! nat (rank {} ms i)) (BackwardNonce Round) k"
proof -
  let ?m = "Suc (length sks)"
  obtain m w where m: "server_open N Round sk (onion_in N ?m) (onions ! i) = Some m" and w: "way N (SizeConvoExchange N) Round sks m = Some w"
    and lone: "lone ms m" "undisturbed N Round sks batches m"
    using und by (auto simp: undisturbed_def way_convo simp del: way.simps(2) split: option.splits)
  have at: "ms ! i = Some m" "i < length ms" using m i by (simp_all add: ms opened_def)
  have first: "first_seen {} ms i" by (rule lone_first_seen [OF at(2,1) lone(1)])
  show ?thesis
    by (rule that [of "server_key N Round sk (onion_in N ?m) (onions ! i)" m w])
      (use m w lone first kept_messages_rank [OF at(2) first] at ans i in \<open>simp_all add: answered_def ms way_convo del: way.simps(2)\<close>)
qed

section \<open>Delivery\<close>

text \<open>One relay: the message goes to a place of its own in the outgoing batch.\<close>

lemma relay_way:
  assumes ms: "ms = opened N Round sk (Suc (length sks)) onions" and out: "length out = length (kept_messages ms @ cover)"
    and p: "bij_betw p {..<length out} {..<length out}" "\<forall>v < length out. out ! p v = (kept_messages ms @ cover) ! v"
    and ans: "answered N Round sk (Suc (length sks)) onions (map (\<lambda>v. came ! p v) [0..<length (kept_messages ms)]) reps"
    and i: "i < length onions" "undisturbed N Round (sk # sks) (ms # batches) (onions ! i)"
  shows "\<exists>k m w. first_seen {} ms i \<and> nat (rank {} ms i) < length (kept_messages ms)
    \<and> way N (SizeConvoExchange N) Round (sk # sks) (onions ! i) = Some ((k, m) # w)
    \<and> way N (SizeConvoExchange N) Round sks m = Some w \<and> undisturbed N Round sks batches m
    \<and> out ! p (nat (rank {} ms i)) = m \<and> p (nat (rank {} ms i)) < length out
    \<and> reps ! i = box_SealAfterPrecomputation N (came ! p (nat (rank {} ms i))) (BackwardNonce Round) k"
proof (rule way_first [OF ms i ans])
  let ?v = "nat (rank {} ms i)"
  fix k m w
  assume *: "way N (SizeConvoExchange N) Round (sk # sks) (onions ! i) = Some ((k, m) # w)" "way N (SizeConvoExchange N) Round sks m = Some w"
    "undisturbed N Round sks batches m" "first_seen {} ms i" "kept_messages ms ! ?v = m" "?v < length (kept_messages ms)"
    "reps ! i = box_SealAfterPrecomputation N (map (\<lambda>v. came ! p v) [0..<length (kept_messages ms)] ! ?v) (BackwardNonce Round) k"
  have "?v < length out" using *(6) out by simp
  then have "out ! p ?v = m" "p ?v < length out"
    using p(2) *(5,6) bij_betw_apply [OF p(1), of ?v] by (simp_all add: nth_append)
  with * show ?thesis by (intro exI [of _ k] exI [of _ m] exI [of _ w]) simp
qed

lemma delivery:
  assumes "mix_round N Round sks onions reps batches exs"
    and "\<forall>i \<in> S. i < length onions \<and> undisturbed N Round sks batches (onions ! i)"
  shows "\<exists>pos. inj_on pos S \<and> (\<forall>i \<in> S. \<exists>w. way N (SizeConvoExchange N) Round sks (onions ! i) = Some w \<and> pos i < length exs
    \<and> exs ! pos i = decode_exchange N (Some (snd (last w)))
    \<and> reps ! i = wrap_all N (BackwardNonce Round) (map fst w) (fst (exchange_all exs) ! pos i))"
  using assms
proof (induction arbitrary: S rule: mix_round.induct)
  case (mix_last ms sk onions exs reps)
  let ?pos = "\<lambda>i. nat (rank {} ms i)"
  have one: "first_seen {} ms i \<and> (\<exists>w. way N (SizeConvoExchange N) Round [sk] (onions ! i) = Some w \<and> ?pos i < length exs
      \<and> exs ! ?pos i = decode_exchange N (Some (snd (last w)))
      \<and> reps ! i = wrap_all N (BackwardNonce Round) (map fst w) (fst (exchange_all exs) ! ?pos i))" if "i \<in> S" for i
  proof (rule way_first [of ms N Round sk "[]" onions i "[]" "fst (exchange_all exs)" reps])
    show "i < length onions" "undisturbed N Round [sk] [ms] (onions ! i)" using mix_last.prems that by auto
  qed (use mix_last.hyps in auto)
  then have "inj_on ?pos S" by (intro inj_on_subset [OF rank_inj]) auto
  with one show ?case by blast
next
  case (mix_relay ms sk sks onions cover out p came batches exs reps)
  let ?v = "\<lambda>i. nat (rank {} ms i)"
  note one = relay_way [OF mix_relay.hyps(1,3,4,5,7) bspec [OF mix_relay.prems, THEN conjunct1] bspec [OF mix_relay.prems, THEN conjunct2]]
  let ?q = "\<lambda>i. p (?v i)"
  have "inj_on ?v S" using one by (intro inj_on_subset [OF rank_inj]) blast
  moreover have "inj_on p (?v ` S)"
    by (rule inj_on_subset [OF bij_betw_imp_inj_on [OF mix_relay.hyps(4)]]) (use one mix_relay.hyps(3) in fastforce)
  ultimately have inj: "inj_on ?q S" using comp_inj_on [of ?v S p] by (simp add: o_def)
  have "\<forall>i' \<in> ?q ` S. i' < length out \<and> undisturbed N Round sks batches (out ! i')" using one by blast
  from mix_relay.IH [OF this] obtain pos where pos: "inj_on pos (?q ` S)"
    "\<forall>i' \<in> ?q ` S. \<exists>w. way N (SizeConvoExchange N) Round sks (out ! i') = Some w \<and> pos i' < length exs \<and> exs ! pos i' = decode_exchange N (Some (snd (last w)))
      \<and> came ! i' = wrap_all N (BackwardNonce Round) (map fst w) (fst (exchange_all exs) ! pos i')" by blast
  have "inj_on (\<lambda>i. pos (?q i)) S" using comp_inj_on [OF inj pos(1)] by (simp add: o_def)
  moreover have "\<exists>w. way N (SizeConvoExchange N) Round (sk # sks) (onions ! i) = Some w \<and> pos (?q i) < length exs
      \<and> exs ! pos (?q i) = decode_exchange N (Some (snd (last w)))
      \<and> reps ! i = wrap_all N (BackwardNonce Round) (map fst w) (fst (exchange_all exs) ! pos (?q i))" if i: "i \<in> S" for i
  proof -
    obtain k m w where *: "way N (SizeConvoExchange N) Round (sk # sks) (onions ! i) = Some ((k, m) # w)" "way N (SizeConvoExchange N) Round sks m = Some w"
      "out ! ?q i = m" "reps ! i = box_SealAfterPrecomputation N (came ! ?q i) (BackwardNonce Round) k"
      using one [OF i i] by blast
    have "sks \<noteq> []" using mix_relay.hyps(6) by (auto elim: mix_round.cases)
    then have "w \<noteq> []" using *(2) by (cases sks) (auto split: option.splits)
    then show ?thesis using * pos(2) i by auto
  qed
  ultimately show ?case by (intro exI [of _ "\<lambda>i. pos (?q i)"]) blast
qed


section \<open>Clients\<close>

lemma seal_way:
  assumes N: "nacl_ok N" and len: "length msg = base"
  shows "Onion_Seal N msg (ForwardNonce Round) (public_keys N sks) r = Ret ((onion, ks), r') \<Longrightarrow>
    \<exists>w. way N base Round sks onion = Some w \<and> map fst w = ks \<and> (sks \<noteq> [] \<longrightarrow> snd (last w) = msg)"
proof (induction sks arbitrary: onion ks r')
  case Nil
  then show ?case by simp
next
  case (Cons sk sks)
  have size: "length onion = Suc (length sks) * 48 + base"
    using Onion_Seal_Ret_length(2) [OF N Cons.prems] len by simp
  obtain o1 ks1 r1 where inner: "Onion_Seal N msg (ForwardNonce Round) (public_keys N sks) r = Ret ((o1, ks1), r1)"
    using Cons.prems by (auto simp: outcome_simps)
  obtain esk r2 where gen: "box_GenerateKey N r1 = (Some (box_PublicOf N esk, esk), r2)"
    using nacl_keygen [OF N] by blast
  have on: "onion = box_PublicOf N esk @
      box_SealAfterPrecomputation N o1 (ForwardNonce Round) (box_Precompute N (box_PublicOf N sk) esk)"
    and ks: "ks = box_Precompute N (box_PublicOf N sk) esk # ks1"
    using Cons.prems inner gen by (auto simp: Let_def)
  have "server_open N Round sk (Suc (length sks) * 48 + base) onion = Some o1"
    "server_key N Round sk (Suc (length sks) * 48 + base) onion = box_Precompute N (box_PublicOf N sk) esk"
    using size by (simp_all add: server_open_def server_key_def on unwrap_layer_sealed [OF N])
  moreover obtain w where "way N base Round sks o1 = Some w" "map fst w = ks1" "sks \<noteq> [] \<longrightarrow> snd (last w) = msg"
    using Cons.IH [OF inner] by blast
  moreover have "sks = [] \<longrightarrow> o1 = msg" using inner by auto
  ultimately show ?case by (cases sks) (auto simp: ks split: option.splits)
qed

lemma decode_marshal: "wf_ConvoExchange N ex \<Longrightarrow> decode_exchange N (Some (ConvoExchange_Marshal ex)) = ex"
  using ce.dec_enc_append [of N ex "[]"] by (simp add: decode_exchange_def)

lemma meet_alone:
  assumes "i < length exs" "j < length exs" "i \<noteq> j" "DeadDrop (exs ! i) = DeadDrop (exs ! j)"
    and "length (filter (\<lambda>e. DeadDrop e = DeadDrop (exs ! i)) exs) \<le> 2"
  shows "fst (exchange_all exs) ! i = EncryptedMessage (exs ! j)"
proof -
  have "k = i \<or> k = j" if "k < length exs" "DeadDrop (exs ! k) = DeadDrop (exs ! i)" for k
  proof (rule ccontr)
    assume "\<not> (k = i \<or> k = j)"
    then have "card {i, j, k} \<le> card {k. k < length exs \<and> DeadDrop (exs ! k) = DeadDrop (exs ! i)}"
      by (intro card_mono) (use assms that in auto)
    then show False using assms(3,5) \<open>\<not> (k = i \<or> k = j)\<close> by (simp add: length_filter_conv_card)
  qed
  then show ?thesis using meant_for_pair [OF assms(1-4)] assms(1) by (simp add: exchange_all_replies reply_at_meant)
qed

text \<open>An onion a client sealed for the chain, around an exchange, with the keys it kept.\<close>

definition sealed_for :: "nacl \<Rightarrow> u32 \<Rightarrow> bytes list \<Rightarrow> ConvoExchange \<Rightarrow> bytes \<Rightarrow> bytes list \<Rightarrow> bool" where
  "sealed_for N Round sks ex onion ks \<longleftrightarrow> wf_ConvoExchange N ex \<and>
     (\<exists>r r'. Onion_Seal N (ConvoExchange_Marshal ex) (ForwardNonce Round) (public_keys N sks) r = Ret ((onion, ks), r'))"

lemma sealed_way:
  assumes "nacl_ok N" "sealed_for N Round sks ex onion ks" "sks \<noteq> []"
  obtains w where "way N (SizeConvoExchange N) Round sks onion = Some w" "map fst w = ks" "decode_exchange N (Some (snd (last w))) = ex"
proof -
  have "length (ConvoExchange_Marshal ex) = SizeConvoExchange N"
    using ce.enc_size [of N ex] assms by (simp add: sealed_for_def wire_simps)
  then show ?thesis
    using seal_way [OF assms(1)] assms(2,3) that decode_marshal unfolding sealed_for_def by metis
qed

lemma mix_round_delivers:
  assumes N: "nacl_ok N" and mix: "mix_round N Round sks onions reps batches exs"
    and i: "i < length onions" "sealed_for N Round sks exi (onions ! i) ki" "undisturbed N Round sks batches (onions ! i)"
    and j: "j < length onions" "sealed_for N Round sks exj (onions ! j) kj" "undisturbed N Round sks batches (onions ! j)"
    and ij: "i \<noteq> j" "DeadDrop exi = DeadDrop exj" "length (filter (\<lambda>e. DeadDrop e = DeadDrop exi) exs) \<le> 2"
  shows "Onion_Open N (reps ! i) (BackwardNonce Round) ki = Some (EncryptedMessage exj)"
proof -
  have ne: "sks \<noteq> []" using mix by (auto elim: mix_round.cases)
  have "\<forall>x \<in> {i, j}. x < length onions \<and> undisturbed N Round sks batches (onions ! x)" using i j by auto
  from delivery [OF mix this] obtain pos where inj: "inj_on pos {i, j}" and
    pos: "\<forall>x \<in> {i, j}. \<exists>w. way N (SizeConvoExchange N) Round sks (onions ! x) = Some w \<and> pos x < length exs
      \<and> exs ! pos x = decode_exchange N (Some (snd (last w)))
      \<and> reps ! x = wrap_all N (BackwardNonce Round) (map fst w) (fst (exchange_all exs) ! pos x)" by blast
  obtain wi where wi: "way N (SizeConvoExchange N) Round sks (onions ! i) = Some wi" "map fst wi = ki" "decode_exchange N (Some (snd (last wi))) = exi"
    by (rule sealed_way [OF N i(2) ne])
  obtain wj where wj: "way N (SizeConvoExchange N) Round sks (onions ! j) = Some wj" "map fst wj = kj" "decode_exchange N (Some (snd (last wj))) = exj"
    by (rule sealed_way [OF N j(2) ne])
  have exi: "exs ! pos i = exi" "pos i < length exs" and exj: "exs ! pos j = exj" "pos j < length exs"
    and rep: "reps ! i = wrap_all N (BackwardNonce Round) ki (fst (exchange_all exs) ! pos i)"
    using pos wi wj by auto
  have "fst (exchange_all exs) ! pos i = EncryptedMessage exj"
    using meet_alone [of "pos i" exs "pos j"] exi exj inj ij by (simp add: inj_on_def)
  then show ?thesis using rep Onion_Open_wrap_all [OF N] by simp
qed

end
