(* ===== verification/EndToEnd.thy ===== *)
theory EndToEnd
  imports Delivery
begin

text \<open>
  Conversation rounds from end to end.  The last server answers every batch, whatever bytes the onions
  hold, and is ready for the next round afterwards; then the properties of a whole chain, put together
  from the refinement and the delivery lemmas.
\<close>

section \<open>The last server answers\<close>

lemma get_onion_total:
  assumes "i < 2 ^ 62" "i < length (incomingIndex rd)" "incomingIndex rd ! i = v" "i < length (sharedKeys rd)" "sharedKeys rd ! i = Some key"
    "v = - 1 \<or> 0 \<le> v \<and> nat v < length (replies rd)"
  shows "\<exists>onion r'. get_onion N nonce sz (int i) rd 0 r = Ret (onion, r')"
proof -
  have w: "wrap_int (int i) = int i" using assms(1) by (simp add: wrap_int_id)
  show ?thesis using assms(2-6) by (cases "rread sz r") (auto simp: get_onion_def w)
qed

lemma Convo_Get_total:
  assumes rd: "getRound srv Round convoRoundClosed = Inr rd" and n: "off + cnt \<le> n" "n < 2 ^ 62"
    and ok: "length (incomingIndex rd) = n" "length (sharedKeys rd) = n" "None \<notin> set (sharedKeys rd)"
      "\<forall>v \<in> set (incomingIndex rd). v = - 1 \<or> 0 \<le> v \<and> nat v < length (replies rd)"
  shows "\<exists>onions r'. Convo_Get N Round (int off) (int cnt) srv r = Ret (Inr onions, srv, r')"
proof -
  let ?sz = "OutgoingOnionOverhead N (srv_PKI srv) (ServerName srv) + SizeEncryptedMessage N"
  have "\<exists>onion r'. get_onion N (BackwardNonce Round) ?sz (int off) rd k r = Ret (onion, r')" if "k \<in> set [0..<cnt]" for k r
  proof -
    have i: "off + k < n" "off + k < 2 ^ 62" using that n by auto
    obtain key where "sharedKeys rd ! (off + k) = Some key"
      using ok(2,3) nth_mem [of "off + k" "sharedKeys rd"] i by (cases "sharedKeys rd ! (off + k)") auto
    then show ?thesis
      unfolding get_onion_shift [of N _ ?sz off] using i ok by (intro get_onion_total [OF _ _ refl]) auto
  qed
  then obtain onions r' where "omap (get_onion N (BackwardNonce Round) ?sz (int off) rd) [0..<cnt] r = Ret (onions, r')"
    using omap_total [of "[0..<cnt]" "get_onion N (BackwardNonce Round) ?sz (int off) rd" r] by blast
  then show ?thesis using rd by (simp add: Convo_Get_def)
qed

lemma chain_Add_total:
  assumes "length onions < 2 ^ 62" "complete_order (length (spans_loop 0 (length onions) 4000)) order"
  shows "\<exists>ys r1. CallMany order (\<lambda>sp. call_Add (convo_chain N F sch (Suc n)) Round (int (Start sp)) (span_of onions sp))
      (spans_loop 0 (length onions) 4000) (batch_at N Round onions {} rd srv # rest) r =
    Ret (Inr ys, batch_at N Round onions {..<length onions} rd srv # rest, r1)"
proof -
  let ?spans = "spans_loop 0 (length onions) 4000"
  let ?add = "\<lambda>sp. call_Add (convo_chain N F sch (Suc n)) Round (int (Start sp)) (span_of onions sp)"
  have "\<exists>ys s' r'. CallMany order ?add ?spans (batch_at N Round onions {} rd srv # rest) r = Ret (Inr ys, s', r')"
  proof (rule CallMany_total [where I = "\<lambda>D cs. \<exists>C. cs = batch_at N Round onions C rd srv # rest", OF _ assms(2)])
    fix D j s r
    assume j: "j < length ?spans" and "\<exists>C. s = batch_at N Round onions C rd srv # rest"
    then obtain C where s: "s = batch_at N Round onions C rd srv # rest" by blast
    have le: "length (span_of onions (?spans ! j)) = Count (?spans ! j)" using span_within [OF j] by (simp add: span_of_def)
    have "Convo_Add N Round (int (Start (?spans ! j))) (span_of onions (?spans ! j)) (batch_at N Round onions C rd srv) r =
        Ret (Inr (), batch_at N Round onions (C \<union> {Start (?spans ! j)..<Start (?spans ! j) + Count (?spans ! j)}) rd srv, r)"
      using Convo_Add_batch [OF assms(1), of "Start (?spans ! j)" "span_of onions (?spans ! j)" N Round C rd srv r] span_within [OF j]
      by (simp add: le) (simp add: span_of_def slice_def)
    then show "\<exists>y s' r'. ?add (?spans ! j) s r = Ret (Inr y, s', r') \<and> (\<exists>C. s' = batch_at N Round onions C rd srv # rest)"
      unfolding s by (auto simp: lift_hd_Ret)
  qed blast
  then obtain ys s' r' where run: "CallMany order ?add ?spans (batch_at N Round onions {} rd srv # rest) r = Ret (Inr ys, s', r')" by blast
  with chain_Add_many [OF run assms(2,1)] show ?thesis by (intro exI) simp
qed

lemma chain_Get_total:
  assumes order: "complete_order (length (spans_loop 0 k 4000)) order" and k: "k < 2 ^ 62"
    and rd: "getRound srv Round convoRoundClosed = Inr rd"
    and ok: "length (incomingIndex rd) = k" "length (sharedKeys rd) = k" "None \<notin> set (sharedKeys rd)"
      "\<forall>v \<in> set (incomingIndex rd). v = - 1 \<or> 0 \<le> v \<and> nat v < length (replies rd)"
  shows "\<exists>results r1. CallMany order (\<lambda>sp. call_Get (convo_chain N F sch (Suc n)) Round (int (Start sp)) (int (Count sp)))
      (spans_loop 0 k 4000) (srv # rest) r = Ret (Inr results, srv # rest, r1)"
proof -
  let ?spans = "spans_loop 0 k 4000"
  let ?get = "\<lambda>sp. call_Get (convo_chain N F sch (Suc n)) Round (int (Start sp)) (int (Count sp))"
  have "\<exists>ys s' r'. CallMany order ?get ?spans (srv # rest) r = Ret (Inr ys, s', r')"
  proof (rule CallMany_total [where I = "\<lambda>_ cs. cs = srv # rest", OF refl order])
    fix D j s r
    assume j: "j < length ?spans" and s: "s = srv # rest"
    show "\<exists>y s' r'. ?get (?spans ! j) s r = Ret (Inr y, s', r') \<and> s' = srv # rest"
      unfolding s using Convo_Get_total [OF rd span_within [OF j] k ok, of N r] by (auto simp: lift_hd_Ret)
  qed
  then obtain ys s' r' where run: "CallMany order ?get ?spans (srv # rest) r = Ret (Inr ys, s', r')" by blast
  have "s' = srv # rest \<and> length ys = length ?spans \<and> (\<forall>i < length ?spans. True)"
  proof (rule CallMany_inv [OF run order, where I = "\<lambda>_ cs. cs = srv # rest"])
    fix D j s r y s' r'
    assume "s = srv # rest" "?get (?spans ! j) s r = Ret (Inr y, s', r')"
    then show "s' = srv # rest \<and> True" using Convo_Get_returned by (auto simp: lift_hd_Ret)
  qed simp
  with run show ?thesis by blast
qed


lemma Convo_Close_last_total:
  assumes N: "nacl_ok N" and "LastServer srv" "Idle srv" "onion_size N srv = onion_in N 1"
  shows "\<exists>srv2 rd2. Convo_Close N client orders Round (batch_at N Round onions {..<length onions} rd srv, c) r = Ret (Inr (), (srv2, c), r)
    \<and> getRound srv2 Round convoRoundClosed = Inr rd2 \<and> \<not> Idle srv2
    \<and> length (incomingIndex rd2) = length onions \<and> length (sharedKeys rd2) = length onions \<and> None \<notin> set (sharedKeys rd2)
    \<and> (\<forall>v \<in> set (incomingIndex rd2). v = - 1 \<or> 0 \<le> v \<and> nat v < length (replies rd2))"
proof -
  let ?ms = "opened N Round (PrivateKey srv) 1 onions"
  obtain rd1 where at: "batch_at N Round onions {..<length onions} rd srv = put_round Round rd1 srv"
    and rd1: "status rd1 = convoRoundOpen" "incoming rd1 = ?ms"
      "sharedKeys rd1 = map (\<lambda>onion. Some (server_key N Round (PrivateKey srv) (onion_in N 1) onion)) onions"
    using batch_full [OF assms(4), of Round onions rd] by blast
  let ?rd = "rd1\<lparr>incoming := map Some (kept_messages ?ms), incomingIndex := map (rank {} ?ms) [0..<length ?ms]\<rparr>"
  have filt: "filterIncoming rd1 = Ret ?rd"
    using filterIncoming_eq [of rd1] opened_long_enough [OF N, of Round "PrivateKey srv" 0 onions] by (simp add: rd1)
  obtain reps singles doubles where ex: "exchange_all (map (decode_exchange N) (map Some (kept_messages ?ms))) = (reps, singles, doubles)"
    by (cases "exchange_all (map (decode_exchange N) (map Some (kept_messages ?ms)))")
  have len: "length reps = length (kept_messages ?ms)"
    using length_exchange_all [of "map (decode_exchange N) (map Some (kept_messages ?ms))"] unfolding ex by simp
  let ?rd2 = "?rd\<lparr>replies := reps, status := convoRoundClosed\<rparr>"
  let ?srv2 = "put_round Round ?rd2 (report_access \<lparr>Singles = singles, Doubles = doubles\<rparr> ((put_round Round rd1 srv)\<lparr>Idle := False\<rparr>))"
  have "Convo_Close N client orders Round (batch_at N Round onions {..<length onions} rd srv, c) r = Ret (Inr (), (?srv2, c), r)"
    using assms(2,3) filt ex rd1(1) by (simp add: at Convo_Close_eq unlock_idle_def del: map_map)
  moreover have "\<not> Idle ?srv2" by (simp add: report_access_def)
  moreover have "\<forall>v \<in> set (incomingIndex ?rd2). v = - 1 \<or> 0 \<le> v \<and> nat v < length (replies ?rd2)"
    using rank_in_range [of _ ?ms] len by auto
  moreover have "length (incomingIndex ?rd2) = length onions" "length (sharedKeys ?rd2) = length onions" "None \<notin> set (sharedKeys ?rd2)"
    by (auto simp: rd1 opened_def)
  ultimately show ?thesis by (intro exI [of _ ?srv2] exI [of _ ?rd2]) simp
qed

lemma last_server_round:
  assumes N: "nacl_ok N" and ch: "chain_ok pki [srv]" and free: "\<not> Idle srv" "rounds srv Round = None"
    and sched: "sched_ok orders" and len: "length onions < 2 ^ 62"
  shows "\<exists>srv1 reps srv2 r'. NewConvoRound (convo_chain N F sch (Suc 0)) Round [srv] r = Ret (Inr (), [srv1], r)
    \<and> RunConvoRound (convo_chain N F sch (Suc 0)) orders Round onions [srv1] r = Ret (Inr reps, [srv2], r')
    \<and> rounds srv2 Round = None \<and> \<not> Idle srv2"
proof -
  let ?srv1 = "put_round Round new_round (srv\<lparr>Idle := True\<rparr>)" and ?spans = "spans_loop 0 (length onions) 4000"
  have last: "LastServer srv" using ch by simp
  have new: "NewConvoRound (convo_chain N F sch (Suc 0)) Round [srv] r = Ret (Inr (), [?srv1], r)"
    using free last by (simp add: NewConvoRound_def lift_hd_Ret Convo_NewRound_def)
  have get: "getRound ?srv1 Round convoRoundNew = Inr new_round" by (simp add: new_round_def)
  have orders: "complete_order (length ?spans) (fst orders (length ?spans))" "complete_order (length ?spans) (snd orders (length ?spans))"
    using sched by (simp_all add: sched_ok_def)
  have sz: "onion_size N ?srv1 = onion_in N 1" "LastServer ?srv1" "Idle ?srv1" using chain_sizes(1) [OF N ch] last by simp_all
  obtain ys r1 where add: "CallMany (fst orders (length ?spans))
      (\<lambda>sp. call_Add (convo_chain N F sch (Suc 0)) Round (int (Start sp)) (span_of onions sp)) ?spans
      (batch_at N Round onions {} new_round ?srv1 # []) r =
    Ret (Inr ys, batch_at N Round onions {..<length onions} new_round ?srv1 # [], r1)"
    using chain_Add_total [OF len orders(1)] by blast
  from Convo_Close_last_total [OF N sz(2,3,1), of "convo_chain N F sch 0" "sch 0" Round onions new_round "[]" r1]
  obtain srv2 rd2 where close: "Convo_Close N (convo_chain N F sch 0) (sch 0) Round (batch_at N Round onions {..<length onions} new_round ?srv1, []) r1 =
      Ret (Inr (), (srv2, []), r1)" and rd2: "getRound srv2 Round convoRoundClosed = Inr rd2"
    and ok: "length (incomingIndex rd2) = length onions" "length (sharedKeys rd2) = length onions" "None \<notin> set (sharedKeys rd2)"
      "\<forall>v \<in> set (incomingIndex rd2). v = - 1 \<or> 0 \<le> v \<and> nat v < length (replies rd2)" and idle: "\<not> Idle srv2" by blast
  obtain results r2 where fetch: "CallMany (snd orders (length ?spans))
      (\<lambda>sp. call_Get (convo_chain N F sch (Suc 0)) Round (int (Start sp)) (int (Count sp))) ?spans (srv2 # []) r1 =
    Ret (Inr results, srv2 # [], r2)"
    using chain_Get_total [OF orders(2) len rd2 ok] by blast
  have "call_Open (convo_chain N F sch (Suc 0)) Round (int (length onions)) [?srv1] r = Ret (Inr (), [batch_at N Round onions {} new_round ?srv1], r)"
    using Convo_Open_batch [OF get, of onions r N] by (simp add: lift_hd_Ret)
  moreover have "call_Close (convo_chain N F sch (Suc 0)) Round [batch_at N Round onions {..<length onions} new_round ?srv1] r1 = Ret (Inr (), [srv2], r1)"
    using close by (simp add: lift_pair_Ret)
  moreover have "call_Delete (convo_chain N F sch (Suc 0)) Round [srv2] r2 = Ret (Inr (), [srv2\<lparr>rounds := (rounds srv2)(Round := None)\<rparr>], r2)"
    by (simp add: lift_hd_Ret Convo_Delete_def)
  ultimately have "RunConvoRound (convo_chain N F sch (Suc 0)) orders Round onions [?srv1] r =
      Ret (Inr (fold (\<lambda>(sp, res). copy_span sp res) (zip ?spans results) (replicate (length onions) [])), [srv2\<lparr>rounds := (rounds srv2)(Round := None)\<rparr>], r2)"
    using add fetch by (simp add: RunConvoRound_def Spans_def give_def del: convo_chain.simps)
  moreover have "rounds (srv2\<lparr>rounds := (rounds srv2)(Round := None)\<rparr>) Round = None" "\<not> Idle (srv2\<lparr>rounds := (rounds srv2)(Round := None)\<rparr>)"
    using idle by simp_all
  ultimately show ?thesis using new by blast
qed


section \<open>Properties\<close>

lemma round_refines:
  assumes N: "nacl_ok N" and sch: "\<forall>n. sched_ok (sch n)" "sched_ok orders"
    and ch: "chain_ok pki (srv # rest)" "\<forall>s \<in> set (srv # rest). convo_inv N s"
    and new: "NewConvoRound (convo_chain N F sch (Suc (length rest))) Round (srv # rest) r0 = Ret (Inr (), ss1, r1)"
    and run: "RunConvoRound (convo_chain N F sch (Suc (length rest))) orders Round onions ss1 r1 = Ret (Inr reps, ss2, r2)"
    and len: "length onions < 2 ^ 62"
  shows "\<exists>batches exs. mix_round N Round (map PrivateKey (srv # rest)) onions reps batches exs"
proof -
  obtain srv1 where new1: "Convo_NewRound N F Round srv r0 = Ret (Inr (), srv1, r1)" and ss1: "ss1 = srv1 # rest"
    using new by (auto simp: NewConvoRound_def lift_hd_Ret)
  obtain rd where rd: "getRound srv1 Round convoRoundNew = Inr rd" and same: "srv_PKI srv1 = srv_PKI srv" "ServerName srv1 = ServerName srv"
      "PrivateKey srv1 = PrivateKey srv" "LastServer srv1 = LastServer srv"
    using Convo_NewRound_new [OF new1] by blast
  have "chain_ok pki (srv1 # rest)" using ch(1) same by simp
  moreover have "\<forall>s \<in> set (srv1 # rest). convo_inv N s" using ch(2) convo_inv_NewRound [OF N _ new1] by simp
  ultimately have "\<exists>batches exs. mix_round N Round (map PrivateKey (srv1 # rest)) onions reps batches exs"
    by (rule chain_refines [OF N sch(1) _ _ rd sch(2) len run [unfolded ss1]])
  then show ?thesis by (simp add: same)
qed


text \<open>
  End to end.  In every round that completes, two clients that sealed exchanges with the same dead
  drop, whose messages no server mistook for a repetition, and that were alone at the drop, open the
  replies at their positions to each other's encrypted message.
\<close>

theorem conversation_delivered:
  assumes "nacl_ok N" "\<forall>n. sched_ok (sch n)" "sched_ok orders"
    and "chain_ok pki (srv # rest)" "\<forall>s \<in> set (srv # rest). convo_inv N s"
    and "NewConvoRound (convo_chain N F sch (Suc (length rest))) Round (srv # rest) r0 = Ret (Inr (), ss1, r1)"
    and "RunConvoRound (convo_chain N F sch (Suc (length rest))) orders Round onions ss1 r1 = Ret (Inr reps, ss2, r2)"
    and "length onions < 2 ^ 62"
  shows "\<exists>batches exs. mix_round N Round (map PrivateKey (srv # rest)) onions reps batches exs
    \<and> (\<forall>i j exi exj ki kj. i < length onions \<longrightarrow> j < length onions \<longrightarrow> i \<noteq> j \<longrightarrow>
        sealed_for N Round (map PrivateKey (srv # rest)) exi (onions ! i) ki \<longrightarrow>
        sealed_for N Round (map PrivateKey (srv # rest)) exj (onions ! j) kj \<longrightarrow>
        undisturbed N Round (map PrivateKey (srv # rest)) batches (onions ! i) \<longrightarrow>
        undisturbed N Round (map PrivateKey (srv # rest)) batches (onions ! j) \<longrightarrow>
        DeadDrop exi = DeadDrop exj \<longrightarrow> length (filter (\<lambda>e. DeadDrop e = DeadDrop exi) exs) \<le> 2 \<longrightarrow>
        Onion_Open N (reps ! i) (BackwardNonce Round) ki = Some (EncryptedMessage exj))"
proof -
  obtain batches exs where mix: "mix_round N Round (map PrivateKey (srv # rest)) onions reps batches exs"
    using round_refines [OF assms] by blast
  with mix_round_delivers [OF assms(1) mix] show ?thesis by blast
qed

text \<open>
  C9: the last server answers.  Started on an idle server that does not know the round, a round of
  arbitrary onions, of whatever lengths and contents, returns a reply for each, and leaves the server
  idle and the round forgotten.
\<close>

theorem last_server_answers:
  assumes "nacl_ok N" "chain_ok pki [srv]" "\<not> Idle srv" "rounds srv Round = None" "sched_ok orders" "length onions < 2 ^ 62"
  shows "\<exists>srv1 reps srv2 r'. NewConvoRound (convo_chain N F sch (Suc 0)) Round [srv] r = Ret (Inr (), [srv1], r)
    \<and> RunConvoRound (convo_chain N F sch (Suc 0)) orders Round onions [srv1] r = Ret (Inr reps, [srv2], r')
    \<and> length reps = length onions \<and> rounds srv2 Round = None \<and> \<not> Idle srv2"
proof -
  obtain srv1 reps srv2 r' where "NewConvoRound (convo_chain N F sch (Suc 0)) Round [srv] r = Ret (Inr (), [srv1], r)"
    and run: "RunConvoRound (convo_chain N F sch (Suc 0)) orders Round onions [srv1] r = Ret (Inr reps, [srv2], r')"
    and "rounds srv2 Round = None" "\<not> Idle srv2"
    using last_server_round [OF assms] by blast
  with RunConvoRound_length [OF run] show ?thesis by blast
qed

section \<open>Witnesses\<close>

abbreviation in_order :: "schedule \<times> schedule" where
  "in_order \<equiv> (\<lambda>n. [0..<n], \<lambda>n. [0..<n])"

lemma in_order_ok: "sched_ok in_order"
  by (simp add: sched_ok_def complete_upt)

lemma sample_chain: "chain_ok (srv_PKI sample_service) [sample_service]"
  by (simp add: sample_service_def Index_def)

lemma sample_inv: "\<forall>s \<in> set [sample_service]. convo_inv N s"
  by (simp add: convo_inv_def sample_service_pki) (simp add: sample_service_def)

lemma sample_free: "\<not> Idle sample_service" "rounds sample_service Round = None"
  by (simp_all add: sample_service_def)

abbreviation sample_client :: "ConvoService list convo_client" where
  "sample_client \<equiv> convo_chain clear_box exact_float64 (\<lambda>_. in_order) (Suc (length ([] :: ConvoService list)))"

lemma sample_round:
  assumes "length onions < 2 ^ 62"
  shows "\<exists>srv1 reps srv2 r'. NewConvoRound sample_client 7 [sample_service] (\<lambda>_. 0) = Ret (Inr (), [srv1], \<lambda>_. 0)
    \<and> RunConvoRound sample_client in_order 7 onions [srv1] (\<lambda>_. 0) = Ret (Inr reps, [srv2], r')"
  using last_server_round [OF clear_box_ok sample_chain sample_free in_order_ok assms, of exact_float64 "\<lambda>_. in_order" 7 "\<lambda>_. 0"]
  unfolding list.size(3) by blast

theorem last_server_answers_witness:
  "\<exists>srv1 reps srv2 r'. RunConvoRound sample_client in_order 7 [[1, 2], []] [srv1] (\<lambda>_. 0) = Ret (Inr reps, [srv2], r')
    \<and> length reps = length [[1 :: byte, 2], []]"
proof -
  have "length [[1 :: byte, 2], []] < 2 ^ 62" by simp
  from last_server_answers [OF clear_box_ok sample_chain sample_free in_order_ok this, of exact_float64 "\<lambda>_. in_order" 7 "\<lambda>_. 0"]
  show ?thesis unfolding list.size(3) by blast
qed


text \<open>Two clients at one dead drop, on a single server.\<close>

abbreviation note_from :: "byte \<Rightarrow> ConvoExchange" where
  "note_from b \<equiv> \<lparr>DeadDrop = replicate 16 9, EncryptedMessage = replicate 256 b\<rparr>"

lemma note_wf: "wf_ConvoExchange clear_box (note_from b)"
  by (simp add: wf_ConvoExchange_def SizeEncryptedMessage_eq clear_box_ok)

lemma note_key: "msgkey (ConvoExchange_Marshal (note_from b)) = Uint64 (replicate 8 b)"
  by (simp add: msgkey_def ConvoExchange_Marshal_def)

lemma single_server_opens:
  assumes "nacl_ok N" "sealed_for N Round [sk] ex onion ks"
  shows "server_open N Round sk (onion_in N 1) onion = Some (ConvoExchange_Marshal ex)"
proof -
  have "length (ConvoExchange_Marshal ex) = SizeConvoExchange N"
    using ce.enc_size [of N ex] assms by (simp add: sealed_for_def wire_simps)
  then obtain w where "way N (SizeConvoExchange N) Round [sk] onion = Some w" "snd (last w) = ConvoExchange_Marshal ex"
    using seal_way [OF assms(1), of "ConvoExchange_Marshal ex" "SizeConvoExchange N" Round "[sk]"] assms(2) unfolding sealed_for_def by blast
  then show ?thesis by (auto simp: way_convo simp del: way.simps(2) split: option.splits)
qed

lemma single_server_batches:
  assumes "mix_round N Round [sk] onions reps batches exs"
  shows "batches = [opened N Round sk 1 onions] \<and> length exs \<le> length onions"
  using assms
proof cases
  case (mix_last ms)
  then show ?thesis using length_kept_messages [of ms] by (simp add: opened_def)
qed (auto elim: mix_round.cases)

theorem conversation_delivered_witness:
  "\<exists>onions k0 k1 srv1 srv2 r' reps. length onions = 2
    \<and> sealed_for clear_box 7 (map PrivateKey [sample_service]) (note_from 1) (onions ! 0) k0
    \<and> sealed_for clear_box 7 (map PrivateKey [sample_service]) (note_from 2) (onions ! 1) k1
    \<and> NewConvoRound sample_client 7 [sample_service] (\<lambda>_. 0) = Ret (Inr (), [srv1], \<lambda>_. 0)
    \<and> RunConvoRound sample_client in_order 7 onions [srv1] (\<lambda>_. 0) = Ret (Inr reps, [srv2], r')
    \<and> Onion_Open clear_box (reps ! 0) (BackwardNonce 7) k0 = Some (replicate 256 2)"
proof -
  let ?sks = "map PrivateKey [sample_service]"
  have "\<exists>onion k. sealed_for clear_box 7 ?sks (note_from b) onion k" for b
    using Onion_Seal_total [OF clear_box_ok, of "public_keys clear_box ?sks" "ConvoExchange_Marshal (note_from b)" "ForwardNonce 7" "\<lambda>_. 0"]
      note_wf unfolding sealed_for_def by auto
  then obtain o0 k0 o1 k1 where seal: "sealed_for clear_box 7 ?sks (note_from 1) o0 k0" "sealed_for clear_box 7 ?sks (note_from 2) o1 k1"
    by metis
  have len: "length [o0, o1] < 2 ^ 62" by simp
  obtain srv1 reps srv2 r' where new: "NewConvoRound sample_client 7 [sample_service] (\<lambda>_. 0) = Ret (Inr (), [srv1], \<lambda>_. 0)"
    and run: "RunConvoRound sample_client in_order 7 [o0, o1] [srv1] (\<lambda>_. 0) = Ret (Inr reps, [srv2], r')"
    using sample_round [OF len] by blast
  have "\<forall>n :: nat. sched_ok in_order" using in_order_ok by blast
  from conversation_delivered [OF clear_box_ok this in_order_ok sample_chain sample_inv new run len]
  obtain batches exs where mix: "mix_round clear_box 7 ?sks [o0, o1] reps batches exs"
    and deliver: "\<And>i j exi exj ki kj. i < length [o0, o1] \<Longrightarrow> j < length [o0, o1] \<Longrightarrow> i \<noteq> j \<Longrightarrow>
        sealed_for clear_box 7 ?sks exi ([o0, o1] ! i) ki \<Longrightarrow> sealed_for clear_box 7 ?sks exj ([o0, o1] ! j) kj \<Longrightarrow>
        undisturbed clear_box 7 ?sks batches ([o0, o1] ! i) \<Longrightarrow> undisturbed clear_box 7 ?sks batches ([o0, o1] ! j) \<Longrightarrow>
        DeadDrop exi = DeadDrop exj \<Longrightarrow> length (filter (\<lambda>e. DeadDrop e = DeadDrop exi) exs) \<le> 2 \<Longrightarrow>
        Onion_Open clear_box (reps ! i) (BackwardNonce 7) ki = Some (EncryptedMessage exj)" by blast
  have opens: "server_open clear_box 7 (PrivateKey sample_service) (onion_in clear_box 1) o0 = Some (ConvoExchange_Marshal (note_from 1))"
    "server_open clear_box 7 (PrivateKey sample_service) (onion_in clear_box 1) o1 = Some (ConvoExchange_Marshal (note_from 2))"
    using single_server_opens [OF clear_box_ok] seal by simp_all
  have batches: "batches = [[Some (ConvoExchange_Marshal (note_from 1)), Some (ConvoExchange_Marshal (note_from 2))]]" "length exs \<le> 2"
    using single_server_batches [of clear_box 7 "PrivateKey sample_service" "[o0, o1]" reps batches exs] mix opens
    by (simp_all add: opened_def)
  have "undisturbed clear_box 7 ?sks batches o0" "undisturbed clear_box 7 ?sks batches o1"
    using opens by (simp_all add: undisturbed_def way_convo batches lone_def note_key Uint64_inj del: way.simps(2))
  moreover have "length (filter (\<lambda>e. DeadDrop e = DeadDrop (note_from 1)) exs) \<le> 2"
    using batches(2) length_filter_le le_trans by blast
  ultimately have "Onion_Open clear_box (reps ! 0) (BackwardNonce 7) k0 = Some (EncryptedMessage (note_from 2))"
    by (intro deliver [of 0 1 "note_from 1" k0 "note_from 2" k1]) (use seal in simp_all)
  with seal new run show ?thesis
    by (intro exI [of _ "[o0, o1]"] exI [of _ k0] exI [of _ k1] exI [of _ srv1] exI [of _ srv2] exI [of _ r'] exI [of _ reps]) simp
qed

end
