(* ===== verification/Dial.thy ===== *)
theory Dial
  imports PKI Noise Laplace Vrpc DeadDrops Shuffle Spans
begin

text \<open>
  The dialing service of a mix server, \<^verbatim>\<open>dial.go\<close>: the handlers of \<^verbatim>\<open>NewRound\<close>, \<^verbatim>\<open>Add\<close>, \<^verbatim>\<open>Close\<close> and
  \<^verbatim>\<open>Buckets\<close>, and the client functions \<^verbatim>\<open>NewDialRound\<close> and \<^verbatim>\<open>RunDialRound\<close>.

  The conventions are those of \<open>Convo\<close>: handlers are actions, the mutex \<^verbatim>\<open>Idle\<close> is a flag, the
  next server is a record of calls.  Unlike in a conversation round the noise counts are drawn inside
  the goroutine, so a draw that never ends does not keep \<open>NewRound\<close> from returning: the noise of the
  round is then \<open>None\<close>, and \<open>Close\<close>, which waits for it, does not return.  A panic of the goroutine ends
  the server; it is charged to the call that started it.  A nil slice and an empty one are both \<open>[]\<close>:
  no handler tells them apart.
\<close>

section \<open>State\<close>

datatype dialStatus = dialRoundOpen | dialRoundClosed

primrec dial_status_num :: "dialStatus \<Rightarrow> nat" where
  "dial_status_num dialRoundOpen = 1"
| "dial_status_num dialRoundClosed = 2"

record DialRound =
  d_status :: dialStatus
  d_incoming :: "bytes list"
  d_noise :: "bytes list option"

record DialService =
  d_rounds :: "u32 \<Rightarrow> DialRound option"
  d_Idle :: bool
  d_LaplaceMu :: real
  d_LaplaceB :: real
  d_PKI :: PKI
  d_ServerName :: string
  d_PrivateKey :: bytes
  d_LastServer :: bool

definition InitDialService :: "DialService \<Rightarrow> DialService" where
  "InitDialService srv = srv\<lparr>d_rounds := Map.empty\<rparr>"

definition put_dial :: "u32 \<Rightarrow> DialRound \<Rightarrow> DialService \<Rightarrow> DialService" where
  "put_dial Round rd srv = srv\<lparr>d_rounds := (d_rounds srv)(Round \<mapsto> rd)\<rparr>"

section \<open>Handlers\<close>

definition dial_getRound :: "DialService \<Rightarrow> u32 \<Rightarrow> dialStatus \<Rightarrow> gerr + DialRound" where
  "dial_getRound srv Round expectedStatus =
     (case d_rounds srv Round of
        None \<Rightarrow> Inl (RoundNotFound Round)
      | Some rd \<Rightarrow>
          if d_status rd \<noteq> expectedStatus
          then Inl (RoundStatus Round (dial_status_num (d_status rd)) (dial_status_num expectedStatus))
          else Inr rd)"

text \<open>The loop over the buckets: a draw for each, and their sum with wrap-around.\<close>

definition dial_counts :: "float64 \<Rightarrow> DialService \<Rightarrow> rng \<Rightarrow> ((int list \<times> int) \<times> rng) outcome" where
  "dial_counts F srv r =
     obind (omap (\<lambda>b r. of_opt (cappedFlooredLaplace F (d_LaplaceMu srv) (d_LaplaceB srv) r)) [0..<TotalDialBuckets] r)
       (\<lambda>(noiseCounts, r). Ret ((noiseCounts, fold (\<lambda>bmu noiseTotal. wrap_int (noiseTotal + bmu)) noiseCounts 0), r))"

definition dial_noise :: "nacl \<Rightarrow> float64 \<Rightarrow> DialService \<Rightarrow> u32 \<Rightarrow> rng \<Rightarrow> (bytes list \<times> rng) outcome" where
  "dial_noise N F srv Round r =
     obind (dial_counts F srv r) (\<lambda>((noiseCounts, noiseTotal), r).
       if noiseTotal < 0 then Panic
       else obind (NextServerKeys (d_PKI srv) (d_ServerName srv)) (\<lambda>nextKeys.
         obind (FillWithFakeIntroductions N (replicate (nat noiseTotal) None) noiseCounts (ForwardNonce Round) (Keys nextKeys) r)
           (\<lambda>(fake, r). Ret (map (case_option [] id) fake, r))))"

definition Dial_NewRound :: "nacl \<Rightarrow> float64 \<Rightarrow> u32 \<Rightarrow> (DialService, unit) action" where
  "Dial_NewRound N F Round srv r =
     (if d_Idle srv then Hang
      else let srv = srv\<lparr>d_Idle := True\<rparr> in
        if d_rounds srv Round \<noteq> None then Ret (Inl (RoundExists Round), srv, r)
        else case dial_noise N F srv Round r of
               Panic \<Rightarrow> Panic
             | Hang \<Rightarrow> Ret (Inr (), put_dial Round \<lparr>d_status = dialRoundOpen, d_incoming = [], d_noise = None\<rparr> srv, r)
             | Ret (fake, r) \<Rightarrow>
                 Ret (Inr (), put_dial Round \<lparr>d_status = dialRoundOpen, d_incoming = [], d_noise = Some fake\<rparr> srv, r))"

text \<open>The loop of \<^verbatim>\<open>Add\<close>: the messages in the onions that have the right size and open.\<close>

primrec dial_messages :: "nacl \<Rightarrow> bytes \<Rightarrow> bytes \<Rightarrow> nat \<Rightarrow> bytes list \<Rightarrow> bytes list" where
  "dial_messages N nonce privateKey expectedOnionSize [] = []"
| "dial_messages N nonce privateKey expectedOnionSize (onion # onions) =
     (if length onion = expectedOnionSize then
        let theirPublic = copy_into (replicate 32 0) (slice 0 32 onion)
        in case box_Open N (drop 32 onion) nonce theirPublic privateKey of
             None \<Rightarrow> dial_messages N nonce privateKey expectedOnionSize onions
           | Some message \<Rightarrow> message # dial_messages N nonce privateKey expectedOnionSize onions
      else dial_messages N nonce privateKey expectedOnionSize onions)"

definition Dial_Add :: "nacl \<Rightarrow> u32 \<Rightarrow> bytes list \<Rightarrow> (DialService, unit) action" where
  "Dial_Add N Round Onions srv r =
     (case dial_getRound srv Round dialRoundOpen of
        Inl err \<Rightarrow> Ret (Inl err, srv, r)
      | Inr rd \<Rightarrow>
          let expectedOnionSize = IncomingOnionOverhead N (d_PKI srv) (d_ServerName srv) + SizeDialExchange N;
              messages = dial_messages N (ForwardNonce Round) (d_PrivateKey srv) expectedOnionSize Onions
          in Ret (Inr (), put_dial Round (rd\<lparr>d_incoming := d_incoming rd @ messages\<rparr>) srv, r))"

primrec dial_filter :: "bytes list \<Rightarrow> u64 set \<Rightarrow> bytes list outcome" where
  "dial_filter [] seen = Ret []"
| "dial_filter (msg # msgs) seen =
     (if length msg < 8 then Panic
      else if msgkey msg \<in> seen then dial_filter msgs seen
      else obind (dial_filter msgs (insert (msgkey msg) seen)) (\<lambda>valid. Ret (msg # valid)))"

record 'c dial_client =
  call_DialNewRound :: "u32 \<Rightarrow> ('c, unit) action"
  call_DialAdd :: "u32 \<Rightarrow> bytes list \<Rightarrow> ('c, unit) action"
  call_DialClose :: "u32 \<Rightarrow> ('c, unit) action"

definition NewDialRound :: "'c dial_client \<Rightarrow> u32 \<Rightarrow> ('c, unit) action" where
  "NewDialRound client Round = call_DialNewRound client Round"

text \<open>\<open>order\<close> gives, for a number of calls, the order in which the next server runs the \<^verbatim>\<open>Add\<close> calls.\<close>

definition RunDialRound :: "'c dial_client \<Rightarrow> (nat \<Rightarrow> nat list) \<Rightarrow> u32 \<Rightarrow> bytes list \<Rightarrow> ('c, unit) action" where
  "RunDialRound client order Round onions c r =
     obind (Spans (length onions) 4000) (\<lambda>spans.
       attempt ''Add'' (CallMany (order (length spans)) (\<lambda>sp. call_DialAdd client Round (span_of onions sp)) spans) (\<lambda>_.
       attempt ''Close'' (call_DialClose client Round) (\<lambda>_.
       give ())) c r)"

definition dial_unlock :: "DialService \<Rightarrow> DialService outcome" where
  "dial_unlock srv = (if d_Idle srv then Ret (srv\<lparr>d_Idle := False\<rparr>) else Panic)"

text \<open>
  \<^verbatim>\<open>Close\<close> in two parts, up to \<^verbatim>\<open>srv.Idle.Unlock()\<close> and from there to the end, as for conversations.  A relaying
  server has its messages left to send.
\<close>

datatype dial_rest =
    DialRelayRest "bytes list"
  | DialLastRest

definition Dial_Close_begin :: "'c dial_client \<Rightarrow> u32 \<Rightarrow> (DialService \<times> 'c, dial_rest) action" where
  "Dial_Close_begin client Round = (\<lambda>(srv, c) r.
     case dial_getRound srv Round dialRoundOpen of
       Inl err \<Rightarrow> Ret (Inl err, (srv, c), r)
     | Inr rd \<Rightarrow>
         obind (dial_filter (d_incoming rd) {}) (\<lambda>valid.
         obind (of_opt (d_noise rd)) (\<lambda>fake.
         obind (NewShuffler r (length (valid @ fake))) (\<lambda>(shuffler, r).
         obind (Shuffle shuffler (valid @ fake)) (\<lambda>shuffled.
         let srv = put_dial Round (rd\<lparr>d_incoming := shuffled\<rparr>) srv
         in if \<not> d_LastServer srv then
              obind (NewDialRound client Round c r) (\<lambda>(res, c, r).
              case res of
                Inl err \<Rightarrow> Ret (Inl (Wrapped ''NewDialRound'' err), (srv, c), r)
              | Inr _ \<Rightarrow> obind (dial_unlock srv) (\<lambda>srv. Ret (Inr (DialRelayRest shuffled), (srv, c), r)))
            else obind (dial_unlock srv) (\<lambda>srv. Ret (Inr DialLastRest, (srv, c), r)))))))"

definition Dial_Close_end :: "'c dial_client \<Rightarrow> (nat \<Rightarrow> nat list) \<Rightarrow> u32 \<Rightarrow> dial_rest \<Rightarrow> (DialService \<times> 'c, unit) action" where
  "Dial_Close_end client order Round rest = (\<lambda>(srv, c) r.
     obind (deref (d_rounds srv Round)) (\<lambda>rd.
     case rest of
       DialRelayRest msgs \<Rightarrow>
         obind (RunDialRound client order Round msgs c r) (\<lambda>(res, c, r).
         case res of
           Inl err \<Rightarrow> Ret (Inl (Wrapped ''RunDialRound'' err), (srv, c), r)
         | Inr _ \<Rightarrow> Ret (Inr (), (put_dial Round (rd\<lparr>d_incoming := [], d_noise := Some [], d_status := dialRoundClosed\<rparr>) srv, c), r))
     | DialLastRest \<Rightarrow> Ret (Inr (), (put_dial Round (rd\<lparr>d_noise := Some [], d_status := dialRoundClosed\<rparr>) srv, c), r)))"

definition Dial_Close ::
  "'c dial_client \<Rightarrow> (nat \<Rightarrow> nat list) \<Rightarrow> u32 \<Rightarrow> (DialService \<times> 'c, unit) action" where
  "Dial_Close client order Round x r =
     obind (Dial_Close_begin client Round x r) (\<lambda>(res, x, r).
       case res of
         Inl err \<Rightarrow> Ret (Inl err, x, r)
       | Inr rest \<Rightarrow> Dial_Close_end client order Round rest x r)"

text \<open>The body of the loop of \<^verbatim>\<open>Buckets\<close>.\<close>

definition add_bucket :: "nacl \<Rightarrow> bytes \<Rightarrow> bytes list list \<Rightarrow> bytes list list" where
  "add_bucket N m buckets =
     (if length m \<noteq> SizeDialExchange N then buckets
      else case DialExchange_Unmarshal N m of
             Inl err \<Rightarrow> buckets
           | Inr ex \<Rightarrow>
               if Bucket ex \<ge> of_nat (length buckets) then buckets
               else buckets[unat (Bucket ex) := buckets ! unat (Bucket ex) @ [EncryptedIntro ex]])"

definition Dial_Buckets :: "nacl \<Rightarrow> u32 \<Rightarrow> (DialService, bytes list list) action" where
  "Dial_Buckets N Round srv r =
     (if \<not> d_LastServer srv then Ret (Inl NotLastServer, srv, r)
      else case dial_getRound srv Round dialRoundClosed of
             Inl err \<Rightarrow> Ret (Inl err, srv, r)
           | Inr rd \<Rightarrow> Ret (Inr (fold (add_bucket N) (d_incoming rd) (replicate TotalDialBuckets [])), srv, r))"

section \<open>Close in one go\<close>

text \<open>The two parts of \<^verbatim>\<open>Close\<close> when nothing happens in between.\<close>

lemma Dial_Close_eq:
  "Dial_Close client order Round = (\<lambda>(srv, c) r.
     case dial_getRound srv Round dialRoundOpen of
       Inl err \<Rightarrow> Ret (Inl err, (srv, c), r)
     | Inr rd \<Rightarrow>
         obind (dial_filter (d_incoming rd) {}) (\<lambda>valid.
         obind (of_opt (d_noise rd)) (\<lambda>fake.
         obind (NewShuffler r (length (valid @ fake))) (\<lambda>(shuffler, r).
         obind (Shuffle shuffler (valid @ fake)) (\<lambda>shuffled.
         let rd = rd\<lparr>d_incoming := shuffled\<rparr>; srv = put_dial Round rd srv
         in if \<not> d_LastServer srv then
              obind (NewDialRound client Round c r) (\<lambda>(res, c, r).
              case res of
                Inl err \<Rightarrow> Ret (Inl (Wrapped ''NewDialRound'' err), (srv, c), r)
              | Inr _ \<Rightarrow>
                  obind (dial_unlock srv) (\<lambda>srv.
                  obind (RunDialRound client order Round shuffled c r) (\<lambda>(res, c, r).
                  case res of
                    Inl err \<Rightarrow> Ret (Inl (Wrapped ''RunDialRound'' err), (srv, c), r)
                  | Inr _ \<Rightarrow>
                      Ret (Inr (), (put_dial Round (rd\<lparr>d_incoming := [], d_noise := Some [], d_status := dialRoundClosed\<rparr>) srv, c), r))))
            else
              obind (dial_unlock srv) (\<lambda>srv.
                Ret (Inr (), (put_dial Round (rd\<lparr>d_noise := Some [], d_status := dialRoundClosed\<rparr>) srv, c), r)))))))"
    (is "_ = ?rhs")
proof -
  note defs = Dial_Close_def Dial_Close_begin_def Dial_Close_end_def Let_def dial_unlock_def put_dial_def deref_def
  have "Dial_Close client order Round (srv, c) r = ?rhs (srv, c) r" for srv c r
    by (cases "dial_getRound srv Round dialRoundOpen"; cases "d_LastServer srv") (simp_all add: defs split: obind_split sum.split prod.split)
  then have "Dial_Close client order Round x r = ?rhs x r" for x r by (cases x) (simp only: prod.case)
  then show ?thesis by (intro ext)
qed

end
