(* ===== verification/DialRounds.thy ===== *)
theory DialRounds
  imports Dial Delivery
begin

text \<open>
  Dialing rounds.  The invariant of the dialing service, the chain of dialing services, an abstract
  specification of what a chain does to a batch of dial requests, the refinement, and the contents of
  the dial buckets: an introduction that is not mistaken for a repetition reaches the bucket it names.
\<close>

section \<open>Filtering and opening\<close>

lemma dial_filter_loop:
  "dial_filter msgs seen = obind (filter_loop (map Some msgs) seen v) (\<lambda>(valid, index). Ret valid)"
proof (induction msgs arbitrary: seen v)
  case (Cons msg msgs)
  show ?case
    by (cases "filter_loop (map Some msgs) seen v"; cases "filter_loop (map Some msgs) (insert (msgkey msg) seen) (v + 1)")
      (auto simp: Cons.IH [of seen v] Cons.IH [of "insert (msgkey msg) seen" "v + 1"])
qed simp

lemma dial_filter_kept:
  assumes "\<forall>msg \<in> set msgs. 8 \<le> length msg"
  shows "dial_filter msgs {} = Ret (kept_messages (map Some msgs))"
proof -
  have "long_enough (map Some msgs)" using assms by (auto simp: long_enough_def)
  from filter_loop_spec [OF this, of "{}" 0] show ?thesis
    by (simp add: dial_filter_loop [of msgs "{}" 0] kept_messages_def)
qed

lemma in_kept:
  assumes "msg \<in> set msgs" "lone (map Some msgs) msg"
  shows "msg \<in> set (kept_messages (map Some msgs))"
proof -
  obtain i where i: "i < length msgs" "msgs ! i = msg" using assms(1) by (auto simp: in_set_conv_nth)
  then have "first_seen {} (map Some msgs) i" by (intro lone_first_seen [OF _ _ assms(2)]) simp_all
  then show ?thesis using kept_messages_rank [of i "map Some msgs"] i by (auto simp: in_set_conv_nth)
qed

lemma dial_messages_eq:
  "nacl_ok N \<Longrightarrow> dial_messages N (ForwardNonce Round) sk sz onions = List.map_filter (server_open N Round sk sz) onions"
  by (induction onions) (auto simp: server_open_def unwrap_layer_def nacl_open Let_def List.map_filter_simps split: option.splits)

lemma dial_messages_append:
  "dial_messages N nonce sk sz (xs @ ys) = dial_messages N nonce sk sz xs @ dial_messages N nonce sk sz ys"
  by (induction xs) (auto simp: Let_def split: option.splits)

lemma dial_messages_size:
  assumes "nacl_ok N" "msg \<in> set (dial_messages N nonce sk sz onions)"
  shows "length msg = sz - 48"
  using assms(2)
proof (induction onions)
  case (Cons onion onions)
  have "length m = sz - 48" if "length onion = sz" "box_Open N (drop 32 onion) nonce pk sk = Some m" for m pk
    using nacl_open_length [OF assms(1), of "drop 32 onion" nonce "box_Precompute N pk sk" m] that by (simp add: nacl_open [OF assms(1)])
  then show ?case using Cons by (auto simp: Let_def split: if_splits option.splits)
qed simp

section \<open>The invariant\<close>

definition dial_size :: "nacl \<Rightarrow> DialService \<Rightarrow> nat" where
  "dial_size N srv = IncomingOnionOverhead N (d_PKI srv) (d_ServerName srv) + SizeDialExchange N"

text \<open>Everything a round holds has the size that the next server expects, or that of an exchange.\<close>

definition dial_round_ok :: "nat \<Rightarrow> DialRound \<Rightarrow> bool" where
  "dial_round_ok m rd \<longleftrightarrow> (\<forall>msg \<in> set (d_incoming rd). length msg = m) \<and> (\<forall>fake. d_noise rd = Some fake \<longrightarrow> (\<forall>onion \<in> set fake. length onion = m))"

definition dial_inv :: "nacl \<Rightarrow> DialService \<Rightarrow> bool" where
  "dial_inv N srv \<longleftrightarrow> pki_ok (d_PKI srv) \<and> (\<forall>Round rd. d_rounds srv Round = Some rd \<longrightarrow> dial_round_ok (dial_size N srv - 48) rd)"

lemma put_dial_simps [simp]:
  "d_rounds (put_dial Round rd srv) = (d_rounds srv)(Round \<mapsto> rd)"
  "put_dial Round rd (put_dial Round rd' srv) = put_dial Round rd srv"
  "d_Idle (put_dial Round rd srv) = d_Idle srv" "d_PKI (put_dial Round rd srv) = d_PKI srv"
  "d_ServerName (put_dial Round rd srv) = d_ServerName srv" "d_PrivateKey (put_dial Round rd srv) = d_PrivateKey srv"
  "d_LastServer (put_dial Round rd srv) = d_LastServer srv" "dial_size N (put_dial Round rd srv) = dial_size N srv"
  by (simp_all add: put_dial_def dial_size_def)

lemma dial_size_idle [simp]: "dial_size N (srv\<lparr>d_Idle := b\<rparr>) = dial_size N srv"
  by (simp add: dial_size_def)

lemma dial_getRound_put [simp]: "dial_getRound (put_dial Round rd srv) Round st =
    (if d_status rd \<noteq> st then Inl (RoundStatus Round (dial_status_num (d_status rd)) (dial_status_num st)) else Inr rd)"
  by (simp add: dial_getRound_def)

lemma dial_getRound_Inr: "dial_getRound srv Round st = Inr rd \<longleftrightarrow> d_rounds srv Round = Some rd \<and> d_status rd = st"
  by (auto simp: dial_getRound_def split: option.splits)

lemma dial_inv_put:
  "dial_inv N srv \<Longrightarrow> dial_round_ok (dial_size N srv - 48) rd \<Longrightarrow> dial_inv N (put_dial Round rd srv)"
  by (simp add: dial_inv_def)

lemma dial_inv_idle: "dial_inv N (srv\<lparr>d_Idle := b\<rparr>) = dial_inv N srv"
  by (simp add: dial_inv_def)

lemma dial_inv_get: "dial_inv N srv \<Longrightarrow> dial_getRound srv Round st = Inr rd \<Longrightarrow> dial_round_ok (dial_size N srv - 48) rd"
  by (auto simp: dial_inv_def dial_getRound_Inr)

lemma dial_size_keys:
  assumes "nacl_ok N" "pki_ok (d_PKI srv)" "NextServerKeys (d_PKI srv) (d_ServerName srv) = Ret ks"
  shows "dial_size N srv = Suc (length ks) * 48 + SizeDialExchange N"
  using server_next_keys [OF assms(2), of "d_ServerName srv" N] assms(1,3) by (auto simp: dial_size_def wire_simps)

lemma fake_introduction_size:
  assumes "nacl_ok N" "fake_introduction N nonce pks b r = Ret (onion, r')"
  shows "length onion = SizeDialExchange N + length pks * 48"
proof -
  obtain rest r1 ks where "rread (SizeDialExchange N - 4) r = (rest, r1)"
    and seal: "Onion_Seal N (PutUint32 (of_nat b) @ rest) nonce pks r1 = Ret ((onion, ks), r')"
    using assms(2) by (auto simp: fake_introduction_def outcome_simps split: prod.splits)
  then have "length (PutUint32 (of_nat b) @ rest) = SizeDialExchange N"
    by (simp add: rread_lenD wire_simps assms(1) len_simps)
  then show ?thesis using Onion_Seal_Ret_length(2) [OF assms(1) seal] by simp
qed

lemma dial_noise_size:
  assumes N: "nacl_ok N" and pki: "pki_ok (d_PKI srv)" and run: "dial_noise N F srv Round r = Ret (fake, r')" and m: "onion \<in> set fake"
  shows "length onion = dial_size N srv - 48"
proof -
  obtain ks counts k r1 onions where ks: "NextServerKeys (d_PKI srv) (d_ServerName srv) = Ret ks"
    and fill: "FillWithFakeIntroductions N (replicate k None) counts (ForwardNonce Round) ks r1 = Ret (onions, r')"
    and fake: "fake = map (case_option [] id) onions"
    using run by (auto simp: dial_noise_def outcome_simps split: if_splits)
  obtain bs os where os: "omap (fake_introduction N (ForwardNonce Round) ks) bs r1 = Ret (os, r')" "onions = map Some os"
    using fill by (auto simp: FillWithFakeIntroductions_def outcome_simps Let_def split: if_splits)
  have "\<forall>onion \<in> set os. length onion = SizeDialExchange N + length ks * 48"
    using os(1) by (rule omap_set) (rule fake_introduction_size [OF N])
  then show ?thesis using m dial_size_keys [OF N pki ks] by (auto simp: fake os(2))
qed


lemma dial_inv_NewRound:
  assumes N: "nacl_ok N" and inv: "dial_inv N srv" and run: "Dial_NewRound N F Round srv r = Ret (res, srv', r')"
  shows "dial_inv N srv'"
proof -
  let ?srv = "srv\<lparr>d_Idle := True\<rparr>"
  have srv: "dial_inv N ?srv" "pki_ok (d_PKI ?srv)" using inv by (simp_all add: dial_inv_idle dial_inv_def)
  have "dial_inv N (put_dial Round \<lparr>d_status = dialRoundOpen, d_incoming = [], d_noise = fake\<rparr> ?srv)"
    if "fake = None \<or> (\<exists>fake' r'. fake = Some fake' \<and> dial_noise N F ?srv Round r = Ret (fake', r'))" for fake
    using dial_noise_size [OF N srv(2)] that by (intro dial_inv_put [OF srv(1)]) (auto simp: dial_round_ok_def)
  then show ?thesis
    using run srv(1) by (auto simp: Dial_NewRound_def Let_def split: if_splits outcome.splits)
qed

lemma dial_inv_Add:
  assumes N: "nacl_ok N" and inv: "dial_inv N srv" and run: "Dial_Add N Round onions srv r = Ret (res, srv', r')"
  shows "dial_inv N srv'"
proof (cases "dial_getRound srv Round dialRoundOpen")
  case (Inr rd)
  have "dial_round_ok (dial_size N srv - 48) (rd\<lparr>d_incoming := d_incoming rd @ dial_messages N (ForwardNonce Round) (d_PrivateKey srv) (dial_size N srv) onions\<rparr>)"
    using dial_inv_get [OF inv Inr] dial_messages_size [OF N] by (auto simp: dial_round_ok_def)
  from dial_inv_put [OF inv this] show ?thesis
    using run Inr by (auto simp: Dial_Add_def dial_size_def)
qed (use inv run in \<open>simp add: Dial_Add_def\<close>)

lemma dial_size_ge: "nacl_ok N \<Longrightarrow> pki_ok (d_PKI srv) \<Longrightarrow> 8 \<le> dial_size N srv - 48"
  using dial_size_keys [of N srv] server_next_keys [of "d_PKI srv" "d_ServerName srv" N] by (auto simp: SizeDialExchange_eq)

text \<open>The ways \<open>Close\<close> returns.\<close>

lemma Dial_Close_ways:
  assumes rd: "dial_getRound srv Round dialRoundOpen = Inr rd"
    and run: "Dial_Close client order Round (srv, c) r = Ret (res, (srv', c'), r')"
  obtains valid fake shuffler r1 shuffled where
    "dial_filter (d_incoming rd) {} = Ret valid"
    "d_noise rd = Some fake" "Shuffle shuffler (valid @ fake) = Ret shuffled"
    "NewShuffler r (length (valid @ fake)) = Ret (shuffler, r1)"
    "(d_LastServer srv \<and> res = Inr () \<and> c' = c \<and> d_Idle srv
        \<and> srv' = put_dial Round (rd\<lparr>d_incoming := shuffled, d_noise := Some [], d_status := dialRoundClosed\<rparr>) (srv\<lparr>d_Idle := False\<rparr>))
     \<or> (\<not> d_LastServer srv \<and> (\<exists>err c1 r2. NewDialRound client Round c r1 = Ret (Inl err, c1, r2) \<and> c' = c1
        \<and> res = Inl (Wrapped ''NewDialRound'' err) \<and> srv' = put_dial Round (rd\<lparr>d_incoming := shuffled\<rparr>) srv))
     \<or> (\<not> d_LastServer srv \<and> d_Idle srv \<and> (\<exists>c1 r2 resR. NewDialRound client Round c r1 = Ret (Inr (), c1, r2)
        \<and> RunDialRound client order Round shuffled c1 r2 = Ret (resR, c', r')
        \<and> ((\<exists>err. resR = Inl err \<and> res = Inl (Wrapped ''RunDialRound'' err)
              \<and> srv' = put_dial Round (rd\<lparr>d_incoming := shuffled\<rparr>) (srv\<lparr>d_Idle := False\<rparr>))
          \<or> (resR = Inr () \<and> res = Inr ()
              \<and> srv' = put_dial Round (rd\<lparr>d_incoming := [], d_noise := Some [], d_status := dialRoundClosed\<rparr>) (srv\<lparr>d_Idle := False\<rparr>)))))"
proof -
  have swap: "(put_dial Round rd' srv)\<lparr>d_Idle := b\<rparr> = put_dial Round rd' (srv\<lparr>d_Idle := b\<rparr>)" for rd' b
    by (simp add: put_dial_def)
  show ?thesis
    using run rd
    by (auto simp: Dial_Close_eq Let_def outcome_simps dial_unlock_def swap split: if_splits intro!: that)
qed

lemma Dial_Close_cases:
  assumes N: "nacl_ok N" and inv: "dial_inv N srv" and rd: "dial_getRound srv Round dialRoundOpen = Inr rd"
    and run: "Dial_Close client order Round (srv, c) r = Ret (res, (srv', c'), r')"
  obtains fake shuffler r1 shuffled where
    "d_noise rd = Some fake" "Shuffle shuffler (kept_messages (map Some (d_incoming rd)) @ fake) = Ret shuffled"
    "NewShuffler r (length (kept_messages (map Some (d_incoming rd)) @ fake)) = Ret (shuffler, r1)"
    "(d_LastServer srv \<and> res = Inr () \<and> c' = c \<and> d_Idle srv
        \<and> srv' = put_dial Round (rd\<lparr>d_incoming := shuffled, d_noise := Some [], d_status := dialRoundClosed\<rparr>) (srv\<lparr>d_Idle := False\<rparr>))
     \<or> (\<not> d_LastServer srv \<and> (\<exists>err c1 r2. NewDialRound client Round c r1 = Ret (Inl err, c1, r2) \<and> c' = c1
        \<and> res = Inl (Wrapped ''NewDialRound'' err) \<and> srv' = put_dial Round (rd\<lparr>d_incoming := shuffled\<rparr>) srv))
     \<or> (\<not> d_LastServer srv \<and> d_Idle srv \<and> (\<exists>c1 r2 resR. NewDialRound client Round c r1 = Ret (Inr (), c1, r2)
        \<and> RunDialRound client order Round shuffled c1 r2 = Ret (resR, c', r')
        \<and> ((\<exists>err. resR = Inl err \<and> res = Inl (Wrapped ''RunDialRound'' err)
              \<and> srv' = put_dial Round (rd\<lparr>d_incoming := shuffled\<rparr>) (srv\<lparr>d_Idle := False\<rparr>))
          \<or> (resR = Inr () \<and> res = Inr ()
              \<and> srv' = put_dial Round (rd\<lparr>d_incoming := [], d_noise := Some [], d_status := dialRoundClosed\<rparr>) (srv\<lparr>d_Idle := False\<rparr>)))))"
proof -
  have "\<forall>msg \<in> set (d_incoming rd). 8 \<le> length msg"
    using dial_inv_get [OF inv rd] dial_size_ge [OF N, of srv] inv by (auto simp: dial_round_ok_def dial_inv_def)
  note filt = dial_filter_kept [OF this]
  show ?thesis
    by (rule Dial_Close_ways [OF rd run], rule that) (simp_all only: filt outcome.inject)
qed

lemma dial_inv_Close:
  assumes N: "nacl_ok N" and inv: "dial_inv N srv" and run: "Dial_Close client order Round (srv, c) r = Ret (res, (srv', c'), r')"
  shows "dial_inv N srv'"
proof (cases "dial_getRound srv Round dialRoundOpen")
  case (Inr rd)
  note ok = dial_inv_get [OF inv Inr]
  have inv': "dial_inv N (srv\<lparr>d_Idle := b\<rparr>)" for b using inv by (simp add: dial_inv_idle)
  have oks: "dial_inv N (put_dial Round (rd\<lparr>d_incoming := shuffled\<rparr>) (srv\<lparr>d_Idle := b\<rparr>))"
    "dial_inv N (put_dial Round (rd\<lparr>d_incoming := shuffled, d_noise := Some [], d_status := dialRoundClosed\<rparr>) (srv\<lparr>d_Idle := b\<rparr>))"
    "dial_inv N (put_dial Round (rd\<lparr>d_incoming := [], d_noise := Some [], d_status := dialRoundClosed\<rparr>) (srv\<lparr>d_Idle := b\<rparr>))"
    if "d_noise rd = Some fake" and sh: "Shuffle shuffler (kept_messages (map Some (d_incoming rd)) @ fake) = Ret shuffled"
    for fake shuffler shuffled b
  proof -
    have "set shuffled = set (kept_messages (map Some (d_incoming rd))) \<union> set fake"
      using mset_eq_setD [OF Shuffle_mset [OF sh]] by simp
    then have "\<forall>msg \<in> set shuffled. length msg = dial_size N srv - 48"
      using ok that(1) kept_messages_subset [of _ "map Some (d_incoming rd)"] by (fastforce simp: dial_round_ok_def)
    then show "dial_inv N (put_dial Round (rd\<lparr>d_incoming := shuffled\<rparr>) (srv\<lparr>d_Idle := b\<rparr>))"
      "dial_inv N (put_dial Round (rd\<lparr>d_incoming := shuffled, d_noise := Some [], d_status := dialRoundClosed\<rparr>) (srv\<lparr>d_Idle := b\<rparr>))"
      "dial_inv N (put_dial Round (rd\<lparr>d_incoming := [], d_noise := Some [], d_status := dialRoundClosed\<rparr>) (srv\<lparr>d_Idle := b\<rparr>))"
      using ok inv' by (auto intro!: dial_inv_put simp: dial_round_ok_def)
  qed
  have same: "srv\<lparr>d_Idle := d_Idle srv\<rparr> = srv" by simp
  show ?thesis
    by (rule Dial_Close_cases [OF N inv Inr run])
      (elim disjE exE conjE; simp add: oks oks(1) [where b = "d_Idle srv", unfolded same])
qed (use inv run in \<open>simp add: Dial_Close_eq\<close>)


section \<open>The chain and its specification\<close>

primrec dial_chain :: "nacl \<Rightarrow> float64 \<Rightarrow> (nat \<Rightarrow> schedule) \<Rightarrow> nat \<Rightarrow> DialService list dial_client" where
  "dial_chain N F sch 0 =
     \<lparr>call_DialNewRound = \<lambda>_ _ _. Panic, call_DialAdd = \<lambda>_ _ _ _. Panic, call_DialClose = \<lambda>_ _ _. Panic\<rparr>"
| "dial_chain N F sch (Suc n) =
     \<lparr>call_DialNewRound = \<lambda>Round. lift_hd (Dial_NewRound N F Round),
      call_DialAdd = \<lambda>Round onions. lift_hd (Dial_Add N Round onions),
      call_DialClose = \<lambda>Round. lift_pair (Dial_Close (dial_chain N F sch n) (sch n) Round)\<rparr>"

primrec dial_chain_ok :: "PKI \<Rightarrow> DialService list \<Rightarrow> bool" where
  "dial_chain_ok pki [] = True"
| "dial_chain_ok pki (srv # rest) \<longleftrightarrow> d_PKI srv = pki \<and> Index pki (d_ServerName srv) + Suc (length rest) = length (ServerOrder pki)
     \<and> (d_LastServer srv \<longleftrightarrow> rest = []) \<and> dial_chain_ok pki rest"

definition dial_in :: "nacl \<Rightarrow> nat \<Rightarrow> nat" where
  "dial_in N m = m * 48 + SizeDialExchange N"

text \<open>
  \<open>dial_mix N Round sks onions batches final\<close>: the servers with private keys \<open>sks\<close> turn the onions into
  the exchanges \<open>final\<close>, where \<open>batches\<close> are the batches they opened, in the order they arrived.  Every
  server, the last included, adds cover traffic.
\<close>

inductive dial_mix :: "nacl \<Rightarrow> u32 \<Rightarrow> bytes list \<Rightarrow> bytes list \<Rightarrow> bytes list list \<Rightarrow> bytes list \<Rightarrow> bool" for N Round where
  dial_mix_last: "mset ms = mset (dial_messages N (ForwardNonce Round) sk (dial_in N 1) onions) \<Longrightarrow>
    \<forall>onion \<in> set cover. length onion = dial_in N 0 \<Longrightarrow>
    mset final = mset (kept_messages (map Some ms) @ cover) \<Longrightarrow>
    dial_mix N Round [sk] onions [ms] final"
| dial_mix_relay: "mset ms = mset (dial_messages N (ForwardNonce Round) sk (dial_in N (Suc (length sks))) onions) \<Longrightarrow>
    \<forall>onion \<in> set cover. length onion = dial_in N (length sks) \<Longrightarrow>
    mset out = mset (kept_messages (map Some ms) @ cover) \<Longrightarrow>
    dial_mix N Round sks out batches final \<Longrightarrow>
    dial_mix N Round (sk # sks) onions (ms # batches) final"

section \<open>The refinement\<close>

lemma dial_chain_size:
  assumes "nacl_ok N" "dial_chain_ok pki (srv # rest)"
  shows "dial_size N srv = dial_in N (Suc (length rest))"
proof -
  have "length (ServerOrder pki) - Index pki (d_ServerName srv) = Suc (length rest)" using assms(2) by auto
  then show ?thesis using assms by (simp add: dial_size_def IncomingOnionOverhead_def dial_in_def wire_simps)
qed

lemma spans_pieces: "0 < k \<Longrightarrow> i \<le> length xs \<Longrightarrow> concat (map (span_of xs) (spans_loop i (length xs) k)) = drop i xs"
proof (induction i "length xs" k rule: spans_loop.induct)
  case (1 i k)
  show ?case
  proof (cases "i < length xs")
    case True
    define c where "c = (if i + k \<le> length xs then k else length xs - i)"
    have c: "0 < c" "i + c \<le> length xs" using True "1.prems"(1) by (auto simp: c_def)
    have "spans_loop i (length xs) k = \<lparr>Start = i, Count = c\<rparr> # spans_loop (i + c) (length xs) k"
      using True "1.prems"(1) by (subst spans_loop.simps) (simp add: c_def Let_def)
    moreover have "concat (map (span_of xs) (spans_loop (i + c) (length xs) k)) = drop (i + c) xs"
      by (rule "1.hyps" [OF conjI [OF True "1.prems"(1)] c_def "1.prems"(1) c(2)])
    moreover have "span_of xs \<lparr>Start = i, Count = c\<rparr> @ drop (i + c) xs = drop i xs"
      by (simp add: span_of_def slice_def) (metis add.commute append_take_drop_id drop_drop)
    ultimately show ?thesis by simp
  qed (simp add: spans_loop.simps [of i])
qed

lemma sum_mset_concat: "(\<Sum>j < length xss. mset (f (xss ! j))) = mset (concat (map f xss))"
  by (induction xss rule: rev_induct) (simp_all add: nth_append)

lemma concat_messages: "concat (map (\<lambda>xs. dial_messages N nonce sk sz xs) xss) = dial_messages N nonce sk sz (concat xss)"
  by (induction xss) (simp_all add: dial_messages_append)

text \<open>After the \<^verbatim>\<open>Add\<close> calls, in whatever order, the round holds the messages of the batch in some order.\<close>

lemma dial_Add_many:
  assumes add: "CallMany order (\<lambda>sp. call_DialAdd (dial_chain N F sch (Suc n)) Round (span_of onions sp))
      (spans_loop 0 (length onions) 4000) (put_dial Round rd srv # rest) r = Ret (Inr ys, c1, r1)"
    and order: "complete_order (length (spans_loop 0 (length onions) 4000)) order"
    and rd: "d_status rd = dialRoundOpen" "d_incoming rd = []"
  shows "\<exists>ms. mset ms = mset (dial_messages N (ForwardNonce Round) (d_PrivateKey srv) (dial_size N srv) onions)
    \<and> c1 = put_dial Round (rd\<lparr>d_incoming := ms\<rparr>) srv # rest"
proof -
  let ?spans = "spans_loop 0 (length onions) 4000"
  let ?msgs = "\<lambda>sp. dial_messages N (ForwardNonce Round) (d_PrivateKey srv) (dial_size N srv) (span_of onions sp)"
  let ?I = "\<lambda>D cs. finite D \<and> (\<exists>ms. mset ms = (\<Sum>j \<in> D. mset (?msgs (?spans ! j))) \<and> cs = put_dial Round (rd\<lparr>d_incoming := ms\<rparr>) srv # rest)"
  have "?I {..<length ?spans} c1 \<and> length ys = length ?spans \<and> (\<forall>j < length ?spans. True)"
  proof (rule CallMany_inv [OF add order, where I = ?I])
    have "rd\<lparr>d_incoming := []\<rparr> = rd" using rd(2) by (cases rd) simp
    then show "?I {} (put_dial Round rd srv # rest)" by (intro conjI exI [of _ "[]"]) simp_all
    fix D j s r y s' r'
    assume j: "j \<notin> D" and I: "?I D s"
      and one: "call_DialAdd (dial_chain N F sch (Suc n)) Round (span_of onions (?spans ! j)) s r = Ret (Inr y, s', r')"
    from I obtain ms where fin: "finite D" and ms: "mset ms = (\<Sum>j \<in> D. mset (?msgs (?spans ! j)))"
      and s: "s = put_dial Round (rd\<lparr>d_incoming := ms\<rparr>) srv # rest" by blast
    have "s' = put_dial Round (rd\<lparr>d_incoming := ms @ ?msgs (?spans ! j)\<rparr>) srv # rest"
      using one rd by (auto simp: s lift_hd_Ret Dial_Add_def dial_size_def)
    moreover have "mset (ms @ ?msgs (?spans ! j)) = (\<Sum>j \<in> insert j D. mset (?msgs (?spans ! j)))"
      using fin j ms by (simp add: add.commute)
    ultimately show "?I (insert j D) s' \<and> True" using fin by blast
  qed
  then obtain ms where ms: "mset ms = (\<Sum>j < length ?spans. mset (?msgs (?spans ! j)))"
    and c1: "c1 = put_dial Round (rd\<lparr>d_incoming := ms\<rparr>) srv # rest" by blast
  have "concat (map ?msgs ?spans) = dial_messages N (ForwardNonce Round) (d_PrivateKey srv) (dial_size N srv) onions"
    using spans_pieces [of 4000 0 onions] concat_messages [of N "ForwardNonce Round" "d_PrivateKey srv" "dial_size N srv" "map (span_of onions) ?spans"]
    by (simp add: o_def)
  then show ?thesis using ms c1 sum_mset_concat [of ?msgs ?spans] by (intro exI [of _ ms]) simp
qed


lemma RunDialRound_server:
  assumes run: "RunDialRound (dial_chain N F sch (Suc n)) order Round onions (srv # rest) r = Ret (Inr (), ss', r')"
    and rd: "dial_getRound srv Round dialRoundOpen = Inr rd" "d_incoming rd = []"
    and order: "\<And>n. complete_order n (order n)"
  obtains ms r1 srv2 rest2 where
    "mset ms = mset (dial_messages N (ForwardNonce Round) (d_PrivateKey srv) (dial_size N srv) onions)"
    "Dial_Close (dial_chain N F sch n) (sch n) Round (put_dial Round (rd\<lparr>d_incoming := ms\<rparr>) srv, rest) r1 = Ret (Inr (), (srv2, rest2), r')"
    "ss' = srv2 # rest2"
proof -
  let ?spans = "spans_loop 0 (length onions) 4000"
  have srv: "put_dial Round rd srv = srv"
    using rd(1) by (cases srv) (simp add: put_dial_def dial_getRound_Inr fun_upd_idem)
  obtain ys c1 r1 where add: "CallMany (order (length ?spans)) (\<lambda>sp. call_DialAdd (dial_chain N F sch (Suc n)) Round (span_of onions sp))
      ?spans (put_dial Round rd srv # rest) r = Ret (Inr ys, c1, r1)"
    and close: "call_DialClose (dial_chain N F sch (Suc n)) Round c1 r1 = Ret (Inr (), ss', r')"
    using run unfolding srv by (auto simp: RunDialRound_def Spans_def outcome_simps give_def)
  from dial_Add_many [OF add order] rd obtain ms where
    ms: "mset ms = mset (dial_messages N (ForwardNonce Round) (d_PrivateKey srv) (dial_size N srv) onions)"
    and c1: "c1 = put_dial Round (rd\<lparr>d_incoming := ms\<rparr>) srv # rest" by (auto simp: dial_getRound_Inr)
  from close obtain srv2 rest2 where
    "Dial_Close (dial_chain N F sch n) (sch n) Round (put_dial Round (rd\<lparr>d_incoming := ms\<rparr>) srv, rest) r1 = Ret (Inr (), (srv2, rest2), r')"
    "ss' = srv2 # rest2" by (auto simp: c1 lift_pair_Ret)
  with ms show ?thesis by (rule that)
qed

lemma Dial_NewRound_new:
  assumes "Dial_NewRound N F Round srv r = Ret (Inr (), srv', r')"
  shows "\<exists>rd. dial_getRound srv' Round dialRoundOpen = Inr rd \<and> d_incoming rd = [] \<and> d_PKI srv' = d_PKI srv \<and> d_ServerName srv' = d_ServerName srv
    \<and> d_PrivateKey srv' = d_PrivateKey srv \<and> d_LastServer srv' = d_LastServer srv"
  using assms by (auto simp: Dial_NewRound_def Let_def split: if_splits outcome.splits)

text \<open>What the last server holds once its round is closed.\<close>

definition dialed :: "DialService list \<Rightarrow> u32 \<Rightarrow> bytes list \<Rightarrow> bool" where
  "dialed ss Round final \<longleftrightarrow> ss \<noteq> [] \<and> d_LastServer (last ss)
     \<and> (\<exists>rd. dial_getRound (last ss) Round dialRoundClosed = Inr rd \<and> d_incoming rd = final)"

lemma dial_close_step:
  assumes N: "nacl_ok N" and ch: "dial_chain_ok pki (srv # rest)" and inv: "dial_inv N srv"
    and rd: "dial_getRound srv Round dialRoundOpen = Inr rd"
    and ms: "mset ms = mset (dial_messages N (ForwardNonce Round) (d_PrivateKey srv) (dial_size N srv) onions)"
    and close: "Dial_Close client order Round (put_dial Round (rd\<lparr>d_incoming := ms\<rparr>) srv, c) r = Ret (Inr (), (srv2, c2), r2)"
  obtains cover out where
    "\<forall>onion \<in> set cover. length onion = dial_in N (length rest)" "mset out = mset (kept_messages (map Some ms) @ cover)"
    "if d_LastServer srv then d_LastServer srv2 \<and> (\<exists>rd2. dial_getRound srv2 Round dialRoundClosed = Inr rd2 \<and> d_incoming rd2 = out)
     else \<exists>r1 c1 r3. NewDialRound client Round c r1 = Ret (Inr (), c1, r3) \<and> RunDialRound client order Round out c1 r3 = Ret (Inr (), c2, r2)"
proof -
  let ?rd = "rd\<lparr>d_incoming := ms\<rparr>" and ?m = "dial_size N srv - 48"
  have m: "?m = dial_in N (length rest)" using dial_chain_size [OF N ch] by (simp add: dial_in_def)
  have "set ms = set (dial_messages N (ForwardNonce Round) (d_PrivateKey srv) (dial_size N srv) onions)"
    using mset_eq_setD [OF ms] .
  then have ok: "dial_round_ok ?m ?rd"
    using dial_inv_get [OF inv rd] dial_messages_size [OF N] by (auto simp: dial_round_ok_def)
  have inv': "dial_inv N (put_dial Round ?rd srv)" by (rule dial_inv_put [OF inv ok])
  have get: "dial_getRound (put_dial Round ?rd srv) Round dialRoundOpen = Inr ?rd" using rd by (simp add: dial_getRound_Inr)
  obtain fake shuffler r1 shuffled where fake: "d_noise ?rd = Some fake"
    and sh: "Shuffle shuffler (kept_messages (map Some ms) @ fake) = Ret shuffled"
    and res: "if d_LastServer srv then d_LastServer srv2 \<and> (\<exists>rd2. dial_getRound srv2 Round dialRoundClosed = Inr rd2 \<and> d_incoming rd2 = shuffled)
     else \<exists>r1 c1 r3. NewDialRound client Round c r1 = Ret (Inr (), c1, r3) \<and> RunDialRound client order Round shuffled c1 r3 = Ret (Inr (), c2, r2)"
    by (rule Dial_Close_cases [OF N inv' get close]) (auto split: if_splits, blast)
  have "\<forall>onion \<in> set fake. length onion = dial_in N (length rest)"
    using ok fake by (simp add: dial_round_ok_def m)
  then show ?thesis using Shuffle_mset [OF sh] res by (rule that)
qed

lemma dial_refines:
  assumes N: "nacl_ok N" and sch: "\<And>n k. complete_order k (sch n k)"
  shows "dial_chain_ok pki (srv # rest) \<Longrightarrow> \<forall>s \<in> set (srv # rest). dial_inv N s \<Longrightarrow>
    dial_getRound srv Round dialRoundOpen = Inr rd \<Longrightarrow> d_incoming rd = [] \<Longrightarrow> (\<And>k. complete_order k (order k)) \<Longrightarrow>
    RunDialRound (dial_chain N F sch (Suc (length rest))) order Round onions (srv # rest) r = Ret (Inr (), ss', r') \<Longrightarrow>
    \<exists>batches final. dial_mix N Round (map d_PrivateKey (srv # rest)) onions batches final \<and> dialed ss' Round final"
proof (induction rest arbitrary: srv rd order onions r ss')
  case Nil
  have inv: "dial_inv N srv" and last: "d_LastServer srv" using Nil(1,2) by simp_all
  obtain ms r1 srv2 rest2 where ms: "mset ms = mset (dial_messages N (ForwardNonce Round) (d_PrivateKey srv) (dial_size N srv) onions)"
    and close: "Dial_Close (dial_chain N F sch (length ([] :: DialService list))) (sch (length ([] :: DialService list))) Round (put_dial Round (rd\<lparr>d_incoming := ms\<rparr>) srv, []) r1 =
      Ret (Inr (), (srv2, rest2), r')" and ss': "ss' = srv2 # rest2"
    by (rule RunDialRound_server [OF Nil(6,3,4,5)]) blast
  obtain cover final where cover: "\<forall>onion \<in> set cover. length onion = dial_in N (length ([] :: DialService list))"
      "mset final = mset (kept_messages (map Some ms) @ cover)"
    and srv2: "d_LastServer srv2" "\<exists>rd2. dial_getRound srv2 Round dialRoundClosed = Inr rd2 \<and> d_incoming rd2 = final"
    by (rule dial_close_step [OF N Nil(1) inv Nil(3) ms close]) (use last in auto)
  have "rest2 = []" using close by (auto simp: Dial_Close_eq last Let_def outcome_simps split: if_splits)
  then have "dialed ss' Round final" using srv2 by (simp add: dialed_def ss')
  moreover have "dial_mix N Round [d_PrivateKey srv] onions [ms] final"
    by (rule dial_mix_last [OF _ _ cover(2)]) (use ms cover(1) dial_chain_size [OF N Nil(1)] in simp_all)
  ultimately show ?case by auto
next
  case (Cons t rest)
  have inv: "dial_inv N srv" and relay: "\<not> d_LastServer srv" using Cons.prems(1,2) by simp_all
  obtain ms r1 srv2 rest2 where ms: "mset ms = mset (dial_messages N (ForwardNonce Round) (d_PrivateKey srv) (dial_size N srv) onions)"
    and close: "Dial_Close (dial_chain N F sch (length (t # rest))) (sch (length (t # rest))) Round (put_dial Round (rd\<lparr>d_incoming := ms\<rparr>) srv, t # rest) r1 =
      Ret (Inr (), (srv2, rest2), r')" and ss': "ss' = srv2 # rest2"
    by (rule RunDialRound_server [OF Cons.prems(6,3,4,5)]) blast
  obtain cover out ra c1 rb where cover: "\<forall>onion \<in> set cover. length onion = dial_in N (length (t # rest))"
      "mset out = mset (kept_messages (map Some ms) @ cover)"
    and nx: "NewDialRound (dial_chain N F sch (length (t # rest))) Round (t # rest) ra = Ret (Inr (), c1, rb)"
    and run: "RunDialRound (dial_chain N F sch (length (t # rest))) (sch (length (t # rest))) Round out c1 rb = Ret (Inr (), rest2, r')"
    by (rule dial_close_step [OF N Cons.prems(1) inv Cons.prems(3) ms close]) (use relay in auto)
  obtain t' where t': "Dial_NewRound N F Round t ra = Ret (Inr (), t', rb)" "c1 = t' # rest"
    using nx by (auto simp: NewDialRound_def lift_hd_Ret)
  obtain rd' where rd': "dial_getRound t' Round dialRoundOpen = Inr rd'" "d_incoming rd' = []"
    and same: "d_PKI t' = d_PKI t" "d_ServerName t' = d_ServerName t" "d_PrivateKey t' = d_PrivateKey t" "d_LastServer t' = d_LastServer t"
    using Dial_NewRound_new [OF t'(1)] by blast
  have "dial_chain_ok pki (t' # rest)" using Cons.prems(1) same by simp
  moreover have "\<forall>s \<in> set (t' # rest). dial_inv N s" using Cons.prems(2) dial_inv_NewRound [OF N _ t'(1)] by simp
  moreover have "RunDialRound (dial_chain N F sch (Suc (length rest))) (sch (length (t # rest))) Round out (t' # rest) rb = Ret (Inr (), rest2, r')"
    using run unfolding t'(2) length_Cons .
  ultimately obtain batches final where mix: "dial_mix N Round (map d_PrivateKey (t' # rest)) out batches final" and d: "dialed rest2 Round final"
    using Cons.IH [where order = "sch (length (t # rest))", OF _ _ rd' sch] by blast
  have "dial_mix N Round (d_PrivateKey srv # map d_PrivateKey (t' # rest)) onions (ms # batches) final"
    by (rule dial_mix_relay [OF _ _ cover(2) mix]) (use ms cover(1) dial_chain_size [OF N Cons.prems(1)] in simp_all)
  moreover have "dialed ss' Round final" using d by (simp add: dialed_def ss')
  ultimately show ?case by (auto simp: same)
qed

end
