(* ===== verification/DialDelivery.thy ===== *)
theory DialDelivery
  imports DialRounds EndToEnd
begin

text \<open>
  What a dialing round is for: the introductions in the buckets.  \<open>intros_for\<close> is the reference
  definition of a bucket; an introduction sealed for the chain reaches the bucket it names.
\<close>

section \<open>Buckets\<close>

definition exchange_in :: "nacl \<Rightarrow> bytes \<Rightarrow> DialExchange option" where
  "exchange_in N m =
     (if length m = SizeDialExchange N
      then case DialExchange_Unmarshal N m of Inl err \<Rightarrow> None | Inr ex \<Rightarrow> Some ex
      else None)"

text \<open>The introductions for bucket \<open>b\<close>, in order.\<close>

definition intros_for :: "nacl \<Rightarrow> nat \<Rightarrow> bytes list \<Rightarrow> bytes list" where
  "intros_for N b ms = map EncryptedIntro (filter (\<lambda>ex. unat (Bucket ex) = b) (List.map_filter (exchange_in N) ms))"

lemma add_bucket_exchange:
  assumes "length buckets < 2 ^ 32"
  shows "add_bucket N m buckets =
    (case exchange_in N m of
       None \<Rightarrow> buckets
     | Some ex \<Rightarrow> buckets[unat (Bucket ex) := buckets ! unat (Bucket ex) @ [EncryptedIntro ex]])"
proof -
  have "of_nat (length buckets) \<le> b \<longleftrightarrow> length buckets \<le> unat b" for b :: u32
    using assms by (simp add: word_le_nat_alt unsigned_of_nat take_bit_nat_eq_self)
  then show ?thesis by (auto simp: add_bucket_def exchange_in_def list_update_beyond split: sum.splits)
qed

lemma fold_add_bucket:
  assumes "length buckets < 2 ^ 32"
  shows "length (fold (add_bucket N) ms buckets) = length buckets
    \<and> (\<forall>b < length buckets. fold (add_bucket N) ms buckets ! b = buckets ! b @ intros_for N b ms)"
  using assms
proof (induction ms arbitrary: buckets)
  case Nil
  then show ?case by (simp add: intros_for_def List.map_filter_simps)
next
  case (Cons m ms)
  let ?bs = "add_bucket N m buckets"
  have len: "length ?bs = length buckets"
    by (simp add: add_bucket_exchange [OF Cons.prems] split: option.splits)
  have "?bs ! b @ intros_for N b ms = buckets ! b @ intros_for N b (m # ms)" if "b < length buckets" for b
    using that by (auto simp: add_bucket_exchange [OF Cons.prems] intros_for_def List.map_filter_simps nth_list_update split: option.splits)
  then show ?case using Cons.IH [of ?bs] Cons.prems len by simp
qed

lemma Buckets_contents:
  assumes "Dial_Buckets N Round srv r = Ret (Inr buckets, srv', r')"
  shows "srv' = srv \<and> r' = r \<and> d_LastServer srv \<and> length buckets = TotalDialBuckets
    \<and> (\<exists>rd. dial_getRound srv Round dialRoundClosed = Inr rd \<and> (\<forall>b < TotalDialBuckets. buckets ! b = intros_for N b (d_incoming rd)))"
proof -
  have len: "length (replicate TotalDialBuckets ([] :: bytes list)) < 2 ^ 32" by (simp add: TotalDialBuckets_def)
  show ?thesis
    using assms fold_add_bucket [OF len, of N]
    by (auto simp: Dial_Buckets_def split: if_splits sum.splits)
qed

section \<open>Delivery\<close>

definition dial_undisturbed :: "nacl \<Rightarrow> u32 \<Rightarrow> bytes list \<Rightarrow> bytes list list \<Rightarrow> bytes \<Rightarrow> bool" where
  "dial_undisturbed N Round sks batches onion \<longleftrightarrow>
     (case way N (SizeDialExchange N) Round sks onion of
        None \<Rightarrow> False
      | Some w \<Rightarrow> list_all2 (\<lambda>ms (k, m). lone (map Some ms) m) batches w)"

lemma dial_open_in:
  assumes N: "nacl_ok N" and ms: "mset ms = mset (dial_messages N (ForwardNonce Round) sk (dial_in N (Suc (length sks))) onions)"
    and "onion \<in> set onions" and und: "dial_undisturbed N Round (sk # sks) (ms # batches) onion"
  obtains k m w where "way N (SizeDialExchange N) Round (sk # sks) onion = Some ((k, m) # w)" "way N (SizeDialExchange N) Round sks m = Some w"
    "dial_undisturbed N Round sks batches m" "m \<in> set (kept_messages (map Some ms))"
proof -
  obtain k m w where way: "way N (SizeDialExchange N) Round (sk # sks) onion = Some ((k, m) # w)"
    and op: "server_open N Round sk (dial_in N (Suc (length sks))) onion = Some m" and w: "way N (SizeDialExchange N) Round sks m = Some w"
    and lone: "lone (map Some ms) m" "dial_undisturbed N Round sks batches m"
    using und by (auto simp: dial_undisturbed_def dial_in_def split: option.splits)
  have "m \<in> set (dial_messages N (ForwardNonce Round) sk (dial_in N (Suc (length sks))) onions)"
    using assms(3) op by (auto simp: dial_messages_eq [OF N] List.map_filter_def intro!: rev_image_eqI)
  then have "m \<in> set ms" using mset_eq_setD [OF ms] by simp
  with way w lone show ?thesis using that in_kept by blast
qed

lemma dial_delivery:
  assumes N: "nacl_ok N"
  shows "dial_mix N Round sks onions batches final \<Longrightarrow> onion \<in> set onions \<Longrightarrow> dial_undisturbed N Round sks batches onion \<Longrightarrow>
    \<exists>w. way N (SizeDialExchange N) Round sks onion = Some w \<and> w \<noteq> [] \<and> snd (last w) \<in> set final"
proof (induction arbitrary: onion rule: dial_mix.induct)
  case (dial_mix_last ms sk onions cover final)
  have ms: "mset ms = mset (dial_messages N (ForwardNonce Round) sk (dial_in N (Suc (length ([] :: bytes list)))) onions)"
    using dial_mix_last.hyps(1) by simp
  show ?case
    by (rule dial_open_in [OF N ms dial_mix_last.prems]) (use mset_eq_setD [OF dial_mix_last.hyps(3)] in auto)
next
  case (dial_mix_relay ms sk sks onions cover out batches final)
  show ?case
  proof (rule dial_open_in [OF N dial_mix_relay.hyps(1) dial_mix_relay.prems])
    fix k m w
    assume *: "way N (SizeDialExchange N) Round (sk # sks) onion = Some ((k, m) # w)" "way N (SizeDialExchange N) Round sks m = Some w"
      "dial_undisturbed N Round sks batches m" "m \<in> set (kept_messages (map Some ms))"
    have "m \<in> set out" using mset_eq_setD [OF dial_mix_relay.hyps(3)] *(4) by simp
    from dial_mix_relay.IH [OF this *(3)] show ?thesis using * by auto
  qed
qed

text \<open>A dial request a client sealed for the chain.\<close>

definition dial_sealed :: "nacl \<Rightarrow> u32 \<Rightarrow> bytes list \<Rightarrow> DialExchange \<Rightarrow> bytes \<Rightarrow> bool" where
  "dial_sealed N Round sks ex onion \<longleftrightarrow> wf_DialExchange N ex \<and>
     (\<exists>ks r r'. Onion_Seal N (DialExchange_Marshal ex) (ForwardNonce Round) (public_keys N sks) r = Ret ((onion, ks), r'))"

lemma exchange_in_marshal:
  assumes "nacl_ok N" "wf_DialExchange N ex"
  shows "length (DialExchange_Marshal ex) = SizeDialExchange N" "exchange_in N (DialExchange_Marshal ex) = Some ex"
  using de.enc_size [OF assms(2)] de.dec_enc_append [OF assms(2), of "[]"] by (simp_all add: exchange_in_def wire_simps assms(1))

lemma dial_mix_delivers:
  assumes N: "nacl_ok N" and mix: "dial_mix N Round sks onions batches final"
    and onion: "onion \<in> set onions" "dial_sealed N Round sks ex onion" "dial_undisturbed N Round sks batches onion"
  shows "EncryptedIntro ex \<in> set (intros_for N (unat (Bucket ex)) final)"
proof -
  obtain w where w: "way N (SizeDialExchange N) Round sks onion = Some w" "w \<noteq> []" "snd (last w) \<in> set final"
    using dial_delivery [OF N mix onion(1,3)] by blast
  have wf: "wf_DialExchange N ex" using onion(2) by (simp add: dial_sealed_def)
  have "sks \<noteq> []" using w(1,2) by auto
  then have "snd (last w) = DialExchange_Marshal ex"
    using seal_way [OF N exchange_in_marshal(1) [OF N wf]] onion(2) w(1) unfolding dial_sealed_def by fastforce
  then have "ex \<in> set (List.map_filter (exchange_in N) final)"
    using w(3) exchange_in_marshal(2) [OF N wf] by (force simp: List.map_filter_def)
  then show ?thesis by (auto simp: intros_for_def)
qed


text \<open>A completed round, from the requests to the buckets.\<close>

lemma dial_round_delivers:
  assumes "nacl_ok N" "\<forall>n k. complete_order k (sch n k)" "\<forall>k. complete_order k (order k)"
    and "dial_chain_ok pki (srv # rest)" "\<forall>s \<in> set (srv # rest). dial_inv N s"
    and "NewDialRound (dial_chain N F sch (Suc (length rest))) Round (srv # rest) r0 = Ret (Inr (), ss1, r1)"
    and "RunDialRound (dial_chain N F sch (Suc (length rest))) order Round onions ss1 r1 = Ret (Inr (), ss2, r2)"
    and "Dial_Buckets N Round (last ss2) r3 = Ret (Inr buckets, srv3, r4)"
  shows "\<exists>batches final. dial_mix N Round (map d_PrivateKey (srv # rest)) onions batches final
    \<and> buckets = map (\<lambda>b. intros_for N b final) [0..<TotalDialBuckets]
    \<and> (\<forall>ex. \<forall>onion \<in> set onions. dial_sealed N Round (map d_PrivateKey (srv # rest)) ex onion \<longrightarrow>
        dial_undisturbed N Round (map d_PrivateKey (srv # rest)) batches onion \<longrightarrow> unat (Bucket ex) < TotalDialBuckets \<longrightarrow>
        EncryptedIntro ex \<in> set (buckets ! unat (Bucket ex)))"
proof -
  obtain srv1 where new1: "Dial_NewRound N F Round srv r0 = Ret (Inr (), srv1, r1)" and ss1: "ss1 = srv1 # rest"
    using assms(6) by (auto simp: NewDialRound_def lift_hd_Ret)
  obtain rd where rd: "dial_getRound srv1 Round dialRoundOpen = Inr rd" "d_incoming rd = []"
    and same: "d_PKI srv1 = d_PKI srv" "d_ServerName srv1 = d_ServerName srv" "d_PrivateKey srv1 = d_PrivateKey srv" "d_LastServer srv1 = d_LastServer srv"
    using Dial_NewRound_new [OF new1] by blast
  have "dial_chain_ok pki (srv1 # rest)" using assms(4) same by simp
  moreover have "\<forall>s \<in> set (srv1 # rest). dial_inv N s" using assms(5) dial_inv_NewRound [OF assms(1) _ new1] by simp
  ultimately obtain batches final where mix: "dial_mix N Round (map d_PrivateKey (srv # rest)) onions batches final" and d: "dialed ss2 Round final"
    using dial_refines [OF assms(1) assms(2) [rule_format] _ _ rd assms(3) [rule_format] assms(7) [unfolded ss1]] by (auto simp: same)
  have "buckets = map (\<lambda>b. intros_for N b final) [0..<TotalDialBuckets]"
    using Buckets_contents [OF assms(8)] d by (auto simp: dialed_def intro: nth_equalityI)
  with mix dial_mix_delivers [OF assms(1) mix] show ?thesis by (intro exI [of _ batches] exI [of _ final]) simp
qed

section \<open>Properties\<close>

text \<open>
  Dialing end to end.  In every dialing round that completes, in whatever order the servers run the
  calls, the buckets the last server reports hold, besides cover traffic, every introduction that a
  client sealed for the chain, in the bucket it names, unless a server took the request for a
  repetition of another on its way.
\<close>

theorem dial_delivered:
  assumes "nacl_ok N" "\<forall>n k. complete_order k (sch n k)" "\<forall>k. complete_order k (order k)"
    and "dial_chain_ok pki (srv # rest)" "\<forall>s \<in> set (srv # rest). dial_inv N s"
    and "NewDialRound (dial_chain N F sch (Suc (length rest))) Round (srv # rest) r0 = Ret (Inr (), ss1, r1)"
    and "RunDialRound (dial_chain N F sch (Suc (length rest))) order Round onions ss1 r1 = Ret (Inr (), ss2, r2)"
    and "Dial_Buckets N Round (last ss2) r3 = Ret (Inr buckets, srv3, r4)"
  shows "\<exists>batches final. dial_mix N Round (map d_PrivateKey (srv # rest)) onions batches final
    \<and> buckets = map (\<lambda>b. intros_for N b final) [0..<TotalDialBuckets]
    \<and> (\<forall>ex. \<forall>onion \<in> set onions. dial_sealed N Round (map d_PrivateKey (srv # rest)) ex onion \<longrightarrow>
        dial_undisturbed N Round (map d_PrivateKey (srv # rest)) batches onion \<longrightarrow> unat (Bucket ex) < TotalDialBuckets \<longrightarrow>
        EncryptedIntro ex \<in> set (buckets ! unat (Bucket ex)))"
  by (rule dial_round_delivers [OF assms])

text \<open>
  The buckets.  \<open>Buckets\<close> returns, for each bucket, exactly the introductions of those messages of
  the closed round that have the size of an exchange and name that bucket, in their order; all others
  are left out, and the service is not changed.
\<close>

theorem Buckets_exact:
  assumes "d_LastServer srv" "dial_getRound srv Round dialRoundClosed = Inr rd"
  shows "Dial_Buckets N Round srv r = Ret (Inr (map (\<lambda>b. intros_for N b (d_incoming rd)) [0..<TotalDialBuckets]), srv, r)"
proof -
  let ?buckets = "fold (add_bucket N) (d_incoming rd) (replicate TotalDialBuckets [])"
  have run: "Dial_Buckets N Round srv r = Ret (Inr ?buckets, srv, r)" using assms by (simp add: Dial_Buckets_def)
  have "?buckets = map (\<lambda>b. intros_for N b (d_incoming rd)) [0..<TotalDialBuckets]"
    using Buckets_contents [OF run] assms(2) by (auto intro: nth_equalityI)
  with run show ?thesis by simp
qed

text \<open>
  C35: the errors of dialing.  Calls for a round that is missing or in the wrong status return that error, with
  the round's number and the two statuses, and change nothing, and so does \<open>Buckets\<close> on a server that is not the last.  A noise goroutine that
  draws for ever does not keep \<open>NewRound\<close> from returning, but \<open>Close\<close> of that round never returns.
\<close>

theorem dial_errors:
  "(d_rounds srv Round = None \<longrightarrow>
      Dial_Add N Round onions srv r = Ret (Inl (RoundNotFound Round), srv, r)
      \<and> Dial_Close client order Round (srv, c) r = Ret (Inl (RoundNotFound Round), (srv, c), r)
      \<and> (d_LastServer srv \<longrightarrow> Dial_Buckets N Round srv r = Ret (Inl (RoundNotFound Round), srv, r)))
    \<and> (\<forall>rd. d_rounds srv Round = Some rd \<longrightarrow>
      (d_status rd \<noteq> dialRoundOpen \<longrightarrow>
          Dial_Add N Round onions srv r = Ret (Inl (RoundStatus Round 2 1), srv, r)
          \<and> Dial_Close client order Round (srv, c) r = Ret (Inl (RoundStatus Round 2 1), (srv, c), r))
      \<and> (d_status rd \<noteq> dialRoundClosed \<longrightarrow> d_LastServer srv \<longrightarrow> Dial_Buckets N Round srv r = Ret (Inl (RoundStatus Round 1 2), srv, r)))
    \<and> (\<not> d_LastServer srv \<longrightarrow> Dial_Buckets N Round srv r = Ret (Inl NotLastServer, srv, r))
    \<and> (\<not> d_Idle srv \<longrightarrow> d_rounds srv Round = None \<longrightarrow> dial_noise N F (srv\<lparr>d_Idle := True\<rparr>) Round r = Hang \<longrightarrow>
        (\<exists>srv'. Dial_NewRound N F Round srv r = Ret (Inr (), srv', r) \<and> Dial_Close client order Round (srv', c) r' = Hang))"
proof -
  have status: "d_status rd \<noteq> dialRoundOpen \<Longrightarrow> dial_status_num (d_status rd) = 2" "d_status rd \<noteq> dialRoundClosed \<Longrightarrow> dial_status_num (d_status rd) = 1" for rd
    by (cases "d_status rd"; simp)+
  show ?thesis by (auto simp: Dial_Add_def Dial_Close_eq Dial_Buckets_def Dial_NewRound_def dial_getRound_def Let_def status)
qed


section \<open>Witnesses\<close>

definition sample_dial :: DialService where
  "sample_dial = \<lparr>d_rounds = Map.empty, d_Idle = False, d_LaplaceMu = 0, d_LaplaceB = 0, d_PKI = srv_PKI sample_service,
     d_ServerName = ''a'', d_PrivateKey = replicate 32 1, d_LastServer = True\<rparr>"

abbreviation sample_intro :: DialExchange where
  "sample_intro \<equiv> \<lparr>Bucket = 0, EncryptedIntro = replicate 84 4\<rparr>"

abbreviation sample_dialing :: "DialService list dial_client" where
  "sample_dialing \<equiv> dial_chain clear_box exact_float64 (\<lambda>_ k. [0..<k]) (Suc (length ([] :: DialService list)))"

lemma sample_dial_ok: "dial_chain_ok (srv_PKI sample_service) [sample_dial]" "\<forall>s \<in> set [sample_dial]. dial_inv N s"
  using sample_service_pki by (simp_all add: sample_dial_def dial_inv_def sample_service_def Index_def)

lemma sample_dial_size: "dial_size clear_box sample_dial = 1 * 48 + SizeDialExchange clear_box"
  using dial_chain_size [OF clear_box_ok sample_dial_ok(1)] by (simp add: dial_in_def)

lemma no_draws: "dial_noise clear_box exact_float64 (sample_dial\<lparr>d_Idle := True\<rparr>) n (\<lambda>_. 1) = Ret ([], \<lambda>_. 1)"
proof -
  have "cappedFlooredLaplace exact_float64 0 0 (\<lambda>_. 1) = Some (0, \<lambda>_. 1)"
    using cappedFlooredLaplace_finds [of exact_float64 0 0 "\<lambda>_. 1" 0] by (simp add: laplace_of_ones min_int_def)
  then show ?thesis
    by (simp add: dial_noise_def dial_counts_def TotalDialBuckets_def sample_dial_def sample_service_def NextServerKeys_def Index_def
        FillWithFakeIntroductions_def copy_into_def wrap_int_def keys_of_def)
qed

lemma one_shuffler: "NewShuffler (\<lambda>_. 1) 1 = Ret ([0], \<lambda>_. 1)"
proof -
  have "block (\<lambda>_. 1) 0 < intn_limit 1" by code_simp
  then have "intn_loop 1 (\<lambda>_. 1) = Some (0, \<lambda>_. 1)" by (simp add: intn_loop_step)
  then show ?thesis by (simp add: NewShuffler_def Intn_def)
qed

text \<open>The round of one request, on the single sample server.\<close>

lemma sample_dial_round:
  assumes "dial_sealed clear_box n [replicate 32 1] ex onion" "Bucket ex = 0"
  shows "\<exists>srv1 srv2. NewDialRound sample_dialing n [sample_dial] (\<lambda>_. 1) = Ret (Inr (), [srv1], \<lambda>_. 1)
    \<and> RunDialRound sample_dialing (\<lambda>k. [0..<k]) n [onion] [srv1] (\<lambda>_. 1) = Ret (Inr (), [srv2], \<lambda>_. 1)
    \<and> Dial_Buckets clear_box n srv2 (\<lambda>_. 1) = Ret (Inr [[EncryptedIntro ex]], srv2, \<lambda>_. 1)"
proof -
  have wf: "wf_DialExchange clear_box ex" using assms(1) by (simp add: dial_sealed_def)
  note m = exchange_in_marshal [OF clear_box_ok wf]
  let ?m = "DialExchange_Marshal ex"
  obtain w where "way clear_box (SizeDialExchange clear_box) n [replicate 32 1] onion = Some w" "snd (last w) = ?m"
    using seal_way [OF clear_box_ok m(1), of n "[replicate 32 1]"] assms(1) unfolding dial_sealed_def by blast
  then have "server_open clear_box n (replicate 32 1) (dial_size clear_box sample_dial) onion = Some ?m"
    by (auto simp: sample_dial_size split: option.splits)
  then have msgs: "dial_messages clear_box (ForwardNonce n) (replicate 32 1) (dial_size clear_box sample_dial) [onion] = [?m]"
    by (simp add: dial_messages_eq [OF clear_box_ok] List.map_filter_simps del: dial_messages.simps)
  let ?rd = "\<lparr>d_status = dialRoundOpen, d_incoming = [], d_noise = Some []\<rparr>"
  let ?srv1 = "put_dial n ?rd (sample_dial\<lparr>d_Idle := True\<rparr>)"
  let ?srv2 = "put_dial n (?rd\<lparr>d_incoming := [?m], d_status := dialRoundClosed\<rparr>) (sample_dial\<lparr>d_Idle := False\<rparr>)"
  have "Dial_NewRound clear_box exact_float64 n sample_dial (\<lambda>_. 1) = Ret (Inr (), ?srv1, \<lambda>_. 1)"
    using no_draws by (simp add: Dial_NewRound_def) (simp add: sample_dial_def)
  then have new: "NewDialRound sample_dialing n [sample_dial] (\<lambda>_. 1) = Ret (Inr (), [?srv1], \<lambda>_. 1)"
    by (simp add: NewDialRound_def lift_hd_Ret)
  let ?srv = "put_dial n (?rd\<lparr>d_incoming := [?m]\<rparr>) (sample_dial\<lparr>d_Idle := True\<rparr>)"
  have add: "Dial_Add clear_box n [onion] ?srv1 (\<lambda>_. 1) = Ret (Inr (), ?srv, \<lambda>_. 1)"
  proof -
    have "d_PrivateKey sample_dial = replicate 32 1" by (simp add: sample_dial_def)
    then show ?thesis using msgs by (simp add: Dial_Add_def dial_size_def del: dial_messages.simps)
  qed
  have "\<not> length ?m < 8" by (simp add: m(1) wire_simps clear_box_ok)
  then have close: "Dial_Close (dial_chain clear_box exact_float64 (\<lambda>_ k. [0..<k]) 0) (\<lambda>k. [0..<k]) n (?srv, []) (\<lambda>_. 1) = Ret (Inr (), (?srv2, []), \<lambda>_. 1)"
    using one_shuffler by (simp add: Dial_Close_eq Shuffle_def swap_at_def dial_unlock_def) (simp add: sample_dial_def put_dial_def dial_unlock_def)
  have spans: "spans_loop 0 (Suc 0) 4000 = [\<lparr>Start = 0, Count = 1\<rparr>]"
    by (simp add: spans_loop.simps [of 0] spans_loop.simps [of "Suc 0"])
  have run: "RunDialRound sample_dialing (\<lambda>k. [0..<k]) n [onion] [?srv1] (\<lambda>_. 1) = Ret (Inr (), [?srv2], \<lambda>_. 1)"
    using add close by (simp add: RunDialRound_def Spans_def spans attempt_def CallMany_def run_calls_def lift_hd_def lift_pair_def
        span_of_def slice_def give_def)
  have "Dial_Buckets clear_box n ?srv2 (\<lambda>_. 1) = Ret (Inr [[EncryptedIntro ex]], ?srv2, \<lambda>_. 1)"
    using Buckets_contents add_bucket_exchange [of "[[]]" clear_box ?m] m(2) assms(2)
    by (simp add: Dial_Buckets_def TotalDialBuckets_def) (simp add: sample_dial_def)
  with new run show ?thesis by blast
qed


lemma sample_bucket: "Bucket sample_intro = 0"
  by simp

lemma sample_onion: "\<exists>onion. dial_sealed clear_box n [replicate 32 1] sample_intro onion"
proof -
  have wf: "wf_DialExchange clear_box sample_intro" by (simp add: wf_DialExchange_def wire_simps clear_box_ok)
  have "None \<notin> set (public_keys clear_box [replicate 32 1])" by simp
  then show ?thesis using Onion_Seal_total [OF clear_box_ok] wf unfolding dial_sealed_def by blast
qed

lemma dial_messages_length: "length (dial_messages N nonce sk sz onions) \<le> length onions"
  by (induction onions) (auto simp: Let_def split: option.splits)

lemma way_length: "way N base Round sks onion = Some w \<Longrightarrow> length w = length sks"
  by (induction sks arbitrary: onion w) (auto split: option.splits)

lemma single_dial_batches:
  assumes "dial_mix N Round [sk] [onion] batches final"
  shows "\<exists>ms. batches = [ms] \<and> length ms \<le> 1"
  using assms
proof cases
  case (dial_mix_last ms cover)
  then show ?thesis
    using dial_messages_length [of N "ForwardNonce Round" sk "dial_in N 1" "[onion]"] mset_eq_length by fastforce
qed (auto elim: dial_mix.cases)

text \<open>A request that is alone is not disturbed.\<close>

lemma single_undisturbed:
  assumes "nacl_ok N" "dial_sealed N Round [sk] ex onion" "dial_mix N Round [sk] [onion] batches final"
  shows "dial_undisturbed N Round [sk] batches onion"
proof -
  obtain ms where ms: "batches = [ms]" "length ms \<le> 1" using single_dial_batches [OF assms(3)] by blast
  have "lone (map Some ms) m" for m
    using ms(2) length_filter_le [of _ "map Some ms"] unfolding lone_def by (metis (no_types, lifting) le_trans length_map)
  moreover have "wf_DialExchange N ex" using assms(2) by (simp add: dial_sealed_def)
  then obtain w where w: "way N (SizeDialExchange N) Round [sk] onion = Some w"
    using seal_way [OF assms(1) exchange_in_marshal(1) [OF assms(1)], of ex Round "[sk]"] assms(2)
    unfolding dial_sealed_def by blast
  moreover obtain x where "w = [x]" using way_length [OF w] by (auto simp: length_Suc_conv)
  ultimately show ?thesis
    unfolding dial_undisturbed_def by (simp add: ms(1) split: prod.splits del: way.simps)
qed

theorem dial_delivered_witness:
  "\<exists>onion srv1 srv2 buckets. dial_sealed clear_box 7 [replicate 32 1] sample_intro onion
    \<and> NewDialRound sample_dialing 7 [sample_dial] (\<lambda>_. 1) = Ret (Inr (), [srv1], \<lambda>_. 1)
    \<and> RunDialRound sample_dialing (\<lambda>k. [0..<k]) 7 [onion] [srv1] (\<lambda>_. 1) = Ret (Inr (), [srv2], \<lambda>_. 1)
    \<and> Dial_Buckets clear_box 7 srv2 (\<lambda>_. 1) = Ret (Inr buckets, srv2, \<lambda>_. 1) \<and> EncryptedIntro sample_intro \<in> set (buckets ! 0)"
proof -
  have key: "map d_PrivateKey [sample_dial] = [replicate 32 1]" by (simp add: sample_dial_def)
  have wf: "wf_DialExchange clear_box sample_intro" by (simp add: wf_DialExchange_def wire_simps clear_box_ok)
  obtain onion where seal: "dial_sealed clear_box 7 [replicate 32 1] sample_intro onion" using sample_onion by blast
  obtain srv1 srv2 where new: "NewDialRound sample_dialing 7 [sample_dial] (\<lambda>_. 1) = Ret (Inr (), [srv1], \<lambda>_. 1)"
    and run: "RunDialRound sample_dialing (\<lambda>k. [0..<k]) 7 [onion] [srv1] (\<lambda>_. 1) = Ret (Inr (), [srv2], \<lambda>_. 1)"
    and buckets: "Dial_Buckets clear_box 7 (last [srv2]) (\<lambda>_. 1) = Ret (Inr [[EncryptedIntro sample_intro]], srv2, \<lambda>_. 1)"
    using sample_dial_round [OF seal sample_bucket] by auto
  have orders: "\<forall>n k :: nat. complete_order k [0..<k]" "\<forall>k. complete_order k [0..<k]" using complete_upt by blast+
  obtain batches final where mix: "dial_mix clear_box 7 [replicate 32 1] [onion] batches final"
    and all: "\<forall>ex. \<forall>onion \<in> set [onion]. dial_sealed clear_box 7 [replicate 32 1] ex onion \<longrightarrow>
        dial_undisturbed clear_box 7 [replicate 32 1] batches onion \<longrightarrow> unat (Bucket ex) < TotalDialBuckets \<longrightarrow>
        EncryptedIntro ex \<in> set ([[EncryptedIntro sample_intro]] ! unat (Bucket ex))"
    using dial_delivered [OF clear_box_ok orders sample_dial_ok new run buckets] unfolding key by blast
  have "dial_undisturbed clear_box 7 [replicate 32 1] batches onion" by (rule single_undisturbed [OF clear_box_ok seal mix])
  then have "EncryptedIntro sample_intro \<in> set ([[EncryptedIntro sample_intro]] ! unat (Bucket sample_intro))"
    using all seal by (simp add: TotalDialBuckets_def)
  with seal new run buckets show ?thesis
    by (intro exI [of _ onion] exI [of _ srv1] exI [of _ srv2] exI [of _ "[[EncryptedIntro sample_intro]]"]) simp
qed

theorem Buckets_exact_witness:
  "Dial_Buckets clear_box 7 (put_dial 7 \<lparr>d_status = dialRoundClosed, d_incoming = [[1], DialExchange_Marshal sample_intro], d_noise = Some []\<rparr> sample_dial) (\<lambda>_. 0)
    = Ret (Inr [intros_for clear_box 0 [[1], DialExchange_Marshal sample_intro]],
      put_dial 7 \<lparr>d_status = dialRoundClosed, d_incoming = [[1], DialExchange_Marshal sample_intro], d_noise = Some []\<rparr> sample_dial, \<lambda>_. 0)"
proof -
  let ?rd = "\<lparr>d_status = dialRoundClosed, d_incoming = [[1], DialExchange_Marshal sample_intro], d_noise = Some []\<rparr>"
  have "d_LastServer (put_dial 7 ?rd sample_dial)" "dial_getRound (put_dial 7 ?rd sample_dial) 7 dialRoundClosed = Inr ?rd"
    by (simp_all add: sample_dial_def)
  from Buckets_exact [OF this, of clear_box "\<lambda>_. 0"] show ?thesis by (simp add: TotalDialBuckets_def)
qed

text \<open>With a negative mean and scale 0 every sample is rejected.\<close>

lemma endless_draws: "dial_noise clear_box exact_float64 (sample_dial\<lparr>d_LaplaceMu := - 1, d_Idle := True\<rparr>) n (\<lambda>_. 1) = Hang"
proof -
  have "cappedFlooredLaplace exact_float64 (- 1) 0 (\<lambda>_. 1) = None"
  proof (rule ccontr)
    assume "cappedFlooredLaplace exact_float64 (- 1) 0 (\<lambda>_. 1) \<noteq> None"
    then obtain k r' where "cappedFlooredLaplace exact_float64 (- 1) 0 (\<lambda>_. 1) = Some (k, r')" by auto
    from cappedFlooredLaplace_Some [OF this] show False by (auto simp: laplace_of_ones)
  qed
  then show ?thesis by (simp add: dial_noise_def dial_counts_def TotalDialBuckets_def sample_dial_def)
qed

theorem dial_errors_witness:
  "Dial_Buckets clear_box 7 (sample_dial\<lparr>d_LastServer := False\<rparr>) (\<lambda>_. 0) = Ret (Inl NotLastServer, sample_dial\<lparr>d_LastServer := False\<rparr>, \<lambda>_. 0)
    \<and> Dial_Add clear_box 7 [] sample_dial (\<lambda>_. 0) = Ret (Inl (RoundNotFound 7), sample_dial, \<lambda>_. 0)
    \<and> Dial_Buckets clear_box 7 (put_dial 7 \<lparr>d_status = dialRoundOpen, d_incoming = [], d_noise = Some []\<rparr> sample_dial) (\<lambda>_. 0)
      = Ret (Inl (RoundStatus 7 1 2), put_dial 7 \<lparr>d_status = dialRoundOpen, d_incoming = [], d_noise = Some []\<rparr> sample_dial, \<lambda>_. 0)
    \<and> (\<exists>srv'. Dial_NewRound clear_box exact_float64 7 (sample_dial\<lparr>d_LaplaceMu := - 1\<rparr>) (\<lambda>_. 1) = Ret (Inr (), srv', \<lambda>_. 1)
      \<and> Dial_Close sample_dialing (\<lambda>k. [0..<k]) 7 (srv', []) (\<lambda>_. 1) = Hang)"
proof (intro conjI)
  show "Dial_Buckets clear_box 7 (sample_dial\<lparr>d_LastServer := False\<rparr>) (\<lambda>_. 0) = Ret (Inl NotLastServer, sample_dial\<lparr>d_LastServer := False\<rparr>, \<lambda>_. 0)"
    using dial_errors [of "sample_dial\<lparr>d_LastServer := False\<rparr>" 7 clear_box "[]" "\<lambda>_. 0", THEN conjunct2, THEN conjunct2, THEN conjunct1] by simp
  have none: "d_rounds sample_dial 7 = None" "d_LastServer sample_dial" "\<not> d_Idle sample_dial" by (simp_all add: sample_dial_def)
  show "Dial_Add clear_box 7 [] sample_dial (\<lambda>_. 0) = Ret (Inl (RoundNotFound 7), sample_dial, \<lambda>_. 0)"
    by (rule dial_errors [THEN conjunct1, THEN mp, OF none(1), THEN conjunct1])
  let ?rd = "\<lparr>d_status = dialRoundOpen, d_incoming = [], d_noise = Some []\<rparr>"
  have "d_rounds (put_dial 7 ?rd sample_dial) 7 = Some ?rd" "d_LastServer (put_dial 7 ?rd sample_dial)" using none(2) by (simp_all add: put_dial_def)
  moreover have "d_status ?rd \<noteq> dialRoundClosed" by simp
  ultimately show "Dial_Buckets clear_box 7 (put_dial 7 ?rd sample_dial) (\<lambda>_. 0) = Ret (Inl (RoundStatus 7 1 2), put_dial 7 ?rd sample_dial, \<lambda>_. 0)"
    by (intro dial_errors [THEN conjunct2, THEN conjunct1, THEN spec, THEN mp, THEN conjunct2, THEN mp, THEN mp])
  have free: "\<not> d_Idle (sample_dial\<lparr>d_LaplaceMu := - 1\<rparr>)" "d_rounds (sample_dial\<lparr>d_LaplaceMu := - 1\<rparr>) 7 = None" using none by simp_all
  show "\<exists>srv'. Dial_NewRound clear_box exact_float64 7 (sample_dial\<lparr>d_LaplaceMu := - 1\<rparr>) (\<lambda>_. 1) = Ret (Inr (), srv', \<lambda>_. 1)
      \<and> Dial_Close sample_dialing (\<lambda>k. [0..<k]) 7 (srv', []) (\<lambda>_. 1) = Hang"
    by (rule dial_errors [where N = clear_box and onions = "[]", THEN conjunct2, THEN conjunct2, THEN conjunct2, THEN mp, OF free(1), THEN mp, OF free(2), THEN mp,
      OF endless_draws])
qed

end
