(* ===== verification/Json.thy ===== *)
theory Json
  imports Prelude
begin

text \<open>
  What the program uses of \<^verbatim>\<open>encoding/json\<close>, \<^verbatim>\<open>encoding/base64\<close> and \<^verbatim>\<open>fmt\<close>: JSON documents, decoding
  them into fields of the types the messages have, encoding those fields, and printing integers.

  A document is a tree, so a text that is not JSON has no counterpart here; a \<^verbatim>\<open>json.RawMessage\<close> that
  is empty is \<open>None\<close>.  \<open>JLit\<close> is a number literal that is not a plain integer.  Strings and keys are
  ASCII.  A nil slice and an empty one are both \<open>[]\<close>.
\<close>

datatype json =
    JNull
  | JBool bool
  | JNum int
  | JLit string
  | JStr string
  | JArr "json list"
  | JObj "(string \<times> json) list"

section \<open>Integers in decimal\<close>

fun decimal :: "nat \<Rightarrow> string" where
  "decimal n = (if n < 10 then [char_of (48 + n)] else decimal (n div 10) @ [char_of (48 + n mod 10)])"

declare decimal.simps [simp del]

section \<open>Base64\<close>

definition b64_char :: "nat \<Rightarrow> char" where
  "b64_char n =
     char_of (if n < 26 then n + 65 else if n < 52 then n + 71 else if n < 62 then n - 4 else if n = 62 then 43 else 47)"

definition b64_value :: "char \<Rightarrow> nat option" where
  "b64_value c =
     (let n = of_char c :: nat
      in if 65 \<le> n \<and> n \<le> 90 then Some (n - 65)
         else if 97 \<le> n \<and> n \<le> 122 then Some (n - 71)
         else if 48 \<le> n \<and> n \<le> 57 then Some (n + 4)
         else if n = 43 then Some 62 else if n = 47 then Some 63 else None)"

fun b64_encode :: "bytes \<Rightarrow> string" where
  "b64_encode [] = []"
| "b64_encode [a] =
     (let v = unat a * 65536 in [b64_char (v div 262144), b64_char (v div 4096 mod 64), CHR ''='', CHR ''=''])"
| "b64_encode [a, b] =
     (let v = unat a * 65536 + unat b * 256
      in [b64_char (v div 262144), b64_char (v div 4096 mod 64), b64_char (v div 64 mod 64), CHR ''=''])"
| "b64_encode (a # b # c # bs) =
     (let v = unat a * 65536 + unat b * 256 + unat c
      in [b64_char (v div 262144), b64_char (v div 4096 mod 64), b64_char (v div 64 mod 64), b64_char (v mod 64)] @ b64_encode bs)"

definition three_bytes :: "nat \<Rightarrow> bytes" where
  "three_bytes v = [of_nat (v div 65536), of_nat (v div 256 mod 256), of_nat (v mod 256)]"

text \<open>One group of four characters, padding allowed in the last one; bits that padding cuts off are ignored.\<close>

fun b64_quads :: "string \<Rightarrow> bytes option" where
  "b64_quads [] = Some []"
| "b64_quads (p # q # s # t # rest) =
     (case (b64_value p, b64_value q) of
        (Some a, Some b) \<Rightarrow>
          if s = CHR ''='' \<and> t = CHR ''='' \<and> rest = [] then Some (take 1 (three_bytes (a * 262144 + b * 4096)))
          else (case b64_value s of
            None \<Rightarrow> None
          | Some c \<Rightarrow>
              if t = CHR ''='' \<and> rest = [] then Some (take 2 (three_bytes (a * 262144 + b * 4096 + c * 64)))
              else (case b64_value t of
                None \<Rightarrow> None
              | Some d \<Rightarrow> map_option (\<lambda>bs. three_bytes (a * 262144 + b * 4096 + c * 64 + d) @ bs) (b64_quads rest)))
      | _ \<Rightarrow> None)"
| "b64_quads _ = None"

text \<open>The decoder skips line ends.\<close>

definition b64_decode :: "string \<Rightarrow> bytes option" where
  "b64_decode s = b64_quads (filter (\<lambda>c. c \<noteq> CHR 0x0A \<and> c \<noteq> CHR 0x0D) s)"

lemma b64_value_char: "n < 64 \<Longrightarrow> b64_value (b64_char n) = Some n"
  by (auto simp: b64_value_def b64_char_def Let_def)

lemma b64_char_special: "n < 64 \<Longrightarrow> b64_char n \<noteq> CHR ''='' \<and> b64_char n \<noteq> CHR 0x0A \<and> b64_char n \<noteq> CHR 0x0D"
proof -
  assume n: "n < 64"
  have "b64_value (CHR ''='') = None" "b64_value (CHR 0x0A) = None" "b64_value (CHR 0x0D) = None"
    by (simp_all add: b64_value_def)
  with b64_value_char [OF n] show ?thesis by force
qed

text \<open>The four base-64 digits and the three base-256 digits of a number.\<close>

lemma digits64: "v div 262144 * 262144 + v div 4096 mod 64 * 4096 + v div 64 mod 64 * 64 + v mod 64 = (v :: nat)"
proof -
  have "v div 64 div 64 = v div 4096" "v div 4096 div 64 = v div 262144" by (simp_all add: div_mult2_eq [symmetric])
  with div_mult_mod_eq [of v 64] div_mult_mod_eq [of "v div 64" 64] div_mult_mod_eq [of "v div 4096" 64] show ?thesis by linarith
qed

lemma digit64_less: "a < 256 \<Longrightarrow> b < 256 \<Longrightarrow> c < 256 \<Longrightarrow> (a * 65536 + b * 256 + c) div 262144 < (64 :: nat)"
  by (simp add: less_mult_imp_div_less)

lemma unat_byte: "unat (a :: byte) < 256"
  using unsigned_less [of a] by simp

lemma three_bytes_join: "three_bytes (unat a * 65536 + unat b * 256 + unat c) = [a, b, c]"
proof -
  have less: "unat a < 256" "unat b < 256" "unat c < 256" using unat_byte [of a] unat_byte [of b] unat_byte [of c] by simp_all
  let ?v = "unat a * 65536 + unat b * 256 + unat c"
  have "?v div 65536 = unat a" "?v div 256 = unat a * 256 + unat b" using less by (auto intro!: div_nat_eqI)
  moreover have "?v mod 256 = unat c" using less mod_mult_self3 [of "unat a * 256 + unat b" 256 "unat c"] by (simp add: algebra_simps)
  ultimately show ?thesis using less by (simp add: three_bytes_def)
qed

lemma b64_quads_encode: "b64_quads (b64_encode bs) = Some bs"
proof (induction bs rule: b64_encode.induct)
  case (2 a)
  let ?v = "unat a * 65536"
  have "?v div 64 = unat a * 16 * 64" "?v = unat a * 1024 * 64" by simp_all
  then have "?v div 64 mod 64 = 0" "?v mod 64 = 0" by (metis mod_mult_self2_is_0)+
  moreover have "?v div 262144 < 64" using digit64_less [of "unat a" 0 0] unat_byte [of a] by simp
  ultimately show ?case
    using digits64 [of ?v] three_bytes_join [of a 0 0] by (simp add: Let_def b64_value_char b64_char_special)
next
  case (3 a b)
  let ?v = "unat a * 65536 + unat b * 256"
  have "?v div 262144 < 64" using digit64_less [of "unat a" "unat b" 0] unat_byte [of a] unat_byte [of b] by simp
  moreover have "?v = (unat a * 1024 + unat b * 4) * 64" by simp
  then have "?v mod 64 = 0" by (metis mod_mult_self2_is_0)
  ultimately show ?case
    using three_bytes_join [of a b 0] digits64 [of ?v] by (simp add: Let_def b64_value_char b64_char_special)
next
  case (4 a b c bs)
  let ?v = "unat a * 65536 + unat b * 256 + unat c"
  have "?v div 262144 < 64" using digit64_less [of "unat a" "unat b" "unat c"] unat_byte [of a] unat_byte [of b] unat_byte [of c] by simp
  then show ?case using three_bytes_join [of a b c] digits64 [of ?v] 4 by (simp add: Let_def b64_value_char b64_char_special)
qed simp

lemma b64_encode_filter: "filter (\<lambda>c. c \<noteq> CHR 0x0A \<and> c \<noteq> CHR 0x0D) (b64_encode bs) = b64_encode bs"
proof (induction bs rule: b64_encode.induct)
  case (2 a)
  then show ?case using digit64_less [of "unat a" 0 0] unat_byte [of a] by (simp add: Let_def b64_char_special)
next
  case (3 a b)
  then show ?case
    using digit64_less [of "unat a" "unat b" 0] unat_byte [of a] unat_byte [of b] by (simp add: Let_def b64_char_special)
next
  case (4 a b c bs)
  then show ?case
    using digit64_less [of "unat a" "unat b" "unat c"] unat_byte [of a] unat_byte [of b] unat_byte [of c]
    by (simp add: Let_def b64_char_special)
qed simp

lemma b64_decode_encode [simp]: "b64_decode (b64_encode bs) = Some bs"
  by (simp add: b64_decode_def b64_encode_filter b64_quads_encode)


section \<open>Decoding into Go values\<close>

text \<open>
  A decoder takes the value the target has before and the document.  \<^verbatim>\<open>null\<close> leaves numbers, strings,
  arrays and structs as they are and makes a slice nil; a slice is filled afresh.  \<^verbatim>\<open>Unmarshal\<close> goes on after a value of the wrong
  type and returns that first error at the end; the program throws the target away then, so the decoder
  stops there.
\<close>

type_synonym 'a decoder = "'a \<Rightarrow> json \<Rightarrow> gerr + 'a"

abbreviation type_error :: "gerr + 'a" where
  "type_error \<equiv> Inl (Foreign ''json: cannot unmarshal'')"

definition dec_u32 :: "u32 decoder" where
  "dec_u32 old j = (case j of JNull \<Rightarrow> Inr old | JNum n \<Rightarrow> if 0 \<le> n \<and> n < 2 ^ 32 then Inr (of_int n) else type_error | _ \<Rightarrow> type_error)"

definition dec_u8 :: "byte decoder" where
  "dec_u8 old j = (case j of JNull \<Rightarrow> Inr old | JNum n \<Rightarrow> if 0 \<le> n \<and> n < 2 ^ 8 then Inr (of_int n) else type_error | _ \<Rightarrow> type_error)"

definition dec_string :: "string decoder" where
  "dec_string old j = (case j of JNull \<Rightarrow> Inr old | JStr s \<Rightarrow> Inr s | _ \<Rightarrow> type_error)"

fun dec_all :: "'a decoder \<Rightarrow> 'a list \<Rightarrow> json list \<Rightarrow> gerr + 'a list" where
  "dec_all d (x # xs) (j # js) = (case d x j of Inl e \<Rightarrow> Inl e | Inr y \<Rightarrow> map_sum id ((#) y) (dec_all d xs js))"
| "dec_all d _ _ = Inr []"

text \<open>A slice of bytes is a base64 string, but an array of numbers is accepted too.\<close>

definition dec_slice :: "'a \<Rightarrow> 'a decoder \<Rightarrow> 'a list decoder" where
  "dec_slice zero d old j =
     (case j of JNull \<Rightarrow> Inr [] | JArr js \<Rightarrow> dec_all d (replicate (length js) zero) js | _ \<Rightarrow> type_error)"

definition dec_bytes :: "bytes decoder" where
  "dec_bytes old j =
     (case j of
        JStr s \<Rightarrow> (case b64_decode s of None \<Rightarrow> Inl (Foreign ''illegal base64 data'') | Some bs \<Rightarrow> Inr bs)
      | _ \<Rightarrow> dec_slice 0 dec_u8 old j)"

text \<open>An array keeps its length: elements past its end are skipped, those the document lacks become zero.\<close>

definition dec_array :: "bytes decoder" where
  "dec_array old j =
     (case j of
        JNull \<Rightarrow> Inr old
      | JArr js \<Rightarrow> map_sum id (\<lambda>xs. xs @ replicate (length old - length xs) 0) (dec_all dec_u8 old js)
      | _ \<Rightarrow> type_error)"

definition dec_intros :: "nat \<Rightarrow> bytes list decoder" where
  "dec_intros n = dec_slice (replicate n 0) dec_array"

text \<open>The fields of a struct by name: an exact match first, else one that ignores case.  Other keys are skipped.\<close>

definition lower_case :: "string \<Rightarrow> string" where
  "lower_case = map (\<lambda>c. let n = of_char c :: nat in if 65 \<le> n \<and> n \<le> 90 then char_of (n + 32) else c)"

definition struct_field :: "(string \<times> 'r decoder) list \<Rightarrow> string \<Rightarrow> 'r decoder option" where
  "struct_field fs k =
     (case map_of fs k of Some d \<Rightarrow> Some d | None \<Rightarrow> map_of (map (\<lambda>(n, d). (lower_case n, d)) fs) (lower_case k))"

fun dec_fields :: "(string \<times> 'r decoder) list \<Rightarrow> 'r \<Rightarrow> (string \<times> json) list \<Rightarrow> gerr + 'r" where
  "dec_fields fs r [] = Inr r"
| "dec_fields fs r ((k, j) # kvs) =
     (case struct_field fs k of
        None \<Rightarrow> dec_fields fs r kvs
      | Some d \<Rightarrow> (case d r j of Inl e \<Rightarrow> Inl e | Inr r' \<Rightarrow> dec_fields fs r' kvs))"

definition dec_struct :: "(string \<times> 'r decoder) list \<Rightarrow> 'r decoder" where
  "dec_struct fs r j = (case j of JNull \<Rightarrow> Inr r | JObj kvs \<Rightarrow> dec_fields fs r kvs | _ \<Rightarrow> type_error)"

text \<open>The decoder of one component of the target.\<close>

definition on_fst :: "'a decoder \<Rightarrow> ('a \<times> 'b) decoder" where
  "on_fst d p j = map_sum id (\<lambda>x. (x, snd p)) (d (fst p) j)"

definition on_snd :: "'b decoder \<Rightarrow> ('a \<times> 'b) decoder" where
  "on_snd d p j = map_sum id (\<lambda>y. (fst p, y)) (d (snd p) j)"

section \<open>Encoding Go values\<close>

definition enc_u32 :: "u32 \<Rightarrow> json" where
  "enc_u32 n = JNum (uint n)"

definition enc_u8 :: "byte \<Rightarrow> json" where
  "enc_u8 n = JNum (uint n)"

definition enc_bytes :: "bytes \<Rightarrow> json" where
  "enc_bytes bs = JStr (b64_encode bs)"

definition enc_intros :: "bytes list \<Rightarrow> json" where
  "enc_intros xs = JArr (map (\<lambda>x. JArr (map enc_u8 x)) xs)"

lemma dec_enc_u32 [simp]: "dec_u32 old (enc_u32 n) = Inr n"
  using uint_lt2p [of n] by (simp add: dec_u32_def enc_u32_def)

lemma dec_enc_u8 [simp]: "dec_u8 old (enc_u8 n) = Inr n"
  using uint_lt2p [of n] by (simp add: dec_u8_def enc_u8_def)

lemma dec_enc_bytes [simp]: "dec_bytes old (enc_bytes bs) = Inr bs"
  by (simp add: dec_bytes_def enc_bytes_def)

lemma dec_enc_string [simp]: "dec_string old (JStr s) = Inr s"
  by (simp add: dec_string_def)

lemma dec_all_map:
  assumes "\<And>x old. x \<in> set xs \<Longrightarrow> old \<in> set olds \<Longrightarrow> d old (e x) = Inr x" "length olds = length xs"
  shows "dec_all d olds (map e xs) = Inr xs"
  using assms(2,1) by (induction olds xs rule: list_induct2) auto

lemma dec_enc_intros [simp]:
  assumes "\<forall>x \<in> set xs. length x = n"
  shows "dec_intros n old (enc_intros xs) = Inr xs"
proof -
  have "dec_array (replicate n 0) (JArr (map enc_u8 x)) = Inr x" if "x \<in> set xs" for x
    using assms that dec_all_map [of x "replicate n 0" dec_u8 enc_u8] by (simp add: dec_array_def)
  then have "dec_all dec_array (replicate (length xs) (replicate n 0)) (map (\<lambda>x. JArr (map enc_u8 x)) xs) = Inr xs"
    by (intro dec_all_map) auto
  then show ?thesis by (simp add: dec_intros_def dec_slice_def enc_intros_def)
qed

end
