(* ===== verification/EntryAPI.thy ===== *)
theory EntryAPI
  imports Json Wire
begin

text \<open>
  The messages between clients and the entry server (\<^verbatim>\<open>entry_api.go\<close>, \<^verbatim>\<open>msgtype_string.go\<close>) and the
  envelopes that carry them.  An \<^verbatim>\<open>interface{}\<close> that holds a pointer to one of the message structs is a
  value of type \<open>msg\<close>; \<open>Unsupported\<close> is a value of any other type, with the name of the type.
\<close>

definition MsgConvoRequest :: byte where "MsgConvoRequest = 0"
definition MsgDialRequest :: byte where "MsgDialRequest = 1"
definition MsgBadRequestError :: byte where "MsgBadRequestError = 2"
definition MsgConvoError :: byte where "MsgConvoError = 3"
definition MsgConvoResponse :: byte where "MsgConvoResponse = 4"
definition MsgDialError :: byte where "MsgDialError = 5"
definition MsgDialBucket :: byte where "MsgDialBucket = 6"
definition MsgAnnounceConvoRound :: byte where "MsgAnnounceConvoRound = 7"
definition MsgAnnounceDialRound :: byte where "MsgAnnounceDialRound = 8"

lemmas MsgType_defs = MsgConvoRequest_def MsgDialRequest_def MsgBadRequestError_def MsgConvoError_def MsgConvoResponse_def
  MsgDialError_def MsgDialBucket_def MsgAnnounceConvoRound_def MsgAnnounceDialRound_def

section \<open>The messages\<close>

datatype msg =
    ConvoRequest u32 bytes
  | DialRequest u32 bytes
  | BadRequestError string
  | ConvoError u32 string
  | ConvoResponse u32 bytes
  | DialError u32 string
  | DialBucket u32 "bytes list"
  | AnnounceConvoRound u32
  | AnnounceDialRound u32 u32
  | Unsupported string

text \<open>The text of an error, as \<^verbatim>\<open>%s\<close> prints it.\<close>

definition decimal_int :: "int \<Rightarrow> string" where
  "decimal_int i = (if i < 0 then ''-'' @ decimal (nat (- i)) else decimal (nat i))"

primrec err_text :: "gerr \<Rightarrow> string" where
  "err_text EOF = ''EOF''"
| "err_text UnexpectedEOF = ''unexpected EOF''"
| "err_text (RoundNotFound n) = ''round '' @ decimal (unat n) @ '' not found''"
| "err_text (RoundStatus n s t) = ''round '' @ decimal (unat n) @ '': status '' @ decimal s @ '', expecting '' @ decimal t"
| "err_text (RoundExists n) = ''round '' @ decimal (unat n) @ '' already exists''"
| "err_text (OverflowingOnions off k n) =
     ''overflowing onions (offset='' @ decimal_int off @ '', onions='' @ decimal k @ '', incoming='' @ decimal_int n @ '')''"
| "err_text NotLastServer = ''Dial.Buckets can only be called on the last server''"
| "err_text ShortKey = ''short key''"
| "err_text (UnknownMessageType t) = ''unknown message type: '' @ decimal (unat t)"
| "err_text (UnexpectedMessageType t) = ''unexpected message type: '' @ decimal (unat t)"
| "err_text (Foreign s) = s"
| "err_text (Wrapped s e) = s @ '': '' @ err_text e"

fun msg_Error :: "msg \<Rightarrow> string option" where
  "msg_Error (BadRequestError e) = Some e"
| "msg_Error (ConvoError n e) = Some (''round c'' @ decimal (unat n) @ '': '' @ e)"
| "msg_Error (DialError n e) = Some (''round d'' @ decimal (unat n) @ '': '' @ e)"
| "msg_Error _ = None"

section \<open>Envelopes\<close>

record Envelope =
  e_Type :: byte
  e_Message :: "json option"

definition round_and :: "string \<Rightarrow> 'a decoder \<Rightarrow> (string \<times> (u32 \<times> 'a) decoder) list" where
  "round_and name d = [(''Round'', on_fst dec_u32), (name, on_snd d)]"

text \<open>
  \<^verbatim>\<open>json.Unmarshal\<close> into the struct that \<^verbatim>\<open>Open\<close> has made for the type.  \<^verbatim>\<open>DialError\<close> has no case there.
\<close>

definition unmarshal_msg :: "nacl \<Rightarrow> byte \<Rightarrow> (json \<Rightarrow> gerr + msg) option" where
  "unmarshal_msg N t =
     (if t = MsgConvoRequest then Some (\<lambda>j. map_sum id (\<lambda>(n, x). ConvoRequest n x) (dec_struct (round_and ''Onion'' dec_bytes) (0, []) j))
      else if t = MsgDialRequest then Some (\<lambda>j. map_sum id (\<lambda>(n, x). DialRequest n x) (dec_struct (round_and ''Onion'' dec_bytes) (0, []) j))
      else if t = MsgBadRequestError then Some (\<lambda>j. map_sum id BadRequestError (dec_struct [(''Err'', dec_string)] [] j))
      else if t = MsgConvoError then Some (\<lambda>j. map_sum id (\<lambda>(n, x). ConvoError n x) (dec_struct (round_and ''Err'' dec_string) (0, []) j))
      else if t = MsgConvoResponse then Some (\<lambda>j. map_sum id (\<lambda>(n, x). ConvoResponse n x) (dec_struct (round_and ''Onion'' dec_bytes) (0, []) j))
      else if t = MsgDialBucket then
        Some (\<lambda>j. map_sum id (\<lambda>(n, x). DialBucket n x) (dec_struct (round_and ''Intros'' (dec_intros (SizeEncryptedIntro N))) (0, []) j))
      else if t = MsgAnnounceConvoRound then Some (\<lambda>j. map_sum id AnnounceConvoRound (dec_struct [(''Round'', dec_u32)] 0 j))
      else if t = MsgAnnounceDialRound then Some (\<lambda>j. map_sum id (\<lambda>(n, x). AnnounceDialRound n x) (dec_struct (round_and ''Buckets'' dec_u32) (0, 0) j))
      else None)"

definition Envelope_Open :: "nacl \<Rightarrow> Envelope \<Rightarrow> gerr + msg" where
  "Envelope_Open N e =
     (case unmarshal_msg N (e_Type e) of
        None \<Rightarrow> Inl (UnknownMessageType (e_Type e))
      | Some unmarshal \<Rightarrow>
          (case e_Message e of
             None \<Rightarrow> Inl (Wrapped ''json.Unmarshal'' (Foreign ''unexpected end of JSON input''))
           | Some j \<Rightarrow> (case unmarshal j of Inl err \<Rightarrow> Inl (Wrapped ''json.Unmarshal'' err) | Inr v \<Rightarrow> Inr v)))"

fun msg_type :: "msg \<Rightarrow> byte option" where
  "msg_type (ConvoRequest _ _) = Some MsgConvoRequest"
| "msg_type (DialRequest _ _) = Some MsgDialRequest"
| "msg_type (BadRequestError _) = Some MsgBadRequestError"
| "msg_type (ConvoError _ _) = Some MsgConvoError"
| "msg_type (ConvoResponse _ _) = Some MsgConvoResponse"
| "msg_type (DialError _ _) = Some MsgDialError"
| "msg_type (DialBucket _ _) = Some MsgDialBucket"
| "msg_type (AnnounceConvoRound _) = Some MsgAnnounceConvoRound"
| "msg_type (AnnounceDialRound _ _) = Some MsgAnnounceDialRound"
| "msg_type (Unsupported _) = None"

text \<open>\<^verbatim>\<open>json.Marshal\<close>, which has no failing case for these structs.\<close>

fun marshal_msg :: "msg \<Rightarrow> json" where
  "marshal_msg (ConvoRequest n x) = JObj [(''Round'', enc_u32 n), (''Onion'', enc_bytes x)]"
| "marshal_msg (DialRequest n x) = JObj [(''Round'', enc_u32 n), (''Onion'', enc_bytes x)]"
| "marshal_msg (BadRequestError e) = JObj [(''Err'', JStr e)]"
| "marshal_msg (ConvoError n e) = JObj [(''Round'', enc_u32 n), (''Err'', JStr e)]"
| "marshal_msg (ConvoResponse n x) = JObj [(''Round'', enc_u32 n), (''Onion'', enc_bytes x)]"
| "marshal_msg (DialError n e) = JObj [(''Round'', enc_u32 n), (''Err'', JStr e)]"
| "marshal_msg (DialBucket n xs) = JObj [(''Round'', enc_u32 n), (''Intros'', enc_intros xs)]"
| "marshal_msg (AnnounceConvoRound n) = JObj [(''Round'', enc_u32 n)]"
| "marshal_msg (AnnounceDialRound n b) = JObj [(''Round'', enc_u32 n), (''Buckets'', enc_u32 b)]"
| "marshal_msg (Unsupported _) = JNull"

definition Envelop :: "msg \<Rightarrow> gerr + Envelope" where
  "Envelop v =
     (case msg_type v of
        None \<Rightarrow> Inl (Foreign (''unsupported message type: '' @ (case v of Unsupported t \<Rightarrow> t | _ \<Rightarrow> [])))
      | Some t \<Rightarrow> Inr \<lparr>e_Type = t, e_Message = Some (marshal_msg v)\<rparr>)"

section \<open>Names of the types\<close>

definition MsgType_name :: string where
  "MsgType_name = ''MsgConvoRequestMsgDialRequestMsgBadRequestErrorMsgConvoErrorMsgConvoResponseMsgDialErrorMsgDialBucketMsgAnnounceConvoRoundMsgAnnounceDialRound''"

definition MsgType_index :: "byte list" where
  "MsgType_index = [0, 15, 29, 47, 60, 76, 88, 101, 122, 142]"

definition MsgType_String :: "byte \<Rightarrow> string" where
  "MsgType_String i =
     (if i \<ge> of_nat (length MsgType_index - 1) then ''MsgType('' @ decimal (unat i) @ '')''
      else slice (unat (MsgType_index ! unat i)) (unat (MsgType_index ! unat (i + 1))) MsgType_name)"

lemma MsgType_String_names:
  "map MsgType_String [MsgConvoRequest, MsgDialRequest, MsgBadRequestError, MsgConvoError, MsgConvoResponse, MsgDialError,
     MsgDialBucket, MsgAnnounceConvoRound, MsgAnnounceDialRound]
   = [''MsgConvoRequest'', ''MsgDialRequest'', ''MsgBadRequestError'', ''MsgConvoError'', ''MsgConvoResponse'', ''MsgDialError'',
     ''MsgDialBucket'', ''MsgAnnounceConvoRound'', ''MsgAnnounceDialRound'']"
  by code_simp


section \<open>Properties\<close>

text \<open>The arrays of a bucket have the size of an introduction.\<close>

fun wf_msg :: "nacl \<Rightarrow> msg \<Rightarrow> bool" where
  "wf_msg N (DialBucket _ xs) = (\<forall>x \<in> set xs. length x = SizeEncryptedIntro N)"
| "wf_msg N (Unsupported _) = False"
| "wf_msg N _ = True"

lemma dec_fields_single:
  "d r j = Inr r' \<Longrightarrow> dec_fields [(k, d)] r [(k, j)] = Inr r'"
  by (simp add: struct_field_def)

lemma dec_fields_round_and:
  assumes "d x0 j = Inr x" "name \<noteq> ''Round''"
  shows "dec_fields (round_and name d) (n0, x0) [(''Round'', enc_u32 n), (name, j)] = Inr (n, x)"
  using assms by (auto simp: struct_field_def round_and_def on_fst_def on_snd_def)

text \<open>The envelope of a message that has a type.\<close>

definition enveloped :: "msg \<Rightarrow> Envelope" where
  "enveloped v = \<lparr>e_Type = the (msg_type v), e_Message = Some (marshal_msg v)\<rparr>"

lemma Envelop_enveloped: "msg_type v \<noteq> None \<Longrightarrow> Envelop v = Inr (enveloped v)"
  by (auto simp: Envelop_def enveloped_def)

lemma wf_msg_type: "wf_msg N v \<Longrightarrow> msg_type v = Some (e_Type (enveloped v))"
  by (cases v) (simp_all add: enveloped_def)

lemma Open_enveloped:
  assumes "wf_msg N v"
  shows "Envelope_Open N (enveloped v) = (case v of DialError _ _ \<Rightarrow> Inl (UnknownMessageType MsgDialError) | _ \<Rightarrow> Inr v)"
  using assms
  by (cases v) (simp_all add: enveloped_def Envelope_Open_def unmarshal_msg_def MsgType_defs dec_struct_def dec_fields_single dec_fields_round_and
      del: dec_fields.simps)

text \<open>
  C16: envelopes.  Every message of the protocol goes into an envelope with a type of its own, and opening
  the envelope gives the message back, with one exception: an envelope with a \<^verbatim>\<open>DialError\<close>, which
  \<^verbatim>\<open>Open\<close> rejects as unknown.  A value of any other type is not put into an envelope, and an
  envelope without a message does not open.
\<close>

theorem envelope_round_trip:
  "(wf_msg N v \<longrightarrow> (\<exists>e. Envelop v = Inr e \<and> msg_type v = Some (e_Type e)
      \<and> Envelope_Open N e = (case v of DialError _ _ \<Rightarrow> Inl (UnknownMessageType MsgDialError) | _ \<Rightarrow> Inr v)))
    \<and> Envelop (Unsupported t) = Inl (Foreign (''unsupported message type: '' @ t))
    \<and> (\<exists>err. Envelope_Open N \<lparr>e_Type = b, e_Message = None\<rparr> = Inl err)"
proof (intro conjI impI)
  assume wf: "wf_msg N v"
  have "Envelop v = Inr (enveloped v)" using wf_msg_type [OF wf] by (simp add: Envelop_enveloped)
  then show "\<exists>e. Envelop v = Inr e \<and> msg_type v = Some (e_Type e)
      \<and> Envelope_Open N e = (case v of DialError _ _ \<Rightarrow> Inl (UnknownMessageType MsgDialError) | _ \<Rightarrow> Inr v)"
    using wf_msg_type [OF wf] Open_enveloped [OF wf] by (intro exI [of _ "enveloped v"] conjI)
qed (simp_all add: Envelop_def Envelope_Open_def split: option.split)

theorem envelope_round_trip_witness:
  "(\<exists>e. Envelop (DialBucket 3 [replicate 84 9]) = Inr e \<and> Envelope_Open clear_box e = Inr (DialBucket 3 [replicate 84 9]))
    \<and> (\<exists>e. Envelop (DialError 3 ''wrong round (currently 4)'') = Inr e \<and> Envelope_Open clear_box e = Inl (UnknownMessageType 5))"
  using envelope_round_trip [of clear_box "DialBucket 3 [replicate 84 9]" "[]" 0]
    envelope_round_trip [of clear_box "DialError 3 ''wrong round (currently 4)''" "[]" 0]
  by (auto simp: SizeEncryptedIntro_def MsgDialError_def clear_box_ok wire_simps align4_def)

end
