(* ===== verification/EntryServer.thy ===== *)
theory EntryServer
  imports EntryAPI Chain DialRounds
begin

text \<open>
  The entry server (\<^verbatim>\<open>vuvuzela-entry-server/server.go\<close>): connections, the requests of the round that is
  open, the two round loops, and what they send back.

  A connection is a number.  \<open>outbox s c\<close> is what has been written to the websocket of \<open>c\<close>.  The
  websocket package is the parameter \<open>W\<close>: \<open>W c sent e\<close> says whether \<^verbatim>\<open>WriteJSON(e)\<close> succeeds on
  connection \<open>c\<close> after \<open>sent\<close> has been written.  A \<^verbatim>\<open>go\<close> statement adds a job to \<open>jobs\<close>; any job may
  run next.  The mix servers are the clients \<open>C\<close> and \<open>D\<close>, which act on a state of their own.
\<close>

section \<open>State\<close>

record convoReq =
  cr_conn :: nat
  cr_onion :: bytes

record dialReq =
  dr_conn :: nat
  dr_onion :: bytes

datatype job =
    SendJob nat msg
  | HandleJob nat "msg option"
  | ConvoJob u32 "convoReq list"
  | DialJob u32 "dialReq list"

record server =
  connections :: "nat set"
  publicKey :: "nat \<rightharpoonup> bytes"
  outbox :: "nat \<Rightarrow> Envelope list"
  jobs :: "job list"
  convoRound :: u32
  convoRequests :: "convoReq list"
  convoReceiving :: bool
  dialRound :: u32
  dialRequests :: "dialReq list"
  dialReceiving :: bool

text \<open>\<open>convoReceiving\<close> and \<open>dialReceiving\<close> tell where the two round loops are: in the wait after the announcement or not.\<close>

definition new_server :: server where
  "new_server =
     \<lparr>connections = {}, publicKey = Map.empty, outbox = (\<lambda>_. []), jobs = [], convoRound = 0, convoRequests = [],
      convoReceiving = False, dialRound = 0, dialRequests = [], dialReceiving = False\<rparr>"

type_synonym websocket = "nat \<Rightarrow> Envelope list \<Rightarrow> Envelope \<Rightarrow> bool"

definition spawn :: "job \<Rightarrow> server \<Rightarrow> server" where
  "spawn j s = s\<lparr>jobs := jobs s @ [j]\<rparr>"

section \<open>Connections\<close>

definition register :: "nat \<Rightarrow> server \<Rightarrow> server" where
  "register c s = s\<lparr>connections := insert c (connections s)\<rparr>"

text \<open>The order in which Go ranges over the map is \<open>iter\<close>.\<close>

definition allConnections :: "(nat set \<Rightarrow> nat list) \<Rightarrow> server \<Rightarrow> nat list" where
  "allConnections iter s = iter (connections s)"

definition conn_Close :: "nat \<Rightarrow> server \<Rightarrow> server" where
  "conn_Close c s = s\<lparr>connections := connections s - {c}\<rparr>"

definition Send :: "websocket \<Rightarrow> nat \<Rightarrow> msg \<Rightarrow> server \<Rightarrow> server" where
  "Send W c v s =
     (case Envelop v of
        Inl _ \<Rightarrow> s
      | Inr e \<Rightarrow>
          if W c (outbox s c) e then s\<lparr>outbox := (outbox s)(c := outbox s c @ [e])\<rparr> else conn_Close c s)"

text \<open>\<open>order n\<close> is the order in which \<^verbatim>\<open>ParallelFor\<close> runs its \<open>n\<close> bodies.\<close>

definition broadcast :: "websocket \<Rightarrow> (nat \<Rightarrow> nat list) \<Rightarrow> nat list \<Rightarrow> msg \<Rightarrow> server \<Rightarrow> server" where
  "broadcast W order conns v s = fold (\<lambda>i. Send W (conns ! i) v) (order (length conns)) s"

datatype http_reply = MethodNotAllowed | BadRequest | UpgradeFailed | Connected nat

text \<open>
  \<^verbatim>\<open>wsHandler\<close> up to the read loop: \<open>key\<close> is the query parameter, \<open>upgraded\<close> whether the websocket
  handshake succeeds, and \<open>c\<close> the connection it allocates.
\<close>

definition wsHandler :: "base32 \<Rightarrow> string \<Rightarrow> string \<Rightarrow> bool \<Rightarrow> nat \<Rightarrow> server \<Rightarrow> http_reply \<times> server" where
  "wsHandler B meth key upgraded c s =
     (if meth \<noteq> ''GET'' then (MethodNotAllowed, s)
      else (case KeyFromString B key of
        Inl _ \<Rightarrow> (BadRequest, s)
      | Inr pk \<Rightarrow>
          if \<not> upgraded then (UpgradeFailed, s)
          else (Connected c, register c (s\<lparr>publicKey := (publicKey s)(c \<mapsto> pk)\<rparr>))))"

section \<open>Requests\<close>

text \<open>One turn of the read loop: \<open>None\<close> is a read error, which ends it.\<close>

definition read_one :: "nacl \<Rightarrow> nat \<Rightarrow> Envelope option \<Rightarrow> server \<Rightarrow> server" where
  "read_one N c m s =
     (case m of
        None \<Rightarrow> conn_Close c s
      | Some e \<Rightarrow>
          (case Envelope_Open N e of
             Inl err \<Rightarrow> spawn (HandleJob c None) (spawn (SendJob c (BadRequestError (''error parsing request: '' @ err_text err))) s)
           | Inr v \<Rightarrow> spawn (HandleJob c (Some v)) s))"

definition wrong_round :: "u32 \<Rightarrow> string" where
  "wrong_round n = ''wrong round (currently '' @ decimal (unat n) @ '')''"

definition handleConvoRequest :: "nat \<Rightarrow> u32 \<Rightarrow> bytes \<Rightarrow> server \<Rightarrow> server" where
  "handleConvoRequest c n onion s =
     (if n \<noteq> convoRound s then spawn (SendJob c (ConvoError n (wrong_round (convoRound s)))) s
      else s\<lparr>convoRequests := convoRequests s @ [\<lparr>cr_conn = c, cr_onion = onion\<rparr>]\<rparr>)"

definition handleDialRequest :: "nat \<Rightarrow> u32 \<Rightarrow> bytes \<Rightarrow> server \<Rightarrow> server" where
  "handleDialRequest c n onion s =
     (if n \<noteq> dialRound s then spawn (SendJob c (DialError n (wrong_round (dialRound s)))) s
      else s\<lparr>dialRequests := dialRequests s @ [\<lparr>dr_conn = c, dr_onion = onion\<rparr>]\<rparr>)"

definition handleRequest :: "nat \<Rightarrow> msg option \<Rightarrow> server \<Rightarrow> server" where
  "handleRequest c v s =
     (case v of
        Some (ConvoRequest n onion) \<Rightarrow> handleConvoRequest c n onion s
      | Some (DialRequest n onion) \<Rightarrow> handleDialRequest c n onion s
      | _ \<Rightarrow> s)"

section \<open>Rounds\<close>

text \<open>
  The loops, in two halves: from the top to the wait for requests, and the rest of the body.  An error of
  the first server leads back to the top.
\<close>

definition convo_announce ::
  "websocket \<Rightarrow> (nat set \<Rightarrow> nat list) \<Rightarrow> (nat \<Rightarrow> nat list) \<Rightarrow> 'c convo_client \<Rightarrow> server \<times> 'c \<Rightarrow> rng \<Rightarrow> ((server \<times> 'c) \<times> rng) outcome" where
  "convo_announce W iter order C = (\<lambda>(s, c) r.
     obind (NewConvoRound C (convoRound s) c r) (\<lambda>(res, c, r).
       case res of
         Inl _ \<Rightarrow> Ret ((s, c), r)
       | Inr _ \<Rightarrow>
           Ret (((broadcast W order (allConnections iter s) (AnnounceConvoRound (convoRound s)) s)\<lparr>convoReceiving := True\<rparr>, c), r)))"

definition convo_turn :: "server \<Rightarrow> server" where
  "convo_turn s =
     (spawn (ConvoJob (convoRound s) (convoRequests s)) s)
       \<lparr>convoRound := convoRound s + 1, convoRequests := [], convoReceiving := False\<rparr>"

definition dial_announce ::
  "websocket \<Rightarrow> (nat set \<Rightarrow> nat list) \<Rightarrow> (nat \<Rightarrow> nat list) \<Rightarrow> 'c dial_client \<Rightarrow> server \<times> 'c \<Rightarrow> rng \<Rightarrow> ((server \<times> 'c) \<times> rng) outcome" where
  "dial_announce W iter order D = (\<lambda>(s, c) r.
     obind (NewDialRound D (dialRound s) c r) (\<lambda>(res, c, r).
       case res of
         Inl _ \<Rightarrow> Ret ((s, c), r)
       | Inr _ \<Rightarrow>
           Ret (((broadcast W order (allConnections iter s) (AnnounceDialRound (dialRound s) (of_nat TotalDialBuckets)) s)
             \<lparr>dialReceiving := True\<rparr>, c), r)))"

definition dial_turn :: "server \<Rightarrow> server" where
  "dial_turn s =
     (spawn (DialJob (dialRound s) (dialRequests s)) s)
       \<lparr>dialRound := dialRound s + 1, dialRequests := [], dialReceiving := False\<rparr>"

text \<open>The replies go to the connections of the requests, by position; a reply with no request would be an index out of range.\<close>

definition send_replies :: "websocket \<Rightarrow> (nat \<Rightarrow> nat list) \<Rightarrow> u32 \<Rightarrow> nat list \<Rightarrow> bytes list \<Rightarrow> server \<Rightarrow> server outcome" where
  "send_replies W order Round conns reps s =
     (if length conns < length reps then Panic
      else Ret (fold (\<lambda>i. Send W (conns ! i) (ConvoResponse Round (reps ! i))) (order (length reps)) s))"

definition runConvoRound ::
  "websocket \<Rightarrow> (nat \<Rightarrow> nat list) \<Rightarrow> schedule \<times> schedule \<Rightarrow> 'c convo_client \<Rightarrow> u32 \<Rightarrow> convoReq list \<Rightarrow> server \<times> 'c \<Rightarrow> rng \<Rightarrow> ((server \<times> 'c) \<times> rng) outcome" where
  "runConvoRound W order calls C Round requests = (\<lambda>(s, c) r.
     let conns = map cr_conn requests; onions = map cr_onion requests
     in obind (RunConvoRound C calls Round onions c r) (\<lambda>(res, c, r).
       case res of
         Inl _ \<Rightarrow> Ret ((broadcast W order conns (ConvoError Round ''server error'') s, c), r)
       | Inr reps \<Rightarrow> obind (send_replies W order Round conns reps s) (\<lambda>s. Ret ((s, c), r))))"

definition send_bucket :: "websocket \<Rightarrow> u32 \<Rightarrow> bytes list list \<Rightarrow> nat \<Rightarrow> server \<Rightarrow> server outcome" where
  "send_bucket W Round buckets c s =
     obind (deref (publicKey s c)) (\<lambda>pk.
     obind (KeyDialBucket pk (of_nat TotalDialBuckets)) (\<lambda>bi.
     obind (idx buckets (unat bi)) (\<lambda>intros. Ret (Send W c (DialBucket Round intros) s))))"

definition runDialRound ::
  "websocket \<Rightarrow> (nat \<Rightarrow> nat list) \<Rightarrow> schedule \<Rightarrow> 'c dial_client \<Rightarrow> (u32 \<Rightarrow> ('c, bytes list list) action) \<Rightarrow> u32 \<Rightarrow> dialReq list \<Rightarrow> server \<times> 'c \<Rightarrow> rng \<Rightarrow> ((server \<times> 'c) \<times> rng) outcome" where
  "runDialRound W order calls D call_Buckets Round requests = (\<lambda>(s, c) r.
     let conns = map dr_conn requests; onions = map dr_onion requests
     in obind (RunDialRound D calls Round onions c r) (\<lambda>(res, c, r).
       case res of
         Inl _ \<Rightarrow> Ret ((broadcast W order conns (DialError Round ''server error'') s, c), r)
       | Inr _ \<Rightarrow> obind (call_Buckets Round c r) (\<lambda>(res, c, r).
           case res of
             Inl _ \<Rightarrow> Ret ((broadcast W order conns (DialError Round ''server error'') s, c), r)
           | Inr buckets \<Rightarrow>
               obind (fold (\<lambda>i out. obind out (send_bucket W Round buckets (conns ! i))) (order (length conns)) (Ret s))
                 (\<lambda>s. Ret ((s, c), r)))))"


section \<open>The server as a state machine\<close>

text \<open>
  What can happen next.  \<open>Arrive\<close> is an HTTP request that is given connection \<open>c\<close>, \<open>Read\<close> one turn of a
  read loop, \<open>Ran\<close> a job that runs to its end, and the others are the halves of the round loops.
\<close>

datatype event =
    Arrive nat string string bool
  | Read nat "Envelope option"
  | Ran job
  | ConvoAnnounce
  | ConvoTurn
  | DialAnnounce
  | DialTurn

record 'c env =
  env_nacl :: nacl
  env_base32 :: base32
  env_ws :: websocket
  env_iter :: "nat set \<Rightarrow> nat list"
  env_order :: "nat \<Rightarrow> nat list"
  env_convo_calls :: "schedule \<times> schedule"
  env_dial_calls :: schedule
  env_convo :: "'c convo_client"
  env_dial :: "'c dial_client"
  env_buckets :: "u32 \<Rightarrow> ('c, bytes list list) action"

primrec run_job :: "'c env \<Rightarrow> job \<Rightarrow> server \<times> 'c \<Rightarrow> rng \<Rightarrow> ((server \<times> 'c) \<times> rng) outcome" where
  "run_job E (SendJob c v) = (\<lambda>(s, b) r. Ret ((Send (env_ws E) c v s, b), r))"
| "run_job E (HandleJob c v) = (\<lambda>(s, b) r. Ret ((handleRequest c v s, b), r))"
| "run_job E (ConvoJob n reqs) = runConvoRound (env_ws E) (env_order E) (env_convo_calls E) (env_convo E) n reqs"
| "run_job E (DialJob n reqs) = runDialRound (env_ws E) (env_order E) (env_dial_calls E) (env_dial E) (env_buckets E) n reqs"

inductive entry_step :: "'c env \<Rightarrow> (server \<times> 'c) \<times> rng \<Rightarrow> event \<Rightarrow> (server \<times> 'c) \<times> rng \<Rightarrow> bool" for E where
  arrive: "c \<notin> dom (publicKey s) \<Longrightarrow>
    entry_step E ((s, b), r) (Arrive c meth key up) ((snd (wsHandler (env_base32 E) meth key up c s), b), r)"
| read: "c \<in> connections s \<Longrightarrow> entry_step E ((s, b), r) (Read c m) ((read_one (env_nacl E) c m s, b), r)"
| ran: "jobs s = js @ j # js' \<Longrightarrow> run_job E j (s\<lparr>jobs := js @ js'\<rparr>, b) r = Ret ((s', b'), r') \<Longrightarrow>
    entry_step E ((s, b), r) (Ran j) ((s', b'), r')"
| convo_announce: "\<not> convoReceiving s \<Longrightarrow>
    convo_announce (env_ws E) (env_iter E) (env_order E) (env_convo E) (s, b) r = Ret ((s', b'), r') \<Longrightarrow>
    entry_step E ((s, b), r) ConvoAnnounce ((s', b'), r')"
| convo_turn: "convoReceiving s \<Longrightarrow> entry_step E ((s, b), r) ConvoTurn ((convo_turn s, b), r)"
| dial_announce: "\<not> dialReceiving s \<Longrightarrow>
    dial_announce (env_ws E) (env_iter E) (env_order E) (env_dial E) (s, b) r = Ret ((s', b'), r') \<Longrightarrow>
    entry_step E ((s, b), r) DialAnnounce ((s', b'), r')"
| dial_turn: "dialReceiving s \<Longrightarrow> entry_step E ((s, b), r) DialTurn ((dial_turn s, b), r)"

inductive_cases entry_stepE: "entry_step E x e y"

text \<open>Runs, with the events in the order they happened.\<close>

inductive entry_run :: "'c env \<Rightarrow> 'c \<times> rng \<Rightarrow> event list \<Rightarrow> (server \<times> 'c) \<times> rng \<Rightarrow> bool" for E x0 where
  start: "entry_run E x0 [] ((new_server, fst x0), snd x0)"
| step: "entry_run E x0 tr x \<Longrightarrow> entry_step E x e y \<Longrightarrow> entry_run E x0 (tr @ [e]) y"

section \<open>Start\<close>

text \<open>
  \<^verbatim>\<open>main\<close>: the connections to the first server, one for each CPU, and to the last server, and the server before its loops
  run.  \<open>dial\<close> is \<^verbatim>\<open>rpc.Dial\<close>; a fatal exit is an \<open>Inl\<close>.
\<close>

definition entry_main :: "(string \<Rightarrow> nat \<Rightarrow> gerr + 'conn) \<Rightarrow> nat \<Rightarrow> PKI \<Rightarrow> (gerr + 'conn list \<times> 'conn list \<times> server) outcome" where
  "entry_main dial ncpu pki =
     obind (FirstServer pki) (\<lambda>first.
     case vrpc_Dial dial first ncpu of
       Inl err \<Rightarrow> Ret (Inl (Wrapped ''vrpc.Dial'' err))
     | Inr firstServer \<Rightarrow>
         obind (PKI_LastServer pki) (\<lambda>last.
         case vrpc_Dial dial last 1 of
           Inl err \<Rightarrow> Ret (Inl (Wrapped ''vrpc.Dial'' err))
         | Inr lastServer \<Rightarrow> Ret (Inr (firstServer, lastServer, new_server))))"

lemma entry_main_ok:
  assumes "pki_ok pki" "\<And>a i. \<exists>c. dial a i = Inr c"
  shows "\<exists>firstServer lastServer. entry_main dial ncpu pki = Ret (Inr (firstServer, lastServer, new_server))
    \<and> length firstServer = ncpu \<and> length lastServer = 1"
proof -
  have "\<exists>info. server_info pki (ServerOrder pki ! i) = Ret info" if "i < length (ServerOrder pki)" for i
    using assms(1) nth_mem [OF that] by (fastforce simp: pki_ok_def)
  note info = this
  have ne: "0 < length (ServerOrder pki)" using assms(1) by (simp add: pki_ok_def)
  obtain a b where ab: "FirstServer pki = Ret a" "PKI_LastServer pki = Ret b"
    using info [of 0] info [of "length (ServerOrder pki) - 1"] ne by (auto simp: FirstServer_def PKI_LastServer_def)
  obtain cs ds where "vrpc_Dial dial a ncpu = Inr cs" "vrpc_Dial dial b 1 = Inr ds"
    using vrpc_Dial_ok [of ncpu dial a] vrpc_Dial_ok [of 1 dial b] assms(2) by blast
  then show ?thesis using vrpc_Dial_Inr [of dial a ncpu cs] vrpc_Dial_Inr [of dial b 1 ds] by (simp add: entry_main_def ab)
qed

end
