(* ===== verification/EntryRounds.thy ===== *)
theory EntryRounds
  imports EntryServer
begin

text \<open>
  What the entry server makes of the requests: which ones go into a round, and that each round is run
  once.  The locale \<open>round_loop\<close> states what the two round loops share and is interpreted on both.
\<close>

section \<open>What sending leaves alone\<close>

text \<open>\<open>rounds_same s s'\<close>: everything is the same but what was sent, and connections that were closed.\<close>

definition rounds_same :: "server \<Rightarrow> server \<Rightarrow> bool" where
  "rounds_same s s' \<longleftrightarrow> (\<exists>A f. A \<subseteq> connections s \<and> s' = s\<lparr>connections := A, outbox := f\<rparr>)"

lemma rounds_same_refl [simp]: "rounds_same s s"
  unfolding rounds_same_def by (intro exI [of _ "connections s"] exI [of _ "outbox s"]) simp

lemma rounds_same_trans:
  assumes "rounds_same s s'" "rounds_same s' s''"
  shows "rounds_same s s''"
proof -
  from assms(1) obtain A f where A: "A \<subseteq> connections s" "s' = s\<lparr>connections := A, outbox := f\<rparr>" by (auto simp: rounds_same_def)
  with assms(2) obtain B g where B: "B \<subseteq> A" "s'' = s'\<lparr>connections := B, outbox := g\<rparr>" by (auto simp: rounds_same_def)
  then have "s'' = s\<lparr>connections := B, outbox := g\<rparr>" by (simp add: A(2))
  with A(1) B(1) show ?thesis unfolding rounds_same_def by blast
qed

lemma rounds_same_fields:
  assumes "rounds_same s s'"
  shows "jobs s' = jobs s" "convoRound s' = convoRound s" "convoRequests s' = convoRequests s" "convoReceiving s' = convoReceiving s"
    "dialRound s' = dialRound s" "dialRequests s' = dialRequests s" "dialReceiving s' = dialReceiving s" "publicKey s' = publicKey s"
    "connections s' \<subseteq> connections s"
  using assms by (auto simp: rounds_same_def)

lemma Send_same: "rounds_same s (Send W c v s)"
proof (cases "Envelop v")
  case (Inl e)
  then show ?thesis by (simp add: Send_def)
next
  case (Inr e)
  let ?A = "if W c (outbox s c) e then connections s else connections s - {c}"
  have "Send W c v s = s\<lparr>connections := ?A, outbox := (if W c (outbox s c) e then (outbox s)(c := outbox s c @ [e]) else outbox s)\<rparr>"
    using Inr by (simp add: Send_def conn_Close_def)
  moreover have "?A \<subseteq> connections s" by auto
  ultimately show ?thesis unfolding rounds_same_def by blast
qed

lemma fold_same: "(\<And>i s. rounds_same s (f i s)) \<Longrightarrow> rounds_same s (fold f is s)"
proof (induction "is" arbitrary: s)
  case (Cons i "is")
  from Cons.IH [OF Cons.prems] Cons.prems [of s i] show ?case by (auto intro: rounds_same_trans)
qed simp

lemma broadcast_same: "rounds_same s (broadcast W order conns v s)"
  unfolding broadcast_def by (intro fold_same Send_same)

lemma send_bucket_same: "send_bucket W Round buckets c s = Ret s' \<Longrightarrow> rounds_same s s'"
  by (auto simp: send_bucket_def outcome_simps Send_same)

lemma fold_bind_same:
  assumes "\<And>i s s'. f i s = Ret s' \<Longrightarrow> rounds_same s s'"
    and "fold (\<lambda>i out. obind out (f i)) is (Ret s) = Ret s'"
  shows "rounds_same s s'"
  using assms(2)
proof (induction "is" arbitrary: s)
  case (Cons i "is")
  have stuck: "fold (\<lambda>i out. obind out (f i)) is out = Ret s' \<Longrightarrow> \<exists>s1. out = Ret s1" for out
    by (induction "is" arbitrary: out) (fastforce simp: outcome_simps)+
  from Cons.prems stuck obtain s1 where "f i s = Ret s1" "fold (\<lambda>i out. obind out (f i)) is (Ret s1) = Ret s'" by fastforce
  with Cons.IH assms(1) show ?case by (blast intro: rounds_same_trans)
qed simp

lemma send_buckets_same:
  "fold (\<lambda>i out. obind out (send_bucket W Round buckets (conns ! i))) is (Ret s) = Ret s' \<Longrightarrow> rounds_same s s'"
  using fold_bind_same [where f = "\<lambda>i. send_bucket W Round buckets (conns ! i)"] send_bucket_same by blast

lemma run_job_same:
  assumes "run_job E j (s, b) r = Ret ((s', b'), r')" "\<forall>c v. j \<noteq> HandleJob c v"
  shows "rounds_same s s'"
proof (cases j)
  case (ConvoJob n reqs)
  with assms(1) show ?thesis
    by (auto simp: runConvoRound_def Let_def send_replies_def outcome_simps split: sum.splits if_splits intro: broadcast_same fold_same Send_same)
next
  case (DialJob n reqs)
  with assms(1) show ?thesis
    by (auto simp: runDialRound_def Let_def outcome_simps split: sum.splits intro: broadcast_same dest: send_buckets_same)
qed (use assms in \<open>auto intro: Send_same\<close>)


section \<open>A round loop\<close>

definition since :: "event \<Rightarrow> event list \<Rightarrow> event list" where
  "since turn tr = rev (takeWhile (\<lambda>e. e \<noteq> turn) (rev tr))"

lemma since_snoc [simp]: "since turn (tr @ [e]) = (if e = turn then [] else since turn tr @ [e])"
  by (simp add: since_def)

lemma since_Nil [simp]: "since turn [] = []"
  by (simp add: since_def)

text \<open>The number of the round after the events \<open>tr\<close>, and the requests it has then.\<close>

definition round_of :: "event \<Rightarrow> event list \<Rightarrow> u32" where
  "round_of turn tr = of_nat (count_list tr turn)"

definition asked_in :: "event \<Rightarrow> (u32 \<Rightarrow> event \<Rightarrow> 'r list) \<Rightarrow> event list \<Rightarrow> 'r list" where
  "asked_in turn asked tr = concat (map (asked (round_of turn tr)) (since turn tr))"

text \<open>The jobs that the turns in \<open>tr\<close> start, one for each, and those that have run.\<close>

definition turned :: "event \<Rightarrow> (u32 \<Rightarrow> event \<Rightarrow> 'r list) \<Rightarrow> (u32 \<Rightarrow> 'r list \<Rightarrow> job) \<Rightarrow> event list \<Rightarrow> job list" where
  "turned turn asked job tr =
     map (\<lambda>i. job (round_of turn (take i tr)) (asked_in turn asked (take i tr))) (filter (\<lambda>i. tr ! i = turn) [0..<length tr])"

fun ran_job :: "event \<Rightarrow> job list" where
  "ran_job (Ran j) = [j]"
| "ran_job _ = []"

lemma turned_snoc:
  "turned turn asked job (tr @ [e])
    = turned turn asked job tr @ (if e = turn then [job (round_of turn tr) (asked_in turn asked tr)] else [])"
proof -
  have "map (\<lambda>i. job (round_of turn (take i (tr @ [e]))) (asked_in turn asked (take i (tr @ [e])))) (filter (\<lambda>i. (tr @ [e]) ! i = turn) [0..<length tr])
      = turned turn asked job tr"
    unfolding turned_def by (intro map_cong filter_cong) (auto simp: nth_append)
  then show ?thesis by (simp add: turned_def)
qed

locale round_loop =
  fixes E :: "'c env" and turn :: event and asked :: "u32 \<Rightarrow> event \<Rightarrow> 'r list" and job :: "u32 \<Rightarrow> 'r list \<Rightarrow> job"
    and mine :: "job \<Rightarrow> bool" and cur :: "server \<Rightarrow> u32" and reqs :: "server \<Rightarrow> 'r list"
  assumes fresh: "cur new_server = 0" "reqs new_server = []"
    and job_mine: "mine (job n rs)" and turn_ran: "ran_job turn = []"
    and turn_step: "entry_step E ((s, b), r) turn ((s', b'), r') \<Longrightarrow>
      cur s' = cur s + 1 \<and> reqs s' = [] \<and> jobs s' = jobs s @ [job (cur s) (reqs s)]"
    and other_step: "entry_step E ((s, b), r) e ((s', b'), r') \<Longrightarrow> e \<noteq> turn \<Longrightarrow>
      cur s' = cur s \<and> reqs s' = reqs s @ asked (cur s) e
      \<and> mset (filter mine (ran_job e)) + mset (filter mine (jobs s')) = mset (filter mine (jobs s))"
begin

lemma run_rounds:
  assumes "entry_run E x0 tr x"
  shows "cur (fst (fst x)) = round_of turn tr \<and> reqs (fst (fst x)) = asked_in turn asked tr
    \<and> mset (filter mine (concat (map ran_job tr))) + mset (filter mine (jobs (fst (fst x)))) = mset (turned turn asked job tr)"
  using assms
proof induction
  case start
  then show ?case by (simp add: fresh round_of_def asked_in_def turned_def) (simp add: new_server_def)
next
  case (step tr x e y)
  obtain s b r where x: "x = ((s, b), r)" by (metis prod.exhaust)
  obtain s' b' r' where y: "y = ((s', b'), r')" by (metis prod.exhaust)
  show ?case
  proof (cases "e = turn")
    case True
    with turn_step [of s b r s' b' r'] step.hyps(2) step.IH show ?thesis
      by (simp add: x y round_of_def asked_in_def turned_snoc turn_ran job_mine)
  next
    case False
    with other_step [of s b r e s' b' r'] step.hyps(2) step.IH show ?thesis
      by (simp add: x y round_of_def asked_in_def turned_snoc add.assoc)
  qed
qed

end

section \<open>The two loops of the server\<close>

fun convo_asked :: "u32 \<Rightarrow> event \<Rightarrow> convoReq list" where
  "convo_asked n (Ran (HandleJob c (Some (ConvoRequest m onion)))) = (if m = n then [\<lparr>cr_conn = c, cr_onion = onion\<rparr>] else [])"
| "convo_asked n _ = []"

fun dial_asked :: "u32 \<Rightarrow> event \<Rightarrow> dialReq list" where
  "dial_asked n (Ran (HandleJob c (Some (DialRequest m onion)))) = (if m = n then [\<lparr>dr_conn = c, dr_onion = onion\<rparr>] else [])"
| "dial_asked n _ = []"

fun is_ConvoJob :: "job \<Rightarrow> bool" where
  "is_ConvoJob (ConvoJob _ _) = True"
| "is_ConvoJob _ = False"

fun is_DialJob :: "job \<Rightarrow> bool" where
  "is_DialJob (DialJob _ _) = True"
| "is_DialJob _ = False"

text \<open>What a step does to the rounds of both loops.\<close>

lemma handleRequest_rounds:
  "convoRound (handleRequest c v s) = convoRound s \<and> dialRound (handleRequest c v s) = dialRound s
    \<and> convoRequests (handleRequest c v s) = convoRequests s @ convo_asked (convoRound s) (Ran (HandleJob c v))
    \<and> dialRequests (handleRequest c v s) = dialRequests s @ dial_asked (dialRound s) (Ran (HandleJob c v))
    \<and> filter is_ConvoJob (jobs (handleRequest c v s)) = filter is_ConvoJob (jobs s)
    \<and> filter is_DialJob (jobs (handleRequest c v s)) = filter is_DialJob (jobs s)"
  by (auto simp: handleRequest_def handleConvoRequest_def handleDialRequest_def spawn_def split: option.split msg.split)

lemma asked_others:
  assumes "\<forall>c v. j \<noteq> HandleJob c v"
  shows "convo_asked n (Ran j) = [] \<and> dial_asked n (Ran j) = []"
  using assms by (cases j) auto

text \<open>A step that is no turn, as the two loops see it.\<close>

definition quiet_step :: "server \<Rightarrow> event \<Rightarrow> server \<Rightarrow> bool" where
  "quiet_step s e s' \<longleftrightarrow>
     convoRound s' = convoRound s \<and> convoRequests s' = convoRequests s @ convo_asked (convoRound s) e
     \<and> dialRound s' = dialRound s \<and> dialRequests s' = dialRequests s @ dial_asked (dialRound s) e
     \<and> mset (filter is_ConvoJob (ran_job e)) + mset (filter is_ConvoJob (jobs s')) = mset (filter is_ConvoJob (jobs s))
     \<and> mset (filter is_DialJob (ran_job e)) + mset (filter is_DialJob (jobs s')) = mset (filter is_DialJob (jobs s))"

lemma quiet_same:
  assumes "rounds_same s s'" "ran_job e = []" "convo_asked (convoRound s) e = []" "dial_asked (dialRound s) e = []"
  shows "quiet_step s e s'"
  using assms rounds_same_fields [OF assms(1)] by (simp add: quiet_step_def)

lemma quiet_ran:
  assumes "jobs s = js @ j # js'" "run_job E j (s\<lparr>jobs := js @ js'\<rparr>, b) r = Ret ((s', b'), r')"
  shows "quiet_step s (Ran j) s'"
proof (cases "\<exists>c v. j = HandleJob c v")
  case True
  then obtain c v where j: "j = HandleJob c v" by blast
  with assms(2) have "s' = handleRequest c v (s\<lparr>jobs := js @ js'\<rparr>)" by simp
  with handleRequest_rounds [of c v "s\<lparr>jobs := js @ js'\<rparr>"] show ?thesis
    unfolding quiet_step_def j assms(1) by simp
next
  case False
  then have same: "rounds_same (s\<lparr>jobs := js @ js'\<rparr>) s'" using run_job_same [OF assms(2)] by blast
  have "convo_asked n (Ran j) = [] \<and> dial_asked n (Ran j) = []" for n using asked_others False by blast
  with rounds_same_fields [OF same] show ?thesis
    unfolding quiet_step_def assms(1) by simp
qed

lemma wsHandler_rounds:
  "jobs (snd (wsHandler B m k u c s)) = jobs s \<and> convoRound (snd (wsHandler B m k u c s)) = convoRound s
    \<and> convoRequests (snd (wsHandler B m k u c s)) = convoRequests s \<and> dialRound (snd (wsHandler B m k u c s)) = dialRound s
    \<and> dialRequests (snd (wsHandler B m k u c s)) = dialRequests s"
  by (simp add: wsHandler_def register_def split: sum.split)

lemma quiet_read: "quiet_step s (Read c m) (read_one N c m s)"
  by (simp add: quiet_step_def read_one_def conn_Close_def spawn_def split: option.split sum.split)

lemma quiet_convo_announce:
  assumes "convo_announce W iter order C (s, b) r = Ret ((s', b'), r')"
  shows "quiet_step s ConvoAnnounce s'"
  using assms rounds_same_fields [OF broadcast_same [of s W order "allConnections iter s" "AnnounceConvoRound (convoRound s)"]]
  by (auto simp: quiet_step_def convo_announce_def outcome_simps split: sum.splits)

lemma quiet_dial_announce:
  assumes "dial_announce W iter order D (s, b) r = Ret ((s', b'), r')"
  shows "quiet_step s DialAnnounce s'"
  using assms
    rounds_same_fields [OF broadcast_same [of s W order "allConnections iter s" "AnnounceDialRound (dialRound s) (of_nat TotalDialBuckets)"]]
  by (auto simp: quiet_step_def dial_announce_def outcome_simps split: sum.splits)

lemma step_quiet:
  assumes "entry_step E ((s, b), r) e ((s', b'), r')" "e \<noteq> ConvoTurn" "e \<noteq> DialTurn"
  shows "quiet_step s e s'"
  using assms(1)
proof cases
  case (arrive c meth key up)
  then show ?thesis using wsHandler_rounds [of "env_base32 E" meth key up c s] by (simp add: quiet_step_def)
next
  case (read c m)
  then show ?thesis by (simp add: quiet_read)
next
  case (ran js j js')
  then show ?thesis by (simp add: quiet_ran)
next
  case convo_announce
  then show ?thesis by (simp add: quiet_convo_announce)
next
  case dial_announce
  then show ?thesis by (simp add: quiet_dial_announce)
qed (use assms(2,3) in simp_all)

interpretation convo_rounds: round_loop E ConvoTurn convo_asked ConvoJob is_ConvoJob convoRound convoRequests for E
proof unfold_locales
  fix s b r s' b' r'
  assume "entry_step E ((s, b), r) ConvoTurn ((s', b'), r')"
  then show "convoRound s' = convoRound s + 1 \<and> convoRequests s' = [] \<and> jobs s' = jobs s @ [ConvoJob (convoRound s) (convoRequests s)]"
    by cases (simp add: convo_turn_def spawn_def)
next
  fix s b r e s' b' r'
  assume step: "entry_step E ((s, b), r) e ((s', b'), r')" and e: "e \<noteq> ConvoTurn"
  show "convoRound s' = convoRound s \<and> convoRequests s' = convoRequests s @ convo_asked (convoRound s) e
      \<and> mset (filter is_ConvoJob (ran_job e)) + mset (filter is_ConvoJob (jobs s')) = mset (filter is_ConvoJob (jobs s))"
  proof (cases "e = DialTurn")
    case True
    from step [unfolded True] show ?thesis by cases (simp add: True dial_turn_def spawn_def)
  next
    case False
    with step_quiet [OF step e] show ?thesis by (simp add: quiet_step_def)
  qed
qed (simp_all add: new_server_def)

interpretation dial_rounds: round_loop E DialTurn dial_asked DialJob is_DialJob dialRound dialRequests for E
proof unfold_locales
  fix s b r s' b' r'
  assume "entry_step E ((s, b), r) DialTurn ((s', b'), r')"
  then show "dialRound s' = dialRound s + 1 \<and> dialRequests s' = [] \<and> jobs s' = jobs s @ [DialJob (dialRound s) (dialRequests s)]"
    by cases (simp add: dial_turn_def spawn_def)
next
  fix s b r e s' b' r'
  assume step: "entry_step E ((s, b), r) e ((s', b'), r')" and e: "e \<noteq> DialTurn"
  show "dialRound s' = dialRound s \<and> dialRequests s' = dialRequests s @ dial_asked (dialRound s) e
      \<and> mset (filter is_DialJob (ran_job e)) + mset (filter is_DialJob (jobs s')) = mset (filter is_DialJob (jobs s))"
  proof (cases "e = ConvoTurn")
    case True
    from step [unfolded True] show ?thesis by cases (simp add: True convo_turn_def spawn_def)
  next
    case False
    with step_quiet [OF step False e] show ?thesis by (simp add: quiet_step_def)
  qed
qed (simp_all add: new_server_def)

end
