(* ===== verification/EntryReplies.thy ===== *)
theory EntryReplies
  imports EntryRounds DialDelivery
begin

text \<open>
  Who gets what: the replies of a conversation round go to the connections that sent the onions, the
  dial buckets to the connections whose keys fall into them.
\<close>

section \<open>What is written to a connection\<close>

text \<open>A connection on which every write succeeds.\<close>

definition writable :: "websocket \<Rightarrow> nat \<Rightarrow> bool" where
  "writable W c \<longleftrightarrow> (\<forall>sent e. W c sent e)"

lemma Send_outbox:
  assumes "msg_type v \<noteq> None"
  shows "writable W c \<Longrightarrow> outbox (Send W c' v s) c = outbox s c @ (if c' = c then [enveloped v] else [])"
    and "c' \<noteq> c \<Longrightarrow> outbox (Send W c' v s) c = outbox s c"
  using assms by (auto simp: Send_def Envelop_enveloped conn_Close_def writable_def)

lemma fold_Send_outbox:
  assumes "\<And>i. msg_type (v i) \<noteq> None"
  shows "writable W c \<Longrightarrow> outbox (fold (\<lambda>i. Send W (cs i) (v i)) is s) c = outbox s c @ map (\<lambda>i. enveloped (v i)) (filter (\<lambda>i. cs i = c) is)"
    and "\<forall>i \<in> set is. cs i \<noteq> c \<Longrightarrow> outbox (fold (\<lambda>i. Send W (cs i) (v i)) is s) c = outbox s c"
  by (induction "is" arbitrary: s) (use assms in \<open>auto simp: Send_outbox\<close>)

text \<open>The body of the loop over the replies, whose length is the number of requests.\<close>

lemma runConvoRound_outcome:
  assumes "RunConvoRound C calls Round (map cr_onion requests) b r = Ret (res, b', r')"
  shows "runConvoRound W order calls C Round requests (s, b) r
    = Ret ((fold (\<lambda>i. Send W (map cr_conn requests ! i)
        (case res of Inl _ \<Rightarrow> ConvoError Round ''server error'' | Inr reps \<Rightarrow> ConvoResponse Round (reps ! i))) (order (length requests)) s, b'), r')"
proof (cases res)
  case (Inr reps)
  then have "length reps = length requests" using RunConvoRound_length assms by fastforce
  with Inr assms show ?thesis by (simp add: runConvoRound_def send_replies_def)
qed (use assms in \<open>simp add: runConvoRound_def broadcast_def\<close>)

lemma replies_outbox:
  assumes "complete_order (length requests) (order (length requests))" "\<And>i. msg_type (v i) \<noteq> None" "writable W c"
  shows "outbox (fold (\<lambda>i. Send W (map cr_conn requests ! i) (v i)) (order (length requests)) s) c
    = outbox s c @ map (\<lambda>i. enveloped (v i)) (filter (\<lambda>i. cr_conn (requests ! i) = c) (order (length requests)))"
proof -
  have "\<forall>i \<in> set (order (length requests)). i < length requests" using assms(1) by (auto simp: complete_order_def)
  then show ?thesis
    using fold_Send_outbox(1) [of v, OF assms(2,3), of "\<lambda>i. map cr_conn requests ! i"] by (simp cong: filter_cong)
qed

section \<open>Connections are known\<close>

text \<open>Whoever sends a request has registered with a key.\<close>

fun job_known :: "nat set \<Rightarrow> job \<Rightarrow> bool" where
  "job_known A (HandleJob c _) = (c \<in> A)"
| "job_known A (DialJob _ reqs) = (dr_conn ` set reqs \<subseteq> A)"
| "job_known A _ = True"

definition known :: "server \<Rightarrow> bool" where
  "known s \<longleftrightarrow> connections s \<subseteq> dom (publicKey s) \<and> dr_conn ` set (dialRequests s) \<subseteq> dom (publicKey s)
     \<and> (\<forall>j \<in> set (jobs s). job_known (dom (publicKey s)) j)"

lemma job_known_mono: "job_known A j \<Longrightarrow> A \<subseteq> B \<Longrightarrow> job_known B j"
  by (cases j) auto

lemma known_same: "known s \<Longrightarrow> rounds_same s s' \<Longrightarrow> known s'"
  unfolding known_def using rounds_same_fields [of s s'] by auto

lemma known_receiving [simp]: "known (s\<lparr>convoReceiving := x\<rparr>) = known s" "known (s\<lparr>dialReceiving := x\<rparr>) = known s"
  by (simp_all add: known_def)

lemma known_ran:
  assumes "known s" "jobs s = js @ j # js'" "run_job E j (s\<lparr>jobs := js @ js'\<rparr>, b) r = Ret ((s', b'), r')"
  shows "known s'"
proof (cases "\<exists>c v. j = HandleJob c v")
  case True
  then obtain c v where j: "j = HandleJob c v" by blast
  then have "s' = handleRequest c v (s\<lparr>jobs := js @ js'\<rparr>)" "c \<in> dom (publicKey s)" using assms by (simp_all add: known_def)
  then show ?thesis
    using assms(1,2) by (auto simp: known_def handleRequest_def handleConvoRequest_def handleDialRequest_def spawn_def split: option.splits msg.splits)
next
  case False
  then have "rounds_same (s\<lparr>jobs := js @ js'\<rparr>) s'" using run_job_same [OF assms(3)] by blast
  moreover have "known (s\<lparr>jobs := js @ js'\<rparr>)" using assms(1,2) by (simp add: known_def)
  ultimately show ?thesis using known_same by blast
qed

lemma known_wsHandler:
  assumes "known s" "c \<notin> dom (publicKey s)"
  shows "known (snd (wsHandler B meth key up c s))"
proof -
  have "job_known (insert c (dom (publicKey s))) j" if "j \<in> set (jobs s)" for j
    using assms(1) that job_known_mono [of "dom (publicKey s)" j] by (auto simp: known_def)
  with assms show ?thesis by (auto simp: known_def wsHandler_def register_def split: sum.split)
qed

lemma known_step:
  assumes "entry_step E ((s, b), r) e ((s', b'), r')" "known s"
  shows "known s'"
  using assms(1)
proof cases
  case (arrive c meth key up)
  then show ?thesis using assms(2) by (simp add: known_wsHandler)
next
  case (read c m)
  then show ?thesis using assms(2)
    by (auto simp: known_def read_one_def conn_Close_def spawn_def split: option.split sum.split)
next
  case (ran js j js')
  from known_ran [OF assms(2) ran(2,3)] show ?thesis .
next
  case convo_announce
  then show ?thesis
    using assms(2) known_same [OF assms(2) broadcast_same [of s "env_ws E" "env_order E" "allConnections (env_iter E) s" "AnnounceConvoRound (convoRound s)"]]
    by (auto simp: convo_announce_def outcome_simps split: sum.splits)
next
  case dial_announce
  then show ?thesis
    using assms(2) known_same [OF assms(2) broadcast_same [of s "env_ws E" "env_order E" "allConnections (env_iter E) s"
        "AnnounceDialRound (dialRound s) (of_nat TotalDialBuckets)"]]
    by (auto simp: dial_announce_def outcome_simps split: sum.splits)
qed (use assms(2) in \<open>auto simp: known_def convo_turn_def dial_turn_def spawn_def\<close>)

lemma known_run:
  assumes "entry_run E x0 tr x"
  shows "known (fst (fst x))"
  using assms
proof induction
  case start
  then show ?case by (simp add: known_def new_server_def)
next
  case (step tr x e y)
  then show ?case using known_step by (metis prod.collapse)
qed


section \<open>The buckets\<close>

text \<open>The call of \<^verbatim>\<open>Buckets\<close> on the last server of a chain.\<close>

definition last_Buckets :: "nacl \<Rightarrow> u32 \<Rightarrow> (DialService list, bytes list list) action" where
  "last_Buckets N n ss r = obind (Dial_Buckets N n (last ss) r) (\<lambda>(res, _, r). Ret (res, ss, r))"

text \<open>The bucket that a connection with key \<open>pk\<close> is sent.\<close>

definition bucket_for :: "bytes list list \<Rightarrow> bytes \<Rightarrow> bytes list" where
  "bucket_for buckets pk = buckets ! unat (Uint32 (slice 28 32 pk) mod of_nat TotalDialBuckets)"

lemma send_bucket_ok:
  assumes "publicKey s c = Some pk" "length buckets = TotalDialBuckets"
  shows "send_bucket W Round buckets c s = Ret (Send W c (DialBucket Round (bucket_for buckets pk)) s)"
proof -
  let ?bi = "Uint32 (slice 28 32 pk) mod of_nat TotalDialBuckets"
  have "unat ?bi < TotalDialBuckets" by (simp add: TotalDialBuckets_def)
  then have "idx buckets (unat ?bi) = Ret (bucket_for buckets pk)" by (simp add: idx_def assms(2) bucket_for_def)
  moreover have "KeyDialBucket pk (of_nat TotalDialBuckets) = Ret ?bi" by (simp add: KeyDialBucket_def TotalDialBuckets_def)
  ultimately show ?thesis by (simp add: send_bucket_def assms(1) deref_def del: of_nat_1)
qed

lemma send_buckets_ok:
  assumes "\<forall>i \<in> set is. conns ! i \<in> dom (publicKey s)" "length buckets = TotalDialBuckets"
  shows "fold (\<lambda>i out. obind out (send_bucket W Round buckets (conns ! i))) is (Ret s)
    = Ret (fold (\<lambda>i. Send W (conns ! i) (DialBucket Round (bucket_for buckets (the (publicKey s (conns ! i)))))) is s)"
  using assms(1)
proof (induction "is" arbitrary: s)
  case (Cons i "is")
  then obtain pk where pk: "publicKey s (conns ! i) = Some pk" by auto
  let ?s = "Send W (conns ! i) (DialBucket Round (bucket_for buckets pk)) s"
  have "publicKey ?s = publicKey s" using rounds_same_fields [OF Send_same] by simp
  with Cons.IH [of ?s] Cons.prems show ?case by (simp add: pk send_bucket_ok [OF pk assms(2)])
qed simp

lemma runDialRound_buckets:
  assumes "RunDialRound D calls Round (map dr_onion reqs) b r = Ret (Inr (), b1, r1)" "call_Buckets Round b1 r1 = Ret (Inr buckets, b2, r2)"
    and "length buckets = TotalDialBuckets" "dr_conn ` set reqs \<subseteq> dom (publicKey s)" "complete_order (length reqs) (order (length reqs))"
  shows "runDialRound W order calls D call_Buckets Round reqs (s, b) r
    = Ret ((fold (\<lambda>i. Send W (map dr_conn reqs ! i) (DialBucket Round (bucket_for buckets (the (publicKey s (map dr_conn reqs ! i))))))
        (order (length reqs)) s, b2), r2)"
proof -
  have "\<forall>i \<in> set (order (length reqs)). map dr_conn reqs ! i \<in> dom (publicKey s)"
    using subsetD [OF assms(4) imageI [OF nth_mem]] assms(5) by (auto simp: complete_order_def)
  from send_buckets_ok [OF this assms(3)] show ?thesis by (simp add: runDialRound_def Let_def assms(1,2))
qed

lemma count_in_order:
  assumes "complete_order (length xs) order"
  shows "length (filter (\<lambda>i. xs ! i = x) order) = count_list xs x"
proof -
  have "mset order = mset [0..<length xs]"
    using assms by (metis atLeast_upt complete_order_def distinct_upt set_eq_iff_mset_eq_distinct)
  then have "mset (map ((!) xs) order) = mset xs" by (metis map_nth mset_map)
  then have "count_list (map ((!) xs) order) x = count_list xs x" by (metis count_mset)
  then show ?thesis by (simp add: count_list_eq_length_filter filter_map o_def eq_commute)
qed

section \<open>Properties\<close>

text \<open>
  C4: the rounds of the entry server.  At every moment of every run, the round number is the number of
  turns its loop has taken (modulo 2 to the 32), and the requests held are those that were handled since
  the last turn and named that number, in that order, each with the connection it came from.  The
  batches that were started are exactly the ones the turns made of these requests, and each has run once
  or is waiting to run.  Both loops have this property, and neither touches the requests of the other.
\<close>

theorem entry_rounds:
  assumes "entry_run E x0 tr ((s, b), r)"
  shows "convoRound s = round_of ConvoTurn tr \<and> convoRequests s = asked_in ConvoTurn convo_asked tr
    \<and> mset (filter is_ConvoJob (concat (map ran_job tr))) + mset (filter is_ConvoJob (jobs s)) = mset (turned ConvoTurn convo_asked ConvoJob tr)
    \<and> dialRound s = round_of DialTurn tr \<and> dialRequests s = asked_in DialTurn dial_asked tr
    \<and> mset (filter is_DialJob (concat (map ran_job tr))) + mset (filter is_DialJob (jobs s)) = mset (turned DialTurn dial_asked DialJob tr)"
  using convo_rounds.run_rounds [OF assms] dial_rounds.run_rounds [OF assms] by simp

text \<open>
  C5: replies find their way.  When the mix servers answer, \<open>runConvoRound\<close> returns, and a connection
  that accepts writes is sent exactly the replies to its own onions, or, if they answered with an error,
  one error for each; a connection that sent nothing is sent nothing.
\<close>

theorem replies_routed:
  assumes "complete_order (length requests) (order (length requests))"
    and "RunConvoRound C calls Round (map cr_onion requests) b r = Ret (res, b', r')"
  shows "\<exists>s'. runConvoRound W order calls C Round requests (s, b) r = Ret ((s', b'), r')
    \<and> (\<forall>c. writable W c \<longrightarrow> outbox s' c = outbox s c @
        map (\<lambda>i. enveloped (case res of Inl _ \<Rightarrow> ConvoError Round ''server error'' | Inr reps \<Rightarrow> ConvoResponse Round (reps ! i)))
          (filter (\<lambda>i. cr_conn (requests ! i) = c) (order (length requests))))
    \<and> (\<forall>c. c \<notin> cr_conn ` set requests \<longrightarrow> outbox s' c = outbox s c)"
proof -
  let ?v = "\<lambda>i. case res of Inl _ \<Rightarrow> ConvoError Round ''server error'' | Inr reps \<Rightarrow> ConvoResponse Round (reps ! i)"
  let ?s = "fold (\<lambda>i. Send W (map cr_conn requests ! i) (?v i)) (order (length requests)) s"
  have v: "msg_type (?v i) \<noteq> None" for i by (simp split: sum.split)
  have in_range: "\<forall>i \<in> set (order (length requests)). i < length requests" using assms(1) by (auto simp: complete_order_def)
  have "outbox ?s c = outbox s c @ map (\<lambda>i. enveloped (?v i)) (filter (\<lambda>i. cr_conn (requests ! i) = c) (order (length requests)))"
    if "writable W c" for c
    by (rule replies_outbox [where v = ?v and order = order and requests = requests, OF assms(1) v that])
  moreover have "outbox ?s c = outbox s c" if "c \<notin> cr_conn ` set requests" for c
    using in_range that by (intro fold_Send_outbox(2) [of ?v, OF v]) auto
  ultimately show ?thesis using runConvoRound_outcome [OF assms(2), of W order s] by blast
qed

text \<open>
  C6: introductions find their way.  In every run of the entry server, a dialing round that the mix
  servers complete does not panic, and a connection that accepts writes is sent, once for each request it
  made, the bucket that the key it registered with falls into.
\<close>

theorem buckets_routed:
  assumes "entry_run E x0 tr ((s, b), r)" "jobs s = js @ DialJob n reqs # js'"
    and "complete_order (length reqs) (env_order E (length reqs))"
    and "RunDialRound (env_dial E) (env_dial_calls E) n (map dr_onion reqs) b r = Ret (Inr (), b1, r1)"
    and "env_buckets E n b1 r1 = Ret (Inr buckets, b2, r2)" "length buckets = TotalDialBuckets"
  shows "\<exists>s'. run_job E (DialJob n reqs) (s\<lparr>jobs := js @ js'\<rparr>, b) r = Ret ((s', b2), r2)
    \<and> (\<forall>c pk. writable (env_ws E) c \<longrightarrow> publicKey s c = Some pk \<longrightarrow>
        outbox s' c = outbox s c @ replicate (count_list (map dr_conn reqs) c) (enveloped (DialBucket n (bucket_for buckets pk))))
    \<and> dr_conn ` set reqs \<subseteq> dom (publicKey s)"
proof -
  let ?conns = "map dr_conn reqs" and ?s = "s\<lparr>jobs := js @ js'\<rparr>"
  let ?v = "\<lambda>i. DialBucket n (bucket_for buckets (the (publicKey ?s (?conns ! i))))"
  let ?is = "env_order E (length reqs)"
  have reg: "dr_conn ` set reqs \<subseteq> dom (publicKey ?s)" using known_run [OF assms(1)] assms(2) by (simp add: known_def)
  have run: "run_job E (DialJob n reqs) (?s, b) r = Ret ((fold (\<lambda>i. Send (env_ws E) (?conns ! i) (?v i)) ?is ?s, b2), r2)"
    unfolding run_job.simps by (rule runDialRound_buckets [where call_Buckets = "env_buckets E" and order = "env_order E", OF assms(4,5,6) reg assms(3)])
  have "outbox (fold (\<lambda>i. Send (env_ws E) (?conns ! i) (?v i)) ?is ?s) c
      = outbox s c @ replicate (count_list ?conns c) (enveloped (DialBucket n (bucket_for buckets pk)))"
    if c: "writable (env_ws E) c" "publicKey s c = Some pk" for c pk
  proof -
    have "map (\<lambda>i. enveloped (?v i)) (filter (\<lambda>i. ?conns ! i = c) ?is) = map (\<lambda>_. enveloped (DialBucket n (bucket_for buckets pk))) (filter (\<lambda>i. ?conns ! i = c) ?is)"
      using c(2) by auto
    then show ?thesis
      using fold_Send_outbox(1) [of ?v, OF _ c(1), of "\<lambda>i. ?conns ! i" ?is ?s] count_in_order [of ?conns ?is c] assms(3)
      by (simp add: map_replicate_const)
  qed
  with run reg show ?thesis by auto
qed


section \<open>Witnesses\<close>

text \<open>An entry server over one dialing server, and a client that registers and asks for round 0.\<close>

definition plain_base32 :: base32 where
  "plain_base32 = \<lparr>base32_EncodeToString = map (\<lambda>w. char_of (unat w)), base32_DecodeString = (\<lambda>s. Inr (map (\<lambda>c. of_nat (of_char c)) s))\<rparr>"

definition sample_env :: "DialService list env" where
  "sample_env =
     \<lparr>env_nacl = clear_box, env_base32 = plain_base32, env_ws = (\<lambda>_ _ _. True), env_iter = sorted_list_of_set, env_order = (\<lambda>n. [0..<n]),
      env_convo_calls = in_order, env_dial_calls = (\<lambda>n. [0..<n]), env_convo = nil_client, env_dial = sample_dialing,
      env_buckets = last_Buckets clear_box\<rparr>"

definition sample_trace :: "bytes \<Rightarrow> event list" where
  "sample_trace onion =
     [Arrive 0 ''GET'' (replicate 32 (CHR ''a'')) True, DialAnnounce, Read 0 (Some (enveloped (DialRequest 0 onion))),
      Ran (HandleJob 0 (Some (DialRequest 0 onion))), DialTurn]"

lemma sample_key: "KeyFromString plain_base32 (replicate 32 (CHR ''a'')) = Inr (replicate 32 97)"
  by (simp add: KeyFromString_def plain_base32_def copy_into_def)

lemma sample_entry_run:
  assumes "NewDialRound sample_dialing 0 ss r = Ret (Inr (), ss1, r1)"
  shows "\<exists>s. entry_run sample_env (ss, r) (sample_trace onion) ((s, ss1), r1)
    \<and> jobs s = [DialJob 0 [\<lparr>dr_conn = 0, dr_onion = onion\<rparr>]] \<and> publicKey s 0 = Some (replicate 32 97)
    \<and> outbox s 0 = [enveloped (AnnounceDialRound 0 1)]"
proof -
  let ?s1 = "new_server\<lparr>connections := {0}, publicKey := [0 \<mapsto> replicate 32 97]\<rparr>"
  let ?s2 = "?s1\<lparr>outbox := (\<lambda>_. [])(0 := [enveloped (AnnounceDialRound 0 1)]), dialReceiving := True\<rparr>"
  let ?req = "DialRequest 0 onion"
  have arrive: "entry_step sample_env ((new_server, ss), r) (Arrive 0 ''GET'' (replicate 32 (CHR ''a'')) True) ((?s1, ss), r)"
    using entry_step.arrive [of 0 new_server sample_env ss r "''GET''" "replicate 32 (CHR ''a'')" True] sample_key
    by (simp add: wsHandler_def sample_env_def register_def) (simp add: new_server_def)
  have "broadcast (env_ws sample_env) (env_order sample_env) (allConnections (env_iter sample_env) ?s1)
      (AnnounceDialRound 0 (of_nat TotalDialBuckets)) ?s1 = ?s1\<lparr>outbox := (\<lambda>_. [])(0 := [enveloped (AnnounceDialRound 0 1)])\<rparr>"
    unfolding sample_env_def by (simp add: broadcast_def allConnections_def Send_def Envelop_enveloped TotalDialBuckets_def new_server_def)
  moreover have "NewDialRound (env_dial sample_env) 0 ss r = Ret (Inr (), ss1, r1)"
    unfolding sample_env_def using assms by (simp del: dial_chain.simps)
  ultimately have announce: "entry_step sample_env ((?s1, ss), r) DialAnnounce ((?s2, ss1), r1)"
    by (intro entry_step.dial_announce) (simp_all add: dial_announce_def new_server_def)
  have "entry_step sample_env ((?s2, ss1), r1) (Read 0 (Some (enveloped ?req))) ((?s2\<lparr>jobs := [HandleJob 0 (Some ?req)]\<rparr>, ss1), r1)"
    using entry_step.read [of 0 ?s2 sample_env ss1 r1 "Some (enveloped ?req)"] Open_enveloped [of "env_nacl sample_env" ?req]
    by (simp add: read_one_def spawn_def) (simp add: new_server_def)
  moreover have "entry_step sample_env ((?s2\<lparr>jobs := [HandleJob 0 (Some ?req)]\<rparr>, ss1), r1) (Ran (HandleJob 0 (Some ?req)))
      ((?s2\<lparr>dialRequests := [\<lparr>dr_conn = 0, dr_onion = onion\<rparr>]\<rparr>, ss1), r1)"
    by (intro entry_step.ran [where js = "[]" and js' = "[]"]) (simp_all add: handleRequest_def handleDialRequest_def new_server_def)
  moreover have "entry_step sample_env ((?s2\<lparr>dialRequests := [\<lparr>dr_conn = 0, dr_onion = onion\<rparr>]\<rparr>, ss1), r1) DialTurn
      ((dial_turn (?s2\<lparr>dialRequests := [\<lparr>dr_conn = 0, dr_onion = onion\<rparr>]\<rparr>), ss1), r1)"
    by (intro entry_step.dial_turn) simp
  moreover have "entry_run sample_env (ss, r) [] ((new_server, ss), r)"
    using entry_run.start [of sample_env "(ss, r)"] by simp
  ultimately have "entry_run sample_env (ss, r) (((((([] @ [Arrive 0 ''GET'' (replicate 32 (CHR ''a'')) True]) @ [DialAnnounce])
      @ [Read 0 (Some (enveloped ?req))]) @ [Ran (HandleJob 0 (Some ?req))]) @ [DialTurn]))
      ((dial_turn (?s2\<lparr>dialRequests := [\<lparr>dr_conn = 0, dr_onion = onion\<rparr>]\<rparr>), ss1), r1)"
    using arrive announce by (blast intro: entry_run.step)
  then show ?thesis
    by (intro exI [of _ "dial_turn (?s2\<lparr>dialRequests := [\<lparr>dr_conn = 0, dr_onion = onion\<rparr>]\<rparr>)"])
      (simp add: sample_trace_def dial_turn_def spawn_def new_server_def)
qed


theorem entry_rounds_witness:
  "\<exists>onion srv s. entry_run sample_env ([sample_dial], \<lambda>_. 1) (sample_trace onion) ((s, [srv]), \<lambda>_. 1)
    \<and> dialRound s = 1 \<and> dialRequests s = []
    \<and> mset (filter is_DialJob (jobs s)) = mset (turned DialTurn dial_asked DialJob (sample_trace onion))"
proof -
  obtain onion where "dial_sealed clear_box 0 [replicate 32 1] sample_intro onion" using sample_onion by blast
  from sample_dial_round [OF this sample_bucket] obtain srv where "NewDialRound sample_dialing 0 [sample_dial] (\<lambda>_. 1) = Ret (Inr (), [srv], \<lambda>_. 1)"
    by blast
  from sample_entry_run [OF this, of onion] obtain s where run: "entry_run sample_env ([sample_dial], \<lambda>_. 1) (sample_trace onion) ((s, [srv]), \<lambda>_. 1)"
    by blast
  from entry_rounds [OF run] have "dialRound s = 1 \<and> dialRequests s = []
    \<and> mset (filter is_DialJob (jobs s)) = mset (turned DialTurn dial_asked DialJob (sample_trace onion))"
    by (simp add: sample_trace_def round_of_def asked_in_def since_def)
  with run show ?thesis by blast
qed

theorem replies_routed_witness:
  "\<exists>srv1 srv2 r' reps s'. RunConvoRound sample_client in_order 7 [[1, 2], []] [srv1] (\<lambda>_. 0) = Ret (Inr reps, [srv2], r')
    \<and> runConvoRound (\<lambda>_ _ _. True) (\<lambda>n. [0..<n]) in_order sample_client 7 [\<lparr>cr_conn = 4, cr_onion = [1, 2]\<rparr>, \<lparr>cr_conn = 5, cr_onion = []\<rparr>]
      (new_server, [srv1]) (\<lambda>_. 0) = Ret ((s', [srv2]), r')
    \<and> outbox s' 5 = [enveloped (ConvoResponse 7 (reps ! 1))] \<and> outbox s' 6 = []"
proof -
  let ?reqs = "[\<lparr>cr_conn = 4, cr_onion = [1, 2]\<rparr>, \<lparr>cr_conn = 5, cr_onion = []\<rparr>]"
  have "length [[1 :: byte, 2], []] < 2 ^ 62" by simp
  from sample_round [OF this] obtain srv1 reps srv2 r' where "RunConvoRound sample_client in_order 7 (map cr_onion ?reqs) [srv1] (\<lambda>_. 0) = Ret (Inr reps, [srv2], r')"
    by auto
  note run = this
  from replies_routed [where order = "\<lambda>n. [0..<n]" and W = "\<lambda>_ _ _. True" and s = new_server, OF complete_upt run]
  obtain s' where s': "runConvoRound (\<lambda>_ _ _. True) (\<lambda>n. [0..<n]) in_order sample_client 7 ?reqs (new_server, [srv1]) (\<lambda>_. 0) = Ret ((s', [srv2]), r')"
    and sent: "\<forall>c. writable (\<lambda>_ _ _. True) c \<longrightarrow> outbox s' c = outbox new_server c @
        map (\<lambda>i. enveloped (ConvoResponse 7 (reps ! i))) (filter (\<lambda>i. cr_conn (?reqs ! i) = c) [0..<length ?reqs])"
    by auto
  have "outbox s' 5 = [enveloped (ConvoResponse 7 (reps ! 1))]" "outbox s' 6 = []"
    using sent by (simp_all add: writable_def new_server_def upt_rec)
  with run s' show ?thesis by (intro exI [of _ srv1] exI [of _ srv2] exI [of _ r'] exI [of _ reps] exI [of _ s']) simp
qed

theorem buckets_routed_witness:
  "\<exists>onion srv1 srv2 s s'. dial_sealed clear_box 0 [replicate 32 1] sample_intro onion
    \<and> entry_run sample_env ([sample_dial], \<lambda>_. 1) (sample_trace onion) ((s, [srv1]), \<lambda>_. 1)
    \<and> run_job sample_env (DialJob 0 [\<lparr>dr_conn = 0, dr_onion = onion\<rparr>]) (s\<lparr>jobs := []\<rparr>, [srv1]) (\<lambda>_. 1) = Ret ((s', [srv2]), \<lambda>_. 1)
    \<and> outbox s' 0 = [enveloped (AnnounceDialRound 0 1), enveloped (DialBucket 0 [EncryptedIntro sample_intro])]"
proof -
  obtain onion where seal: "dial_sealed clear_box 0 [replicate 32 1] sample_intro onion" using sample_onion by blast
  from sample_dial_round [OF this sample_bucket] obtain srv1 srv2 where new: "NewDialRound sample_dialing 0 [sample_dial] (\<lambda>_. 1) = Ret (Inr (), [srv1], \<lambda>_. 1)"
    and dial: "RunDialRound sample_dialing (\<lambda>k. [0..<k]) 0 [onion] [srv1] (\<lambda>_. 1) = Ret (Inr (), [srv2], \<lambda>_. 1)"
    and buckets: "Dial_Buckets clear_box 0 srv2 (\<lambda>_. 1) = Ret (Inr [[EncryptedIntro sample_intro]], srv2, \<lambda>_. 1)"
    by blast
  from sample_entry_run [OF new, of onion] obtain s where run: "entry_run sample_env ([sample_dial], \<lambda>_. 1) (sample_trace onion) ((s, [srv1]), \<lambda>_. 1)"
    and s: "jobs s = [] @ DialJob 0 [\<lparr>dr_conn = 0, dr_onion = onion\<rparr>] # []" "publicKey s 0 = Some (replicate 32 97)"
      "outbox s 0 = [enveloped (AnnounceDialRound 0 1)]"
    by auto
  have env: "RunDialRound (env_dial sample_env) (env_dial_calls sample_env) 0 (map dr_onion [\<lparr>dr_conn = 0, dr_onion = onion\<rparr>]) [srv1] (\<lambda>_. 1) = Ret (Inr (), [srv2], \<lambda>_. 1)"
    "env_buckets sample_env 0 [srv2] (\<lambda>_. 1) = Ret (Inr [[EncryptedIntro sample_intro]], [srv2], \<lambda>_. 1)"
    "complete_order k (env_order sample_env k)" "writable (env_ws sample_env) 0" for k
    using dial buckets complete_upt unfolding sample_env_def by (simp_all add: writable_def last_Buckets_def del: dial_chain.simps)
  have "length [[EncryptedIntro sample_intro]] = TotalDialBuckets" by (simp add: TotalDialBuckets_def)
  from buckets_routed [OF run s(1) env(3,1,2) this] obtain s' where
    "run_job sample_env (DialJob 0 [\<lparr>dr_conn = 0, dr_onion = onion\<rparr>]) (s\<lparr>jobs := [] @ []\<rparr>, [srv1]) (\<lambda>_. 1) = Ret ((s', [srv2]), \<lambda>_. 1)"
    and "outbox s' 0 = outbox s 0 @ replicate 1 (enveloped (DialBucket 0 (bucket_for [[EncryptedIntro sample_intro]] (replicate 32 97))))"
    using env(4) s(2) by auto
  moreover have "bucket_for [[EncryptedIntro sample_intro]] (replicate 32 97) = [EncryptedIntro sample_intro]"
    by (simp add: bucket_for_def TotalDialBuckets_def)
  ultimately show ?thesis using seal run s(3)
    by (intro exI [of _ onion] exI [of _ srv1] exI [of _ srv2] exI [of _ s] exI [of _ s']) simp
qed

end
