(* ===== verification/Sha256.thy ===== *)
theory Sha256
  imports Wire
begin

unbundle bit_operations_syntax

text \<open>
  \<^verbatim>\<open>crypto/sha256\<close> and \<^verbatim>\<open>crypto/hmac\<close>, which the client uses to name dead drops: SHA-256 as in FIPS 180-4
  and HMAC as in FIPS 198-1.
\<close>

text \<open>
  The constants are the first 32 fractional bits of the cube roots of the first 64 primes, and the initial state those of the
  square roots of the first eight. \<open>root_bits e n k x\<close> finds the largest number with \<open>e\<close>-th power at most \<open>n\<close> that agrees with
  \<open>x\<close> above its lowest \<open>k\<close> bits.
\<close>

fun root_bits :: "nat \<Rightarrow> nat \<Rightarrow> nat \<Rightarrow> nat \<Rightarrow> nat" where
  "root_bits e n 0 x = x"
| "root_bits e n (Suc k) x = root_bits e n k (if (x + 2 ^ k) ^ e \<le> n then x + 2 ^ k else x)"

definition fraction_bits :: "nat \<Rightarrow> nat \<Rightarrow> u32" where
  "fraction_bits e p = of_nat (root_bits e (p * 2 ^ (32 * e)) 40 0)"

definition small_primes :: "nat list" where
  "small_primes = filter (\<lambda>p. \<forall>d \<in> set [2..<p]. p mod d \<noteq> 0) [2..<312]"

definition sha_K :: "u32 list" where
  "sha_K = map (fraction_bits 3) small_primes"

lemma root_bits_bound:
  assumes "0 < e" "x ^ e \<le> n" "n < (x + 2 ^ k) ^ e"
  shows "(root_bits e n k x) ^ e \<le> n \<and> n < (Suc (root_bits e n k x)) ^ e"
  using assms
proof (induction k arbitrary: x)
  case (Suc k)
  then show ?case by (cases "(x + 2 ^ k) ^ e \<le> n") (auto simp: mult_2 add.assoc)
qed simp

record sha_state =
  sha_a :: u32
  sha_b :: u32
  sha_c :: u32
  sha_d :: u32
  sha_e :: u32
  sha_f :: u32
  sha_g :: u32
  sha_h :: u32

definition sha_init :: sha_state where
  "sha_init =
     \<lparr>sha_a = fraction_bits 2 2, sha_b = fraction_bits 2 3, sha_c = fraction_bits 2 5, sha_d = fraction_bits 2 7,
      sha_e = fraction_bits 2 11, sha_f = fraction_bits 2 13, sha_g = fraction_bits 2 17, sha_h = fraction_bits 2 19\<rparr>"

definition sha_pad :: "bytes \<Rightarrow> bytes" where
  "sha_pad m = m @ [0x80] @ replicate ((119 - length m mod 64) mod 64) 0
     @ PutUint32 (of_nat (length m * 8 div 2 ^ 32)) @ PutUint32 (of_nat (length m * 8))"

definition sha_extend :: "u32 list \<Rightarrow> u32 list" where
  "sha_extend w =
     (let n = length w; x = w ! (n - 15); y = w ! (n - 2);
          s0 = word_rotr 7 x XOR word_rotr 18 x XOR drop_bit 3 x;
          s1 = word_rotr 17 y XOR word_rotr 19 y XOR drop_bit 10 y
      in w @ [w ! (n - 16) + s0 + w ! (n - 7) + s1])"

definition sha_round :: "u32 \<times> u32 \<Rightarrow> sha_state \<Rightarrow> sha_state" where
  "sha_round = (\<lambda>(k, w) s.
     let S1 = word_rotr 6 (sha_e s) XOR word_rotr 11 (sha_e s) XOR word_rotr 25 (sha_e s);
         ch = (sha_e s AND sha_f s) XOR (NOT (sha_e s) AND sha_g s);
         t1 = sha_h s + S1 + ch + k + w;
         S0 = word_rotr 2 (sha_a s) XOR word_rotr 13 (sha_a s) XOR word_rotr 22 (sha_a s);
         maj = (sha_a s AND sha_b s) XOR (sha_a s AND sha_c s) XOR (sha_b s AND sha_c s)
     in \<lparr>sha_a = t1 + S0 + maj, sha_b = sha_a s, sha_c = sha_b s, sha_d = sha_c s,
         sha_e = sha_d s + t1, sha_f = sha_e s, sha_g = sha_f s, sha_h = sha_g s\<rparr>)"

definition sha_block :: "bytes \<Rightarrow> sha_state \<Rightarrow> sha_state" where
  "sha_block b s =
     (let w = (sha_extend ^^ 48) (map (\<lambda>i. Uint32 (slice (4 * i) (4 * i + 4) b)) [0..<16]);
          t = fold sha_round (zip sha_K w) s
      in \<lparr>sha_a = sha_a s + sha_a t, sha_b = sha_b s + sha_b t, sha_c = sha_c s + sha_c t, sha_d = sha_d s + sha_d t,
          sha_e = sha_e s + sha_e t, sha_f = sha_f s + sha_f t, sha_g = sha_g s + sha_g t, sha_h = sha_h s + sha_h t\<rparr>)"

definition sha256_Sum :: "bytes \<Rightarrow> bytes" where
  "sha256_Sum m =
     (let p = sha_pad m;
          s = fold (\<lambda>i. sha_block (slice (64 * i) (64 * i + 64) p)) [0..<length p div 64] sha_init
      in concat (map PutUint32 [sha_a s, sha_b s, sha_c s, sha_d s, sha_e s, sha_f s, sha_g s, sha_h s]))"

definition hmac_sha256 :: "bytes \<Rightarrow> bytes \<Rightarrow> bytes" where
  "hmac_sha256 key m =
     (let k = copy_into (replicate 64 0) (if 64 < length key then sha256_Sum key else key)
      in sha256_Sum (map (\<lambda>b. b XOR 0x5c) k @ sha256_Sum (map (\<lambda>b. b XOR 0x36) k @ m)))"

lemma length_sha256 [simp]: "length (sha256_Sum m) = 32"
  by (simp add: sha256_Sum_def Let_def PutUint32_def)

lemma length_hmac [simp]: "length (hmac_sha256 key m) = 32"
  by (simp add: hmac_sha256_def Let_def)

end
