(* ===== verification/Varint.thy ===== *)
theory Varint
  imports Prelude
begin

unbundle bit_operations_syntax

text \<open>
  \<^verbatim>\<open>PutVarint\<close> and \<^verbatim>\<open>Varint\<close> of \<^verbatim>\<open>encoding/binary\<close>: a 64-bit integer with its sign moved to the lowest bit, in
  groups of seven bits from the lowest, the high bit set on all but the last.
\<close>

lemma unat_drop_7: "unat (drop_bit 7 x) = unat (x :: 64 word) div 128"
  by (subst unat_drop_bit_eq) (simp add: drop_bit_eq_div)

function PutUvarint :: "64 word \<Rightarrow> bytes" where
  "PutUvarint x = (if x < 0x80 then [ucast x] else (ucast x OR 0x80) # PutUvarint (drop_bit 7 x))"
  by auto
termination
proof (relation "measure unat")
  fix x :: "64 word"
  assume "\<not> x < 0x80"
  then have "128 \<le> unat x" by (simp add: word_less_nat_alt)
  then show "(drop_bit 7 x, x) \<in> measure unat" by (simp add: unat_drop_7)
qed simp

declare PutUvarint.simps [simp del]

text \<open>\<open>i\<close> bytes have been read, which gave \<open>x\<close>.  A number of more than 64 bits, like one that does not end, is 0.\<close>

fun Uvarint :: "nat \<Rightarrow> 64 word \<Rightarrow> bytes \<Rightarrow> 64 word" where
  "Uvarint i x [] = 0"
| "Uvarint i x (b # bs) =
     (if b < 0x80 then (if 9 < i \<or> i = 9 \<and> 1 < b then 0 else x OR push_bit (7 * i) (ucast b))
      else Uvarint (Suc i) (x OR push_bit (7 * i) (ucast (b AND 0x7f))) bs)"

definition PutVarint :: "int \<Rightarrow> bytes" where
  "PutVarint x = (let ux = push_bit 1 (word_of_int x) in PutUvarint (if x < 0 then NOT ux else ux))"

definition Varint :: "bytes \<Rightarrow> int" where
  "Varint bs = (let ux = Uvarint 0 0 bs; x = drop_bit 1 ux in sint (if bit ux 0 then NOT x else x))"

lemma low_7: "x AND 0x7f = take_bit 7 (x :: 'a :: len word)"
  by (simp add: take_bit_eq_mask mask_eq_exp_minus_1)

lemma low_bits: "(x AND 0x7f) OR push_bit 7 (drop_bit 7 x) = (x :: 64 word)"
  unfolding low_7 by (intro bit_word_eqI) (auto simp: bit_simps, metis le_add_diff_inverse not_less)

text \<open>Reading what was written, after \<open>i\<close> bytes, with enough of the 64 bits left for it.\<close>

lemma Uvarint_Put:
  assumes "unat x < 2 ^ (64 - 7 * i)" "i \<le> 9"
  shows "Uvarint i y (PutUvarint x @ rest) = y OR push_bit (7 * i) x"
  using assms
proof (induction x arbitrary: i y rule: PutUvarint.induct)
  case (1 x)
  show ?case
  proof (cases "x < 0x80")
    case True
    then have x: "unat x < 128" by (simp add: word_less_nat_alt)
    then have b: "unat (ucast x :: byte) = unat x" by (simp add: unsigned_ucast_eq take_bit_nat_eq_self)
    then have same: "ucast (ucast x :: byte) = x" using x by (simp add: word_unat_eq_iff unsigned_ucast_eq unsigned_take_bit_eq take_bit_nat_eq_self)
    have "(ucast x :: byte) < 0x80" using x b by (simp add: word_less_nat_alt)
    moreover have "\<not> (9 < i \<or> i = 9 \<and> 1 < (ucast x :: byte))"
      using "1.prems" b by (auto simp: word_less_nat_alt)
    ultimately show ?thesis using True by (auto simp: PutUvarint.simps [of x] same)
  next
    case False
    then have big: "128 \<le> unat x" by (simp add: word_less_nat_alt)
    have i: "i < 9" using "1.prems" big by (cases "i = 9") auto
    have high: "\<not> (ucast x OR 0x80 :: byte) < 0x80" by (metis le_word_or2 or.commute not_less)
    have "take_bit 7 (ucast x OR 0x80 :: byte) = take_bit 7 (ucast x)" by (simp add: take_bit_or)
    then have low: "ucast ((ucast x OR 0x80 :: byte) AND 0x7f) = x AND 0x7f"
      unfolding low_7 by (simp) (intro bit_word_eqI, auto simp: bit_simps)
    have "64 - 7 * i = (64 - 7 * Suc i) + 7" using i by arith
    then have "(2 :: nat) ^ (64 - 7 * i) = 2 ^ (64 - 7 * Suc i) * 2 ^ 7" by (metis power_add)
    then have "unat (drop_bit 7 x) < 2 ^ (64 - 7 * Suc i)"
      using "1.prems"(1) by (simp add: unat_drop_7 div_less_iff_less_mult)
    then have "Uvarint (Suc i) z (PutUvarint (drop_bit 7 x) @ rest) = z OR push_bit (7 * Suc i) (drop_bit 7 x)" for z
      using "1.IH" [OF False] i by simp
    moreover have "push_bit (7 * i) (x AND 0x7f) OR push_bit (7 * Suc i) (drop_bit 7 x) = push_bit (7 * i) x"
      using arg_cong [OF low_bits [of x], of "push_bit (7 * i)"] by (simp add: push_bit_or add.commute)
    ultimately show ?thesis using False high low by (simp add: PutUvarint.simps [of x] or.assoc)
  qed
qed


lemma length_PutUvarint: "unat x < 2 ^ (7 * n) \<Longrightarrow> 0 < n \<Longrightarrow> length (PutUvarint x) \<le> n"
proof (induction x arbitrary: n rule: PutUvarint.induct)
  case (1 x)
  show ?case
  proof (cases "x < 0x80")
    case True
    then show ?thesis using "1.prems" by (simp add: PutUvarint.simps [of x])
  next
    case False
    then have "128 \<le> unat x" by (simp add: word_less_nat_alt)
    then obtain k where k: "n = Suc k" "0 < k" using "1.prems" by (cases n; cases "n - 1") auto
    then have "unat (drop_bit 7 x) < 2 ^ (7 * k)" using "1.prems"(1) by (simp add: unat_drop_7 div_less_iff_less_mult power_add)
    from "1.IH" [OF False this k(2)] show ?thesis using False k by (simp add: PutUvarint.simps [of x])
  qed
qed

lemma length_PutVarint: "length (PutVarint x) \<le> 10"
proof -
  have "unat w < 2 ^ (7 * 10)" for w :: "64 word" using unsigned_less [of w] by (rule order_less_le_trans) simp
  then show ?thesis unfolding PutVarint_def Let_def by (intro length_PutUvarint) auto
qed

text \<open>Reading back a 64-bit integer, whatever follows it.\<close>

theorem Varint_Put:
  assumes "- (2 ^ 63) \<le> x" "x < 2 ^ 63"
  shows "Varint (PutVarint x @ rest) = x"
proof -
  let ?w = "word_of_int x :: 64 word"
  have x: "sint ?w = x" using assms by (simp add: signed_of_int signed_take_bit_int_eq_self)
  let ?ux = "if x < 0 then NOT (push_bit 1 ?w) else push_bit 1 ?w"
  have "unat ?ux < 2 ^ 64" using unsigned_less [of ?ux] by simp
  then have ux: "Uvarint 0 0 (PutVarint x @ rest) = ?ux" 
    unfolding PutVarint_def Let_def using Uvarint_Put [of ?ux 0 0 rest] by (simp only: mult_0_right push_bit_of_0 push_bit_0_id id_apply or.left_neutral diff_zero)
  have neg: "bit ?w 63 \<longleftrightarrow> x < 0" using x bit_last_iff [of ?w] by simp
  show ?thesis
  proof (cases "x < 0")
    case True
    have "bit (NOT (drop_bit 1 (NOT (push_bit 1 ?w)))) n = bit ?w n" if "n < 64" for n
      using that neg True by (cases "n = 63") (simp_all add: bit_not_iff bit_drop_bit_eq bit_push_bit_iff del: push_bit_Suc push_bit_of_Suc_0 One_nat_def)
    then have "NOT (drop_bit 1 (NOT (push_bit 1 ?w))) = ?w" by (intro bit_word_eqI) simp
    then show ?thesis using True x by (simp add: Varint_def ux Let_def bit_simps bit_0)
  next
    case False
    have "bit (drop_bit 1 (push_bit 1 ?w)) n = bit ?w n" if "n < 64" for n
      using that neg False by (cases "n = 63") (simp_all add: bit_not_iff bit_drop_bit_eq bit_push_bit_iff del: push_bit_Suc push_bit_of_Suc_0 One_nat_def)
    then have "drop_bit 1 (push_bit 1 ?w) = ?w" by (intro bit_word_eqI) simp
    then show ?thesis using False x by (simp add: Varint_def ux Let_def bit_simps bit_0)
  qed
qed

end
