(* ===== verification/Conversation.thy ===== *)
theory Conversation
  imports EntryAPI Onionbox PKI Laplace Sha256 Varint
begin

text \<open>
  One conversation of a client (\<^verbatim>\<open>vuvuzela-client/conversation.go\<close>): messages and their encoding, the request
  of a round, and what becomes of the response.  The clock is an argument \<open>now\<close>, in nanoseconds since the
  zero time of \<^verbatim>\<open>time.Time\<close>.  What is printed in the window is returned as a line.
\<close>

section \<open>Times\<close>

definition nanos :: int where
  "nanos = 10 ^ 9"

text \<open>Seconds from the zero time to 1970; the sums are those of 64-bit integers.\<close>

definition unixToInternal :: int where
  "unixToInternal = 62135596800"

definition Unix :: "int \<Rightarrow> int" where
  "Unix t = wrap_int (t div nanos - unixToInternal)"

definition time_Unix :: "int \<Rightarrow> int" where
  "time_Unix sec = wrap_int (sec + unixToInternal) * nanos"

text \<open>\<^verbatim>\<open>Sub\<close> gives the nearest duration when the difference is none.\<close>

definition time_Sub :: "int \<Rightarrow> int \<Rightarrow> int" where
  "time_Sub t u = max (- (2 ^ 63)) (min (2 ^ 63 - 1) (t - u))"

section \<open>Messages\<close>

datatype ConvoMessage =
    TimestampMessage int
  | TextMessage bytes

fun ConvoMessage_Marshal :: "ConvoMessage \<Rightarrow> bytes" where
  "ConvoMessage_Marshal (TimestampMessage t) = copy_into (replicate SizeMessage 0) (0 # PutVarint (Unix t))"
| "ConvoMessage_Marshal (TextMessage m) = copy_into (replicate SizeMessage 0) (1 # m)"

fun ConvoMessage_Unmarshal :: "bytes \<Rightarrow> (gerr + ConvoMessage) outcome" where
  "ConvoMessage_Unmarshal [] = Panic"
| "ConvoMessage_Unmarshal (t # rest) =
     (if t = 0 then Ret (Inr (TimestampMessage (time_Unix (Varint rest))))
      else if t = 1 then Ret (Inr (TextMessage rest))
      else Ret (Inl (UnexpectedMessageType t)))"

section \<open>The conversation\<close>

record pendingRound =
  onionSharedKeys :: "bytes list"
  sentMessage :: bytes

record Conversation =
  co_pki :: PKI
  peerName :: string
  peerPublicKey :: bytes
  myPublicKey :: bytes
  myPrivateKey :: bytes
  outQueue :: "bytes list"
  pendingRounds :: "u32 \<rightharpoonup> pendingRound"
  lastPeerResponding :: bool
  lastLatency :: int
  lastRound :: u32

definition Conversation_Init :: "Conversation \<Rightarrow> Conversation" where
  "Conversation_Init c = c\<lparr>outQueue := [], pendingRounds := Map.empty, lastPeerResponding := False\<rparr>"

text \<open>The queue is a channel with room for 64 messages; a send to a full one waits.\<close>

definition QueueTextMessage :: "bytes \<Rightarrow> Conversation \<Rightarrow> Conversation outcome" where
  "QueueTextMessage m c = (if length (outQueue c) < 64 then Ret (c\<lparr>outQueue := outQueue c @ [m]\<rparr>) else Hang)"

fun bytes_Compare :: "bytes \<Rightarrow> bytes \<Rightarrow> int" where
  "bytes_Compare [] [] = 0"
| "bytes_Compare [] (y # ys) = -1"
| "bytes_Compare (x # xs) [] = 1"
| "bytes_Compare (x # xs) (y # ys) = (if x < y then -1 else if y < x then 1 else bytes_Compare xs ys)"

definition Solo :: "Conversation \<Rightarrow> bool" where
  "Solo c \<longleftrightarrow> bytes_Compare (myPublicKey c) (peerPublicKey c) = 0"

definition myRole :: "Conversation \<Rightarrow> byte" where
  "myRole c = (if bytes_Compare (myPublicKey c) (peerPublicKey c) < 0 then 0 else 1)"

definition theirRole :: "Conversation \<Rightarrow> byte" where
  "theirRole c = (if bytes_Compare (peerPublicKey c) (myPublicKey c) < 0 then 0 else 1)"

definition role_nonce :: "u32 \<Rightarrow> byte \<Rightarrow> bytes" where
  "role_nonce rd role = (copy_into (replicate 24 0) (PutUint32 rd))[23 := role]"

definition Conversation_Seal :: "nacl \<Rightarrow> Conversation \<Rightarrow> bytes \<Rightarrow> u32 \<Rightarrow> byte \<Rightarrow> bytes" where
  "Conversation_Seal N c message rd role = box_Seal N message (role_nonce rd role) (peerPublicKey c) (myPrivateKey c)"

definition Conversation_Open :: "nacl \<Rightarrow> Conversation \<Rightarrow> bytes \<Rightarrow> u32 \<Rightarrow> byte \<Rightarrow> bytes option" where
  "Conversation_Open N c ctxt rd role = box_Open N ctxt (role_nonce rd role) (peerPublicKey c) (myPrivateKey c)"

definition deadDrop :: "nacl \<Rightarrow> Conversation \<Rightarrow> u32 \<Rightarrow> rng \<Rightarrow> bytes \<times> rng" where
  "deadDrop N c rd r =
     (if Solo c then rread 16 r
      else (copy_into (replicate 16 0) (hmac_sha256 (box_Precompute N (peerPublicKey c) (myPrivateKey c)) (PutUint32 rd)), r))"

definition next_body :: "int \<Rightarrow> Conversation \<Rightarrow> ConvoMessage \<times> Conversation" where
  "next_body now c =
     (case outQueue c of
        m # queue \<Rightarrow> (TextMessage m, c\<lparr>outQueue := queue\<rparr>)
      | [] \<Rightarrow> (TimestampMessage now, c))"

definition NextConvoRequest :: "nacl \<Rightarrow> int \<Rightarrow> u32 \<Rightarrow> Conversation \<Rightarrow> rng \<Rightarrow> ((msg \<times> Conversation) \<times> rng) outcome" where
  "NextConvoRequest N now rd c r =
     (let (body, c) = next_body now (c\<lparr>lastRound := rd\<rparr>);
          encmsg = copy_into (replicate (SizeEncryptedMessage N) 0) (Conversation_Seal N c (ConvoMessage_Marshal body) rd (myRole c));
          (drop, r) = deadDrop N c rd r;
          exchange = \<lparr>DeadDrop = drop, EncryptedMessage = encmsg\<rparr>
      in obind (ServerKeys (co_pki c)) (\<lambda>keys.
         obind (Onion_Seal N (ConvoExchange_Marshal exchange) (ForwardNonce rd) keys r) (\<lambda>((onion, sharedKeys), r).
           Ret ((ConvoRequest rd onion,
             c\<lparr>pendingRounds := (pendingRounds c)(rd \<mapsto> \<lparr>onionSharedKeys = sharedKeys, sentMessage = encmsg\<rparr>)\<rparr>), r))))"

definition trim_nul :: "string \<Rightarrow> string" where
  "trim_nul s = rev (dropWhile (\<lambda>c. c = CHR 0x00) (rev s))"

definition string_of :: "bytes \<Rightarrow> string" where
  "string_of b = map (\<lambda>x. char_of (unat x)) b"

text \<open>The end of \<^verbatim>\<open>HandleConvoResponse\<close>, with the message the peer sent.\<close>

fun receive_message :: "int \<Rightarrow> gerr + ConvoMessage \<Rightarrow> Conversation \<Rightarrow> string option \<times> Conversation" where
  "receive_message now (Inl _) c = (None, c\<lparr>lastPeerResponding := False\<rparr>)"
| "receive_message now (Inr (TextMessage m)) c =
     (Some (''<'' @ peerName c @ ''> '' @ trim_nul (string_of m) @ [CHR 0x0A]), c\<lparr>lastPeerResponding := True\<rparr>)"
| "receive_message now (Inr (TimestampMessage t)) c = (None, c\<lparr>lastLatency := time_Sub now t, lastPeerResponding := True\<rparr>)"

definition HandleConvoResponse :: "nacl \<Rightarrow> int \<Rightarrow> u32 \<Rightarrow> bytes \<Rightarrow> Conversation \<Rightarrow> (string option \<times> Conversation) outcome" where
  "HandleConvoResponse N now rd onion c =
     (let pr = pendingRounds c rd;
          c = c\<lparr>pendingRounds := (pendingRounds c)(rd := None)\<rparr>;
          quiet = Ret (None, c\<lparr>lastPeerResponding := False\<rparr>)
      in case pr of
           None \<Rightarrow> quiet
         | Some pr \<Rightarrow>
             (case Onion_Open N onion (BackwardNonce rd) (onionSharedKeys pr) of
                None \<Rightarrow> quiet
              | Some encmsg \<Rightarrow>
                  if bytes_Compare encmsg (sentMessage pr) = 0 \<and> \<not> Solo c then quiet
                  else (case Conversation_Open N c encmsg rd (theirRole c) of
                    None \<Rightarrow> quiet
                  | Some msgdata \<Rightarrow> obind (ConvoMessage_Unmarshal msgdata) (\<lambda>res. Ret (receive_message now res c)))))"


record Status =
  PeerResponding :: bool
  st_Round :: u32
  st_Latency :: real

definition Conversation_Status :: "float64 \<Rightarrow> Conversation \<Rightarrow> Status" where
  "Conversation_Status F c =
     \<lparr>PeerResponding = lastPeerResponding c, st_Round = lastRound c,
      st_Latency = fl F (fl F (of_int (lastLatency c)) / fl F (of_int nanos))\<rparr>"

section \<open>Encoding of messages\<close>

lemma length_Marshal [simp]: "length (ConvoMessage_Marshal m) = SizeMessage"
  by (cases m) simp_all

lemma Marshal_text:
  "ConvoMessage_Marshal (TextMessage m) = 1 # take 239 m @ replicate (239 - length m) 0"
  by (simp add: copy_into_def SizeMessage_def drop_Cons' flip: numeral_eq_Suc)

lemma Unmarshal_text:
  "ConvoMessage_Unmarshal (ConvoMessage_Marshal (TextMessage m)) = Ret (Inr (TextMessage (take 239 m @ replicate (239 - length m) 0)))"
  unfolding Marshal_text by simp

lemma Unmarshal_timestamp:
  "ConvoMessage_Unmarshal (ConvoMessage_Marshal (TimestampMessage t)) = Ret (Inr (TimestampMessage (time_Unix (Unix t))))"
proof -
  have range: "- (2 ^ 63) \<le> Unix t" "Unix t < 2 ^ 63" by (simp_all add: Unix_def wrap_int_def)
  have "length (PutVarint (Unix t)) \<le> 239" using length_PutVarint [of "Unix t"] by simp
  then have "ConvoMessage_Marshal (TimestampMessage t) = 0 # PutVarint (Unix t) @ replicate (239 - length (PutVarint (Unix t))) 0"
    by (simp add: copy_into_def SizeMessage_def drop_Cons')
  then show ?thesis by (simp add: Varint_Put [OF range])
qed

text \<open>A message that does not end in a zero byte is what remains of the padded one.\<close>

lemma trim_padded:
  assumes "m = [] \<or> last m \<noteq> 0"
  shows "trim_nul (string_of (m @ replicate k 0)) = string_of m"
proof -
  have "char_of (unat x) = CHR 0x00 \<longleftrightarrow> x = 0" for x :: byte
  proof -
    have "unat x < 256" using unsigned_less [of x] by simp
    then have x: "of_char (char_of (unat x)) = unat x" by simp
    have zero: "of_char (CHR 0x00) = (0 :: nat)" "char_of (0 :: nat) = CHR 0x00" by (simp_all add: char_of_def)
    then show ?thesis by (metis x unat_eq_zero)
  qed
  moreover have "char_of (0 :: nat) = CHR 0x00" by (simp add: char_of_def)
  ultimately show ?thesis
    using assms by (cases m rule: rev_cases) (simp_all add: trim_nul_def string_of_def dropWhile_append)
qed


section \<open>Two ends of a conversation\<close>

lemma bytes_Compare_eq: "bytes_Compare a b = 0 \<longleftrightarrow> a = b"
  by (induction a b rule: bytes_Compare.induct) auto

lemma bytes_Compare_flip: "bytes_Compare a b < 0 \<longleftrightarrow> 0 < bytes_Compare b a"
  by (induction a b rule: bytes_Compare.induct) auto

text \<open>\<open>paired N a b\<close>: the peer of each is the other, and the keys are key pairs.\<close>

definition paired :: "nacl \<Rightarrow> Conversation \<Rightarrow> Conversation \<Rightarrow> bool" where
  "paired N a b \<longleftrightarrow> peerPublicKey a = myPublicKey b \<and> peerPublicKey b = myPublicKey a
     \<and> myPublicKey a = box_PublicOf N (myPrivateKey a) \<and> myPublicKey b = box_PublicOf N (myPrivateKey b)"

lemma paired_roles:
  assumes "paired N a b"
  shows "myRole a = theirRole b" "Solo a \<longleftrightarrow> Solo b" "\<not> Solo a \<Longrightarrow> myRole a \<noteq> theirRole a"
    and "\<not> Solo a \<Longrightarrow> role_nonce rd (myRole a) \<noteq> role_nonce rd (theirRole a)"
proof -
  show "myRole a = theirRole b" "Solo a \<longleftrightarrow> Solo b"
    using assms by (auto simp: paired_def myRole_def theirRole_def Solo_def bytes_Compare_eq)
  show roles: "myRole a \<noteq> theirRole a" if "\<not> Solo a"
    using that bytes_Compare_flip [of "myPublicKey a" "peerPublicKey a"] bytes_Compare_eq by (auto simp: myRole_def theirRole_def Solo_def)
  have "role_nonce rd role ! 23 = role" for role by (simp add: role_nonce_def)
  then show "role_nonce rd (myRole a) \<noteq> role_nonce rd (theirRole a)" if "\<not> Solo a" using roles [OF that] by metis
qed

lemma role_nonce_inj: "role_nonce rd role = role_nonce rd' role' \<longleftrightarrow> rd = rd' \<and> role = role'"
proof -
  have nonce: "role_nonce n x = PutUint32 n @ replicate 19 0 @ [x]" for n x
    by (simp add: role_nonce_def copy_into_def list_update_append numeral_eq_Suc)
  show ?thesis by (auto simp: nonce)
qed

lemma paired_open:
  assumes "nacl_ok N" "paired N a b"
  shows "Conversation_Open N b (Conversation_Seal N a m rd (myRole a)) rd (theirRole b) = Some m"
  using assms nacl_agree [OF assms(1), of "myPrivateKey a" "myPrivateKey b"] paired_roles(1) [OF assms(2)]
  by (simp add: Conversation_Open_def Conversation_Seal_def nacl_seal nacl_open nacl_open_seal paired_def)

lemma paired_drop:
  assumes "nacl_ok N" "paired N a b" "\<not> Solo a"
  shows "fst (deadDrop N a rd r) = fst (deadDrop N b rd r')"
  using assms nacl_agree [OF assms(1), of "myPrivateKey a" "myPrivateKey b"] paired_roles(2) [OF assms(2)]
  by (simp add: deadDrop_def paired_def)

end
