(* ===== verification/Talk.thy ===== *)
theory Talk
  imports Conversation EntryReplies EndToEnd
begin

text \<open>
  Conversations over the whole system: what a client types is put into an onion, goes through the entry
  server and the chain of mix servers, and appears in the window of the other client.
\<close>

section \<open>The request of a round\<close>

lemma next_body_keys:
  assumes "next_body now c = (body, c')"
  shows "c' = c\<lparr>outQueue := tl (outQueue c)\<rparr>" "outQueue c = m # queue \<Longrightarrow> body = TextMessage m"
    "outQueue c = [] \<Longrightarrow> body = TimestampMessage now"
proof -
  have "outQueue c = [] \<Longrightarrow> c = c\<lparr>outQueue := []\<rparr>" by simp
  with assms show "c' = c\<lparr>outQueue := tl (outQueue c)\<rparr>" by (auto simp: next_body_def split: list.splits)
  show "body = TextMessage m" if "outQueue c = m # queue" using that assms by (simp add: next_body_def)
  show "body = TimestampMessage now" if "outQueue c = []" using that assms by (simp add: next_body_def)
qed

lemma deadDrop_length: "length (fst (deadDrop N c rd r)) = 16"
  by (simp add: deadDrop_def)

lemma deadDrop_same:
  "Conversation.peerPublicKey c' = peerPublicKey c \<Longrightarrow> myPublicKey c' = myPublicKey c \<Longrightarrow> myPrivateKey c' = myPrivateKey c \<Longrightarrow>
   deadDrop N c' rd r = deadDrop N c rd r"
  by (simp add: deadDrop_def Solo_def)

text \<open>What a client seals: an exchange at the dead drop of the round, with its message for the peer.\<close>

lemma NextConvoRequest_sealed:
  assumes "nacl_ok N" "ServerKeys (co_pki c) = Ret (public_keys N sks)"
    and "NextConvoRequest N now rd c r = Ret ((ConvoRequest rd' onion, c'), r')"
  obtains body ks encmsg where "sealed_for N rd sks \<lparr>DeadDrop = fst (deadDrop N c rd r), EncryptedMessage = encmsg\<rparr> onion ks"
    and "encmsg = Conversation_Seal N c (ConvoMessage_Marshal body) rd (myRole c)"
    and "c' = c\<lparr>lastRound := rd, outQueue := tl (outQueue c),
        pendingRounds := (pendingRounds c)(rd \<mapsto> \<lparr>onionSharedKeys = ks, sentMessage = encmsg\<rparr>)\<rparr>"
    and "\<forall>m queue. outQueue c = m # queue \<longrightarrow> body = TextMessage m" "outQueue c = [] \<longrightarrow> body = TimestampMessage now" "rd' = rd"
proof -
  obtain body c1 where body: "next_body now (c\<lparr>lastRound := rd\<rparr>) = (body, c1)" by fastforce
  note c1 = next_body_keys(1) [OF body]
  let ?enc = "Conversation_Seal N c (ConvoMessage_Marshal body) rd (myRole c)"
  have "length ?enc = SizeEncryptedMessage N"
    using assms(1) by (simp add: Conversation_Seal_def nacl_seal nacl_seal_length SizeEncryptedMessage_def nacl_overhead)
  moreover have "Conversation_Seal N c1 (ConvoMessage_Marshal body) rd (myRole c1) = ?enc"
    by (simp add: c1 Conversation_Seal_def myRole_def)
  ultimately have enc: "copy_into (replicate (SizeEncryptedMessage N) 0) (Conversation_Seal N c1 (ConvoMessage_Marshal body) rd (myRole c1)) = ?enc"
    by simp
  obtain d r1 where d: "deadDrop N c1 rd r = (d, r1)" by fastforce
  have "deadDrop N c1 rd r = deadDrop N c rd r" by (rule deadDrop_same) (simp_all add: c1)
  with d have drop: "fst (deadDrop N c rd r) = d" by simp
  let ?ex = "\<lparr>DeadDrop = d, EncryptedMessage = ?enc\<rparr>"
  have keys: "ServerKeys (co_pki c1) = Ret (public_keys N sks)" using assms(2) by (simp add: c1)
  from assms(3) obtain ks where seal: "Onion_Seal N (ConvoExchange_Marshal ?ex) (ForwardNonce rd) (public_keys N sks) r1 = Ret ((onion, ks), r')"
    and c': "c' = c1\<lparr>pendingRounds := (pendingRounds c1)(rd \<mapsto> \<lparr>onionSharedKeys = ks, sentMessage = ?enc\<rparr>)\<rparr>" "rd' = rd"
    by (auto simp: NextConvoRequest_def body enc d Let_def outcome_simps keys)
  have "wf_ConvoExchange N ?ex" using deadDrop_length [of N c rd r] \<open>length ?enc = _\<close> by (simp add: wf_ConvoExchange_def drop)
  then have "sealed_for N rd sks ?ex onion ks" using seal unfolding sealed_for_def by blast
  then show ?thesis using that [of ?enc ks body] c' next_body_keys(2,3) [OF body] by (simp add: drop c1)
qed

text \<open>A client always has a request, given a directory with keys.\<close>

lemma NextConvoRequest_total:
  assumes "nacl_ok N" "ServerKeys (co_pki c) = Ret keys" "None \<notin> set keys"
  shows "\<exists>onion c' r'. NextConvoRequest N now rd c r = Ret ((ConvoRequest rd onion, c'), r')"
proof -
  obtain body c1 where body: "next_body now (c\<lparr>lastRound := rd\<rparr>) = (body, c1)" by fastforce
  have keys: "ServerKeys (co_pki c1) = Ret keys" using assms(2) by (simp add: next_body_keys(1) [OF body])
  obtain d r1 where d: "deadDrop N c1 rd r = (d, r1)" by fastforce
  let ?ex = "\<lparr>DeadDrop = d, EncryptedMessage = copy_into (replicate (SizeEncryptedMessage N) 0)
    (Conversation_Seal N c1 (ConvoMessage_Marshal body) rd (myRole c1))\<rparr>"
  obtain onion ks r' where "Onion_Seal N (ConvoExchange_Marshal ?ex) (ForwardNonce rd) keys r1 = Ret ((onion, ks), r')"
    using Onion_Seal_total [OF assms(1,3)] by blast
  then show ?thesis by (simp add: NextConvoRequest_def body d keys Let_def)
qed

section \<open>The response\<close>

lemma HandleConvoResponse_text:
  assumes "nacl_ok N" "paired N b a" "\<not> Solo a" "pendingRounds a rd = Some pr"
    and "Onion_Open N onion (BackwardNonce rd) (onionSharedKeys pr) = Some (Conversation_Seal N b (ConvoMessage_Marshal (TextMessage m)) rd (myRole b))"
    and "Conversation_Seal N b (ConvoMessage_Marshal (TextMessage m)) rd (myRole b) \<noteq> sentMessage pr"
    and "length m \<le> 239" "m = [] \<or> last m \<noteq> 0"
  shows "HandleConvoResponse N now rd onion a
    = Ret (Some (''<'' @ peerName a @ ''> '' @ string_of m @ [CHR 0x0A]),
        a\<lparr>pendingRounds := (pendingRounds a)(rd := None), lastPeerResponding := True\<rparr>)"
proof -
  let ?a = "a\<lparr>pendingRounds := (pendingRounds a)(rd := None)\<rparr>"
  have "paired N b ?a" "Solo ?a = Solo a" using assms(2) by (simp_all add: paired_def Solo_def)
  note opens = paired_open [OF assms(1) this(1), of "ConvoMessage_Marshal (TextMessage m)" rd]
  have "trim_nul (string_of (take 239 m @ replicate (239 - length m) 0)) = string_of m"
    using trim_padded [OF assms(8)] assms(7) by simp
  then show ?thesis
    using assms(3,4,5,6) opens \<open>Solo ?a = Solo a\<close>
    by (simp add: HandleConvoResponse_def bytes_Compare_eq Unmarshal_text del: ConvoMessage_Marshal.simps)
qed


section \<open>Properties\<close>

text \<open>The reply at a writable connection, as the client reads it.\<close>

lemma reply_read:
  assumes "complete_order (length requests) (order (length requests))" "i < length requests" "writable W (cr_conn (requests ! i))"
    and "outbox s' (cr_conn (requests ! i)) = outbox s (cr_conn (requests ! i)) @
      map (\<lambda>k. enveloped (ConvoResponse Round (reps ! k))) (filter (\<lambda>k. cr_conn (requests ! k) = cr_conn (requests ! i)) (order (length requests)))"
  shows "\<exists>e \<in> set (outbox s' (cr_conn (requests ! i))). Envelope_Open N e = Inr (ConvoResponse Round (reps ! i))"
proof -
  have "i \<in> set (order (length requests))" using assms(1,2) by (simp add: complete_order_def)
  then have "enveloped (ConvoResponse Round (reps ! i)) \<in> set (outbox s' (cr_conn (requests ! i)))" using assms(4) by auto
  moreover have "Envelope_Open N (enveloped (ConvoResponse Round (reps ! i))) = Inr (ConvoResponse Round (reps ! i))"
    by (simp add: Open_enveloped)
  ultimately show ?thesis by blast
qed



text \<open>
  C36: messages.  A line of at most 239 bytes that does not end in a zero byte is printed by the peer as it
  was typed; of a longer one the first 239 bytes arrive.  A timestamp arrives rounded down to the second.  Every
  message has the same size, whatever it says.
  Any other first byte is an error, and an empty message panics.
\<close>

theorem message_round_trip:
  "(length m \<le> 239 \<and> (m = [] \<or> last m \<noteq> 0) \<longrightarrow>
      (\<exists>m'. ConvoMessage_Unmarshal (ConvoMessage_Marshal (TextMessage m)) = Ret (Inr (TextMessage m')) \<and> trim_nul (string_of m') = string_of m))
    \<and> (239 < length m \<longrightarrow> ConvoMessage_Unmarshal (ConvoMessage_Marshal (TextMessage m)) = Ret (Inr (TextMessage (take 239 m))))
    \<and> (0 \<le> t \<and> t < 2 ^ 63 * nanos \<longrightarrow>
      ConvoMessage_Unmarshal (ConvoMessage_Marshal (TimestampMessage t)) = Ret (Inr (TimestampMessage (t - t mod nanos))))
    \<and> (b \<noteq> 0 \<and> b \<noteq> 1 \<longrightarrow> ConvoMessage_Unmarshal (b # rest) = Ret (Inl (UnexpectedMessageType b)))
    \<and> ConvoMessage_Unmarshal [] = Panic
    \<and> length (ConvoMessage_Marshal msg) = SizeMessage"
proof (intro conjI impI)
  assume "length m \<le> 239 \<and> (m = [] \<or> last m \<noteq> 0)"
  then show "\<exists>m'. ConvoMessage_Unmarshal (ConvoMessage_Marshal (TextMessage m)) = Ret (Inr (TextMessage m')) \<and> trim_nul (string_of m') = string_of m"
    unfolding Unmarshal_text using trim_padded [of m] by simp
next
  assume "239 < length m"
  then show "ConvoMessage_Unmarshal (ConvoMessage_Marshal (TextMessage m)) = Ret (Inr (TextMessage (take 239 m)))"
    unfolding Unmarshal_text by simp
next
  assume t: "0 \<le> t \<and> t < 2 ^ 63 * nanos"
  then have "0 \<le> t div nanos" "t div nanos < 2 ^ 63" unfolding nanos_def by (simp_all, linarith+)
  then have "time_Unix (Unix t) = t div nanos * nanos" by (simp add: time_Unix_def Unix_def wrap_int_id unixToInternal_def)
  then show "ConvoMessage_Unmarshal (ConvoMessage_Marshal (TimestampMessage t)) = Ret (Inr (TimestampMessage (t - t mod nanos)))"
    unfolding Unmarshal_timestamp by (simp add: minus_mod_eq_div_mult)
qed simp_all

text \<open>
  C15: the two ends of a conversation agree, unless a client talks to itself.  They compute the same dead drop in
  every round without talking to each other, what one seals the other opens, and the nonces of the two directions
  of a round are different; a nonce determines its round and its direction, so that it comes again only when the
  number of a round does.
\<close>

theorem peers_agree:
  assumes "nacl_ok N" "paired N a b" "\<not> Solo a"
  shows "fst (deadDrop N a rd r) = fst (deadDrop N b rd r')
    \<and> Conversation_Open N b (Conversation_Seal N a m rd (myRole a)) rd (theirRole b) = Some m
    \<and> Conversation_Open N a (Conversation_Seal N b m rd (myRole b)) rd (theirRole a) = Some m
    \<and> role_nonce rd (myRole a) \<noteq> role_nonce rd (myRole b)
    \<and> (\<forall>rd' role role'. role_nonce rd role = role_nonce rd' role' \<longleftrightarrow> rd = rd' \<and> role = role')"
proof -
  have "paired N b a" using assms(2) by (auto simp: paired_def)
  with paired_drop [OF assms] paired_open [OF assms(1,2)] paired_open [OF assms(1), of b a] paired_roles [OF assms(2)] paired_roles(1) [of N b a] assms(3)
  show ?thesis by (simp add: role_nonce_inj)
qed

section \<open>Witnesses\<close>

text \<open>Two clients of a chain of one server; the second has a line of the greatest length to send.\<close>

definition alice :: Conversation where
  "alice = \<lparr>co_pki = srv_PKI sample_service, peerName = ''bob'', peerPublicKey = replicate 32 3, myPublicKey = replicate 32 2,
     myPrivateKey = replicate 32 2, outQueue = [], pendingRounds = Map.empty, lastPeerResponding = False, lastLatency = 0, lastRound = 0\<rparr>"

definition bob :: Conversation where
  "bob = \<lparr>co_pki = srv_PKI sample_service, peerName = ''alice'', peerPublicKey = replicate 32 2, myPublicKey = replicate 32 3,
     myPrivateKey = replicate 32 3, outQueue = [replicate 239 5], pendingRounds = Map.empty, lastPeerResponding = False, lastLatency = 0, lastRound = 0\<rparr>"

lemma sample_keys: "ServerKeys (srv_PKI sample_service) = Ret (public_keys clear_box (map PrivateKey [sample_service]))"
  by (simp add: ServerKeys_def sample_service_def server_info_def deref_def clear_box_def)

lemma alice_bob: "paired clear_box alice bob" "\<not> Solo alice" "co_pki alice = srv_PKI sample_service" "co_pki bob = srv_PKI sample_service"
  "outQueue bob = [replicate 239 5]" "outQueue alice = []"
  by (simp_all add: alice_def bob_def paired_def Solo_def bytes_Compare_eq clear_box_def)

lemma clear_seal_end:
  "length m = 240 \<Longrightarrow> drop 248 (Conversation_Seal clear_box c m rd role) = drop 232 m \<and> length (Conversation_Seal clear_box c m rd role) = 256"
  by (simp add: Conversation_Seal_def clear_box_def length_clear_tag)

lemma text_end: "drop 232 (ConvoMessage_Marshal (TextMessage (replicate 239 5))) = replicate 8 5"
  unfolding Marshal_text by simp

lemma timestamp_end: "drop 232 (ConvoMessage_Marshal (TimestampMessage t)) = replicate 8 0"
  using length_PutVarint [of "Unix t"] by (simp add: copy_into_def SizeMessage_def)

lemma exchange_key:
  "length d = 16 \<Longrightarrow> length e = 256 \<Longrightarrow> msgkey (ConvoExchange_Marshal \<lparr>DeadDrop = d, EncryptedMessage = e\<rparr>) = Uint64 (drop 248 e)"
  by (simp add: msgkey_def ConvoExchange_Marshal_def)


lemma two_undisturbed:
  assumes "nacl_ok N" "sealed_for N rd [sk] ex0 o0 k0" "sealed_for N rd [sk] ex1 o1 k1"
    and "msgkey (ConvoExchange_Marshal ex0) \<noteq> msgkey (ConvoExchange_Marshal ex1)" "mix_round N rd [sk] [o0, o1] reps batches exs"
  shows "undisturbed N rd [sk] batches o0" "undisturbed N rd [sk] batches o1" "length exs \<le> 2"
proof -
  note opens = single_server_opens [OF assms(1,2)] single_server_opens [OF assms(1,3)]
  have "batches = [[Some (ConvoExchange_Marshal ex0), Some (ConvoExchange_Marshal ex1)]]" "length exs \<le> 2"
    using single_server_batches [OF assms(5)] opens by (simp_all add: opened_def)
  then show "undisturbed N rd [sk] batches o0" "undisturbed N rd [sk] batches o1" "length exs \<le> 2"
    using opens assms(4) by (simp_all add: undisturbed_def way_convo lone_def del: way.simps(2))
qed


theorem message_round_trip_witness:
  "(\<exists>m'. ConvoMessage_Unmarshal (ConvoMessage_Marshal (TextMessage [104, 105])) = Ret (Inr (TextMessage m')) \<and> trim_nul (string_of m') = ''hi'')
    \<and> ConvoMessage_Unmarshal (ConvoMessage_Marshal (TimestampMessage 1500000000)) = Ret (Inr (TimestampMessage 1000000000))
    \<and> length (ConvoMessage_Marshal (TextMessage [104, 105])) = 240"
proof -
  have "string_of [104, 105] = ''hi''" by code_simp
  then show ?thesis
    using message_round_trip [of "[104, 105]" 1500000000 2 "[]" "TextMessage [104, 105]"] by (simp add: nanos_def SizeMessage_def del: ConvoMessage_Marshal.simps)
qed

theorem peers_agree_witness:
  "fst (deadDrop clear_box alice 7 (\<lambda>_. 0)) = fst (deadDrop clear_box bob 7 (\<lambda>_. 1))
    \<and> Conversation_Open clear_box bob (Conversation_Seal clear_box alice [1] 7 (myRole alice)) 7 (theirRole bob) = Some [1]
    \<and> role_nonce 7 (myRole alice) \<noteq> role_nonce 8 (myRole alice)"
proof -
  have "(7 :: u32) \<noteq> 8" by simp
  with peers_agree [OF clear_box_ok alice_bob(1,2)] show ?thesis by blast
qed

end
