(* ===== verification/Dialer.thy ===== *)
theory Dialer
  imports EntryAPI Onionbox PKI
begin

text \<open>
  The dialing side of a client (\<^verbatim>\<open>vuvuzela-client/dialer.go\<close>).  The order in which Go ranges over the people of
  the directory is the argument \<open>names\<close>; the lines printed in the window are returned.
\<close>

record Dialer =
  di_pki :: PKI
  di_myPublicKey :: bytes
  di_myPrivateKey :: bytes
  userDialRequests :: "bytes list"

definition Dialer_Init :: "Dialer \<Rightarrow> Dialer" where
  "Dialer_Init d = d\<lparr>userDialRequests := []\<rparr>"

text \<open>A channel with room for four keys; a send to a full one waits.\<close>

definition QueueRequest :: "bytes \<Rightarrow> Dialer \<Rightarrow> Dialer outcome" where
  "QueueRequest pk d = (if length (userDialRequests d) < 4 then Ret (d\<lparr>userDialRequests := userDialRequests d @ [pk]\<rparr>) else Hang)"

definition next_exchange :: "nacl \<Rightarrow> u32 \<Rightarrow> u32 \<Rightarrow> Dialer \<Rightarrow> rng \<Rightarrow> ((DialExchange \<times> Dialer) \<times> rng) outcome" where
  "next_exchange N Round buckets d r =
     (case userDialRequests d of
        pk # queue \<Rightarrow>
          (let intro = Introduction_Marshal \<lparr>Rendezvous = Round + 4, LongTermKey = di_myPublicKey d\<rparr>
           in obind (Onion_Seal N intro (ForwardNonce Round) [Some pk] r) (\<lambda>((ctxt, _), r).
              obind (KeyDialBucket pk buckets) (\<lambda>bucket.
                Ret ((\<lparr>Bucket = bucket, EncryptedIntro = copy_into (replicate (SizeEncryptedIntro N) 0) ctxt\<rparr>,
                  d\<lparr>userDialRequests := queue\<rparr>), r))))
      | [] \<Rightarrow> (let (b, r) = rread (SizeEncryptedIntro N) r in Ret ((\<lparr>Bucket = - 1, EncryptedIntro = b\<rparr>, d), r)))"

definition NextDialRequest :: "nacl \<Rightarrow> u32 \<Rightarrow> u32 \<Rightarrow> Dialer \<Rightarrow> rng \<Rightarrow> ((msg \<times> Dialer) \<times> rng) outcome" where
  "NextDialRequest N Round buckets d r =
     obind (next_exchange N Round buckets d r) (\<lambda>((ex, d), r).
     obind (ServerKeys (di_pki d)) (\<lambda>keys.
     obind (Onion_Seal N (DialExchange_Marshal ex) (ForwardNonce Round) keys r) (\<lambda>((onion, _), r).
       Ret ((DialRequest Round onion, d), r))))"

definition Warnf :: "string \<Rightarrow> string" where
  "Warnf text = ''-!- '' @ text"

definition introduction_line :: "base32 \<Rightarrow> string list \<Rightarrow> Dialer \<Rightarrow> bytes \<Rightarrow> string" where
  "introduction_line B names d key =
     Warnf (''Received introduction: '' @
       (case find (\<lambda>name. People (di_pki d) name = Some key) names of
          Some name \<Rightarrow> name
        | None \<Rightarrow> ''('' @ BoxKey_String B key @ '')'') @ [CHR 0x0A])"

text \<open>One turn of the loop over the introductions: what it prints.\<close>

definition open_introduction :: "nacl \<Rightarrow> base32 \<Rightarrow> string list \<Rightarrow> u32 \<Rightarrow> Dialer \<Rightarrow> bytes \<Rightarrow> string option" where
  "open_introduction N B names Round d b =
     (case box_Open N (drop 32 b) (ForwardNonce Round) (take 32 b) (di_myPrivateKey d) of
        None \<Rightarrow> None
      | Some data \<Rightarrow>
          (case Introduction_Unmarshal data of
             Inl _ \<Rightarrow> None
           | Inr intro \<Rightarrow> Some (introduction_line B names d (LongTermKey intro))))"

definition HandleDialBucket :: "nacl \<Rightarrow> base32 \<Rightarrow> string list \<Rightarrow> u32 \<Rightarrow> bytes list \<Rightarrow> Dialer \<Rightarrow> string list" where
  "HandleDialBucket N B names Round intros d = List.map_filter (open_introduction N B names Round d) intros"

section \<open>An introduction from one client to another\<close>

text \<open>The sealed introduction fills its field, and its addressee reads the sender's key in it.\<close>

lemma introduction_opens:
  assumes N: "nacl_ok N" and d: "length (di_myPublicKey d) = 32"
    and seal: "Onion_Seal N (Introduction_Marshal \<lparr>Rendezvous = Round + 4, LongTermKey = di_myPublicKey d\<rparr>) (ForwardNonce Round)
      [Some (box_PublicOf N sk)] r = Ret ((ctxt, ks), r')"
  shows "length ctxt = SizeEncryptedIntro N"
    and "di_myPrivateKey e = sk \<Longrightarrow> open_introduction N B names Round e ctxt = Some (introduction_line B names e (di_myPublicKey d))"
proof -
  let ?i = "\<lparr>Rendezvous = Round + 4, LongTermKey = di_myPublicKey d\<rparr>"
  obtain pk r1 where key: "box_GenerateKey N r = (Some (box_PublicOf N pk, pk), r1)" using nacl_keygen [OF N] by blast
  let ?k = "box_Precompute N (box_PublicOf N sk) pk"
  have ctxt: "ctxt = box_PublicOf N pk @ box_SealAfterPrecomputation N (Introduction_Marshal ?i) (ForwardNonce Round) ?k"
    using seal by (simp add: key deref_def Let_def)
  have size: "length (Introduction_Marshal ?i) = 36" using d by (simp add: Introduction_Marshal_def PutUint32_def)
  then show "length ctxt = SizeEncryptedIntro N" by (simp add: ctxt N len_simps wire_simps)
  have "Introduction_Unmarshal (Introduction_Marshal ?i) = Inr ?i"
    using d by (intro intro.dec_enc) (simp add: wf_Introduction_def)
  then show "open_introduction N B names Round e ctxt = Some (introduction_line B names e (di_myPublicKey d))" if "di_myPrivateKey e = sk"
    using that nacl_agree [OF N, of pk sk] by (simp add: open_introduction_def ctxt nacl_public_length [OF N] nacl_open [OF N] nacl_open_seal [OF N])
qed

end
