(* ===== verification/Introduce.thy ===== *)
theory Introduce
  imports Dialer EntryReplies
begin

text \<open>
  Dialing over the whole system: the introduction that one client asks for goes through the entry server and the
  mix servers into a bucket, and is announced in the window of the client it is addressed to.
\<close>

lemma next_exchange_intro:
  assumes N: "nacl_ok N" and queue: "userDialRequests d = box_PublicOf N sk # queue" and d: "length (di_myPublicKey d) = 32"
    and ex: "next_exchange N Round buckets d r = Ret ((ex, d'), r')"
  shows "wf_DialExchange N ex" "KeyDialBucket (box_PublicOf N sk) buckets = Ret (Bucket ex)" "di_pki d' = di_pki d"
    and "di_myPrivateKey e = sk \<Longrightarrow> open_introduction N B names Round e (EncryptedIntro ex) = Some (introduction_line B names e (di_myPublicKey d))"
proof -
  let ?i = "Introduction_Marshal \<lparr>Rendezvous = Round + 4, LongTermKey = di_myPublicKey d\<rparr>"
  obtain ctxt ks r1 where seal: "Onion_Seal N ?i (ForwardNonce Round) [Some (box_PublicOf N sk)] r = Ret ((ctxt, ks), r1)"
    and bucket: "KeyDialBucket (box_PublicOf N sk) buckets = Ret (Bucket ex)"
    and intro: "EncryptedIntro ex = copy_into (replicate (SizeEncryptedIntro N) 0) ctxt" "d' = d\<lparr>userDialRequests := queue\<rparr>"
    using ex by (auto simp: next_exchange_def queue outcome_simps simp del: Onion_Seal.simps)
  note opens = introduction_opens [OF N d seal]
  show "wf_DialExchange N ex" using opens(1) by (simp add: wf_DialExchange_def intro)
  show "KeyDialBucket (box_PublicOf N sk) buckets = Ret (Bucket ex)" "di_pki d' = di_pki d" by (simp_all add: bucket intro)
  show "open_introduction N B names Round e (EncryptedIntro ex) = Some (introduction_line B names e (di_myPublicKey d))" if "di_myPrivateKey e = sk"
    using opens that by (simp add: intro)
qed

lemma NextDialRequest_sealed:
  assumes "nacl_ok N" "userDialRequests d = box_PublicOf N sk # queue" "length (di_myPublicKey d) = 32"
    and "ServerKeys (di_pki d) = Ret (public_keys N sks)"
    and "NextDialRequest N Round buckets d r = Ret ((DialRequest Round' onion, d'), r')"
  obtains ex where "dial_sealed N Round sks ex onion" "KeyDialBucket (box_PublicOf N sk) buckets = Ret (Bucket ex)"
    and "\<And>B names e. di_myPrivateKey e = sk \<Longrightarrow>
      open_introduction N B names Round e (EncryptedIntro ex) = Some (introduction_line B names e (di_myPublicKey d))"
proof -
  obtain ex d1 r1 where ex: "next_exchange N Round buckets d r = Ret ((ex, d1), r1)"
    and rest: "obind (ServerKeys (di_pki d1)) (\<lambda>keys. obind (Onion_Seal N (DialExchange_Marshal ex) (ForwardNonce Round) keys r1)
      (\<lambda>((onion, _), r). Ret ((DialRequest Round onion, d1), r))) = Ret ((DialRequest Round' onion, d'), r')"
    using assms(5) by (auto simp: NextDialRequest_def outcome_simps)
  note props = next_exchange_intro [OF assms(1-3) ex]
  obtain ks where "Onion_Seal N (DialExchange_Marshal ex) (ForwardNonce Round) (public_keys N sks) r1 = Ret ((onion, ks), r')"
    using rest by (auto simp: props(3) assms(4) outcome_simps)
  then have "dial_sealed N Round sks ex onion" using props(1) unfolding dial_sealed_def by blast
  with props(2,4) that show ?thesis by blast
qed

lemma intros_for_length: "nacl_ok N \<Longrightarrow> x \<in> set (intros_for N b final) \<Longrightarrow> length x = SizeEncryptedIntro N"
  by (auto simp: intros_for_def List.map_filter_def exchange_in_def de.dec_Inr_iff wf_DialExchange_def split: if_splits sum.splits)

lemma bucket_of_key:
  assumes "KeyDialBucket pk (of_nat TotalDialBuckets) = Ret b"
  shows "unat b < TotalDialBuckets" "bucket_for buckets pk = buckets ! unat b"
  using assms by (auto simp: KeyDialBucket_def TotalDialBuckets_def bucket_for_def)


section \<open>Properties\<close>

text \<open>The bucket that a connection is sent, as the client reads it.\<close>

lemma bucket_read:
  assumes "complete_order (length reqs) (order (length reqs))" "j < length reqs" "writable W (dr_conn (reqs ! j))"
    and "publicKey s (dr_conn (reqs ! j)) = Some pk" "\<forall>x \<in> set (bucket_for buckets pk). length x = SizeEncryptedIntro N"
  shows "\<exists>e \<in> set (outbox (fold (\<lambda>i. Send W (map dr_conn reqs ! i) (DialBucket Round (bucket_for buckets (the (publicKey s (map dr_conn reqs ! i))))))
      (order (length reqs)) s) (dr_conn (reqs ! j))). Envelope_Open N e = Inr (DialBucket Round (bucket_for buckets pk))"
proof -
  let ?v = "\<lambda>i. DialBucket Round (bucket_for buckets (the (publicKey s (map dr_conn reqs ! i))))"
  have "j \<in> set (filter (\<lambda>i. map dr_conn reqs ! i = dr_conn (reqs ! j)) (order (length reqs)))"
    using assms(1,2) by (simp add: complete_order_def)
  then have "enveloped (?v j) \<in> set (outbox (fold (\<lambda>i. Send W (map dr_conn reqs ! i) (?v i)) (order (length reqs)) s) (dr_conn (reqs ! j)))"
    using fold_Send_outbox(1) [of ?v, OF _ assms(3)] by simp
  moreover have "Envelope_Open N (enveloped (?v j)) = Inr (DialBucket Round (bucket_for buckets pk))"
    using assms(2,4,5) by (simp add: Open_enveloped)
  ultimately show ?thesis by blast
qed



section \<open>Witnesses\<close>

text \<open>A client that dials itself over one server.\<close>

definition self_dialer :: Dialer where
  "self_dialer = \<lparr>di_pki = srv_PKI sample_service, di_myPublicKey = replicate 32 97, di_myPrivateKey = replicate 32 97,
     userDialRequests = [replicate 32 97]\<rparr>"

lemma dial_keys: "ServerKeys (srv_PKI sample_service) = Ret (public_keys clear_box (map d_PrivateKey [sample_dial]))"
  by (simp add: ServerKeys_def sample_service_def sample_dial_def server_info_def deref_def clear_box_def)

lemma NextDialRequest_total:
  assumes "nacl_ok N" "userDialRequests d = pk # queue" "ServerKeys (di_pki d) = Ret keys" "None \<notin> set keys"
  shows "\<exists>onion d' r'. NextDialRequest N Round (of_nat TotalDialBuckets) d r = Ret ((DialRequest Round onion, d'), r')"
proof -
  let ?i = "Introduction_Marshal \<lparr>Rendezvous = Round + 4, LongTermKey = di_myPublicKey d\<rparr>"
  obtain ctxt ks r1 where "Onion_Seal N ?i (ForwardNonce Round) [Some pk] r = Ret ((ctxt, ks), r1)"
    using Onion_Seal_total [OF assms(1), of "[Some pk]"] by fastforce
  moreover obtain b where "KeyDialBucket pk (of_nat TotalDialBuckets) = Ret b" by (simp add: KeyDialBucket_def TotalDialBuckets_def)
  ultimately obtain ex where ex: "next_exchange N Round (of_nat TotalDialBuckets) d r = Ret ((ex, d\<lparr>userDialRequests := queue\<rparr>), r1)"
    by (simp add: next_exchange_def assms(2) del: Onion_Seal.simps)
  obtain onion ks r2 where "Onion_Seal N (DialExchange_Marshal ex) (ForwardNonce Round) keys r1 = Ret ((onion, ks), r2)"
    using Onion_Seal_total [OF assms(1,4)] by blast
  with ex assms(3) show ?thesis by (simp add: NextDialRequest_def)
qed


end
