(* ===== verification/Client.thy ===== *)
theory Client
  imports Conversation Dialer
begin

text \<open>
  The client process: the connection to the entry server (\<^verbatim>\<open>vuvuzela-client/client.go\<close>) and the commands of the
  window (\<^verbatim>\<open>gui.go\<close>).  One record holds what the Go structs point at; a conversation is named by its peer,
  which is its key in \<^verbatim>\<open>conversations\<close>, and a handler by the conversation it is.

  The window library is not modelled: \<open>main_view\<close> is the text of the view named main, or \<open>None\<close> as long as
  there is no such view, when printing does nothing.  Log entries are not modelled.

  Messages of the entry server and the attempt to connect have goroutines of their own.  Where such a goroutine
  reads a field that another one may have changed since its last step, the code is cut in two definitions, and
  the function of the source is their composition: \<open>registerRound\<close> and \<open>askHandler\<close> for \<^verbatim>\<open>nextConvoRequest\<close>,
  whose second read of \<^verbatim>\<open>convoHandler\<close> is outside the lock; \<open>connect_client\<close>, \<open>activateSelected\<close> and
  \<open>connect_handshake\<close> for \<^verbatim>\<open>Connect\<close>.  The theory \<open>ClientRuns\<close> interleaves the parts.
\<close>

record Client =
  cl_EntryServer :: string
  cl_MyPublicKey :: bytes
  ws :: bool
  closed :: bool
  sent :: "Envelope list"
  roundHandlers :: "u32 \<rightharpoonup> string option"
  convoHandler :: "string option"
  dialHandler :: bool

record GuiClient =
  gc_pki :: PKI
  myName :: string
  gc_myPublicKey :: bytes
  gc_myPrivateKey :: bytes
  main_view :: "string option"
  gc_client :: "Client option"
  selectedConvo :: "string option"
  conversations :: "string \<rightharpoonup> Conversation"
  gc_dialer :: "Dialer option"

section \<open>Printing\<close>

definition gui_print :: "string \<Rightarrow> GuiClient \<Rightarrow> GuiClient" where
  "gui_print text gc = gc\<lparr>main_view := map_option (\<lambda>old. old @ text) (main_view gc)\<rparr>"

definition hex_digit :: "nat \<Rightarrow> char" where
  "hex_digit n = char_of (if n < 10 then 48 + n else 87 + n)"

text \<open>\<^verbatim>\<open>%q\<close>\<close>

definition quote_char :: "char \<Rightarrow> string" where
  "quote_char c =
     (let n = of_char c :: nat
      in if n = 34 then [CHR 0x5C, CHR 0x22] else if n = 92 then [CHR 0x5C, CHR 0x5C]
         else if n = 7 then [CHR 0x5C, CHR ''a''] else if n = 8 then [CHR 0x5C, CHR ''b'']
         else if n = 12 then [CHR 0x5C, CHR ''f''] else if n = 10 then [CHR 0x5C, CHR ''n'']
         else if n = 13 then [CHR 0x5C, CHR ''r''] else if n = 9 then [CHR 0x5C, CHR ''t'']
         else if n = 11 then [CHR 0x5C, CHR ''v'']
         else if n < 32 \<or> n = 127 then [CHR 0x5C, CHR ''x'', hex_digit (n div 16), hex_digit (n mod 16)]
         else [c])"

definition quote :: "string \<Rightarrow> string" where
  "quote s = [CHR 0x22] @ concat (map quote_char s) @ [CHR 0x22]"

definition is_space :: "char \<Rightarrow> bool" where
  "is_space c \<longleftrightarrow> (let n = of_char c :: nat in 9 \<le> n \<and> n \<le> 13 \<or> n = 32)"

definition TrimSpace :: "string \<Rightarrow> string" where
  "TrimSpace s = rev (dropWhile is_space (rev (dropWhile is_space s)))"

definition bytes_of :: "string \<Rightarrow> bytes" where
  "bytes_of s = map (\<lambda>c. of_nat (of_char c)) s"

section \<open>The connection\<close>

definition NewClient :: "string \<Rightarrow> bytes \<Rightarrow> Client" where
  "NewClient entryServer publicKey =
     \<lparr>cl_EntryServer = entryServer, cl_MyPublicKey = publicKey, ws = False, closed = False, sent = [], roundHandlers = Map.empty,
      convoHandler = None, dialHandler = False\<rparr>"

definition SetConvoHandler :: "string \<Rightarrow> Client \<Rightarrow> Client" where
  "SetConvoHandler convo c = c\<lparr>convoHandler := Some convo\<rparr>"

definition SetDialHandler :: "Client \<Rightarrow> Client" where
  "SetDialHandler c = c\<lparr>dialHandler := True\<rparr>"

text \<open>\<open>dial\<close> is the outcome of the websocket handshake with the address it is given.\<close>

definition Client_Connect :: "base32 \<Rightarrow> (string \<Rightarrow> gerr option) \<Rightarrow> Client \<Rightarrow> gerr option \<times> Client" where
  "Client_Connect B dial c =
     (if convoHandler c = None then (Some (Foreign ''no convo handler''), c)
      else if \<not> dialHandler c then (Some (Foreign ''no dial handler''), c)
      else (case dial (cl_EntryServer c @ ''/ws?publickey='' @ BoxKey_String B (cl_MyPublicKey c)) of
        Some err \<Rightarrow> (Some err, c)
      | None \<Rightarrow> (None, c\<lparr>ws := True, closed := False\<rparr>)))"

text \<open>
  \<open>W\<close> says whether the websocket takes a message after those it has taken; one that was closed takes none.  Sending without one
  and closing without one dereference a nil pointer.
\<close>

definition Client_Close :: "Client \<Rightarrow> Client outcome" where
  "Client_Close c = (if ws c then Ret (c\<lparr>closed := True\<rparr>) else Panic)"

definition Client_Send :: "(Envelope list \<Rightarrow> Envelope \<Rightarrow> bool) \<Rightarrow> msg \<Rightarrow> Client \<Rightarrow> Client outcome" where
  "Client_Send W v c =
     (case Envelop v of
        Inl _ \<Rightarrow> Ret c
      | Inr e \<Rightarrow>
          if \<not> ws c then Panic
          else if \<not> closed c \<and> W (sent c) e then Ret (c\<lparr>sent := sent c @ [e]\<rparr>) else Client_Close c)"

section \<open>Rounds\<close>

abbreviation set_client :: "Client \<Rightarrow> GuiClient \<Rightarrow> GuiClient" where
  "set_client c gc \<equiv> gc\<lparr>gc_client := Some c\<rparr>"

abbreviation set_convo :: "string \<Rightarrow> Conversation \<Rightarrow> GuiClient \<Rightarrow> GuiClient" where
  "set_convo p c gc \<equiv> gc\<lparr>conversations := (conversations gc)(p \<mapsto> c)\<rparr>"

text \<open>The handler is read under the lock for the map, and a second time for the request.  It may be nil.\<close>

definition registerRound :: "u32 \<Rightarrow> GuiClient \<Rightarrow> GuiClient outcome" where
  "registerRound rd gc =
     obind (deref (gc_client gc)) (\<lambda>c. Ret (set_client (c\<lparr>roundHandlers := (roundHandlers c)(rd \<mapsto> convoHandler c)\<rparr>) gc))"

definition askHandler :: "nacl \<Rightarrow> int \<Rightarrow> u32 \<Rightarrow> GuiClient \<Rightarrow> rng \<Rightarrow> ((msg \<times> GuiClient) \<times> rng) outcome" where
  "askHandler N now rd gc r =
     obind (deref (gc_client gc)) (\<lambda>c.
     obind (deref (convoHandler c)) (\<lambda>p.
     obind (deref (conversations gc p)) (\<lambda>convo.
     obind (NextConvoRequest N now rd convo r) (\<lambda>((v, convo), r).
       Ret ((v, set_convo p convo gc), r)))))"

definition nextConvoRequest :: "nacl \<Rightarrow> int \<Rightarrow> u32 \<Rightarrow> GuiClient \<Rightarrow> rng \<Rightarrow> ((msg \<times> GuiClient) \<times> rng) outcome" where
  "nextConvoRequest N now rd gc r = obind (registerRound rd gc) (\<lambda>gc. askHandler N now rd gc r)"

definition deliverConvoResponse :: "nacl \<Rightarrow> int \<Rightarrow> u32 \<Rightarrow> bytes \<Rightarrow> GuiClient \<Rightarrow> GuiClient outcome" where
  "deliverConvoResponse N now rd onion gc =
     obind (deref (gc_client gc)) (\<lambda>c.
       let gc1 = set_client (c\<lparr>roundHandlers := (roundHandlers c)(rd := None)\<rparr>) gc
       in case roundHandlers c rd of
            None \<Rightarrow> Ret gc1
          | Some handler \<Rightarrow>
              obind (deref handler) (\<lambda>p.
              obind (deref (conversations gc p)) (\<lambda>convo.
              obind (HandleConvoResponse N now rd onion convo) (\<lambda>(line, convo).
                Ret ((case line of None \<Rightarrow> id | Some text \<Rightarrow> gui_print text) (set_convo p convo gc1))))))"

definition client_Send :: "(Envelope list \<Rightarrow> Envelope \<Rightarrow> bool) \<Rightarrow> msg \<Rightarrow> GuiClient \<Rightarrow> GuiClient outcome" where
  "client_Send W v gc =
     obind (deref (gc_client gc)) (\<lambda>c. obind (Client_Send W v c) (\<lambda>c. Ret (set_client c gc)))"

definition handleResponse ::
  "nacl \<Rightarrow> base32 \<Rightarrow> string list \<Rightarrow> (Envelope list \<Rightarrow> Envelope \<Rightarrow> bool) \<Rightarrow> int \<Rightarrow> msg \<Rightarrow> GuiClient \<Rightarrow> rng \<Rightarrow> (GuiClient \<times> rng) outcome" where
  "handleResponse N B names W now v gc r =
     (case v of
        AnnounceConvoRound rd \<Rightarrow>
          obind (nextConvoRequest N now rd gc r) (\<lambda>((req, gc), r). obind (client_Send W req gc) (\<lambda>gc. Ret (gc, r)))
      | AnnounceDialRound rd buckets \<Rightarrow>
          obind (deref (gc_dialer gc)) (\<lambda>d.
          obind (NextDialRequest N rd buckets d r) (\<lambda>((req, d), r).
          obind (client_Send W req (gc\<lparr>gc_dialer := Some d\<rparr>)) (\<lambda>gc. Ret (gc, r))))
      | ConvoResponse rd onion \<Rightarrow> obind (deliverConvoResponse N now rd onion gc) (\<lambda>gc. Ret (gc, r))
      | DialBucket rd intros \<Rightarrow>
          obind (deref (gc_dialer gc)) (\<lambda>d. Ret (fold gui_print (HandleDialBucket N B names rd intros d) gc, r))
      | _ \<Rightarrow> Ret (gc, r))"

text \<open>One turn of the read loop: an error of reading closes the connection, an envelope that does not open is skipped.\<close>

definition client_read ::
  "nacl \<Rightarrow> base32 \<Rightarrow> string list \<Rightarrow> (Envelope list \<Rightarrow> Envelope \<Rightarrow> bool) \<Rightarrow> int \<Rightarrow> gerr + Envelope \<Rightarrow> GuiClient \<Rightarrow> rng \<Rightarrow> (GuiClient \<times> rng) outcome" where
  "client_read N B names W now res gc r =
     (case res of
        Inl _ \<Rightarrow> obind (deref (gc_client gc)) (\<lambda>c. obind (Client_Close c) (\<lambda>c. Ret (set_client c gc, r)))
      | Inr e \<Rightarrow>
          (case Envelope_Open N e of
             Inl _ \<Rightarrow> Ret (gc, r)
           | Inr v \<Rightarrow> handleResponse N B names W now v gc r))"

section \<open>Commands\<close>

definition activateConvo :: "string \<Rightarrow> GuiClient \<Rightarrow> GuiClient outcome" where
  "activateConvo p gc =
     (case gc_client gc of
        None \<Rightarrow> Ret gc
      | Some c \<Rightarrow>
          obind (deref (conversations gc p)) (\<lambda>convo.
            Ret (set_client (SetConvoHandler p c) (set_convo p (convo\<lparr>lastPeerResponding := False, lastLatency := 0\<rparr>) gc))))"

definition new_conversation :: "string \<Rightarrow> bytes \<Rightarrow> GuiClient \<Rightarrow> Conversation" where
  "new_conversation peer pk gc =
     Conversation_Init \<lparr>co_pki = gc_pki gc, peerName = peer, peerPublicKey = pk, myPublicKey = gc_myPublicKey gc,
       myPrivateKey = gc_myPrivateKey gc, outQueue = [], pendingRounds = Map.empty, lastPeerResponding = False,
       lastLatency = 0, lastRound = 0\<rparr>"

definition switch_to :: "string \<Rightarrow> GuiClient \<Rightarrow> GuiClient outcome" where
  "switch_to peer gc =
     obind (activateConvo peer (gc\<lparr>selectedConvo := Some peer\<rparr>)) (\<lambda>gc.
       Ret (gui_print (Warnf (''Now talking to '' @ peer @ [CHR 0x0A])) gc))"

definition switchConversation :: "string \<Rightarrow> GuiClient \<Rightarrow> GuiClient outcome" where
  "switchConversation peer gc =
     (case conversations gc peer of
        Some _ \<Rightarrow> switch_to peer gc
      | None \<Rightarrow>
          (case People (gc_pki gc) peer of
             None \<Rightarrow> Ret (gui_print (Warnf (''unknown user: '' @ peer)) gc)
           | Some pk \<Rightarrow> switch_to peer (set_convo peer (new_conversation peer pk gc) gc)))"

definition queue_line :: "string \<Rightarrow> GuiClient \<Rightarrow> GuiClient outcome" where
  "queue_line line gc =
     (let m = TrimSpace line
      in obind (deref (selectedConvo gc)) (\<lambda>p.
         obind (deref (conversations gc p)) (\<lambda>convo.
         obind (QueueTextMessage (bytes_of m) convo) (\<lambda>convo.
           Ret (gui_print (''<'' @ myName gc @ ''> '' @ m @ [CHR 0x0A]) (set_convo p convo gc))))))"

definition dial_line :: "string \<Rightarrow> string \<Rightarrow> GuiClient \<Rightarrow> GuiClient outcome" where
  "dial_line pkiPath peer gc =
     (case People (gc_pki gc) peer of
        None \<Rightarrow> Ret (gui_print (Warnf (''Unknown user: '' @ quote peer @ '' (see '' @ pkiPath @ '')'' @ [CHR 0x0A])) gc)
      | Some pk \<Rightarrow>
          obind (deref (gc_dialer gc)) (\<lambda>d.
          obind (QueueRequest pk d) (\<lambda>d.
            Ret ((gui_print (Warnf (''Dialing user: '' @ peer @ [CHR 0x0A])) gc)\<lparr>gc_dialer := Some d\<rparr>))))"

text \<open>The first component tells whether the program quits.\<close>

definition handleLine :: "string \<Rightarrow> string \<Rightarrow> GuiClient \<Rightarrow> (bool \<times> GuiClient) outcome" where
  "handleLine pkiPath line gc =
     (if line = ''/quit'' then Ret (True, gc)
      else if take 6 line = ''/talk '' then obind (switchConversation (drop 6 line) gc) (\<lambda>gc. Ret (False, gc))
      else if take 6 line = ''/dial '' then obind (dial_line pkiPath (drop 6 line) gc) (\<lambda>gc. Ret (False, gc))
      else obind (queue_line line gc) (\<lambda>gc. Ret (False, gc)))"

text \<open>\<open>buffer\<close> is the input view and \<open>line\<close> what it returns for the line above the cursor.\<close>

definition readLine :: "string \<Rightarrow> string \<Rightarrow> gerr + string \<Rightarrow> GuiClient \<Rightarrow> (gerr + bool \<times> GuiClient) outcome" where
  "readLine pkiPath buffer line gc =
     (if buffer = [] then Ret (Inr (False, gc))
      else (case line of
        Inl err \<Rightarrow> Ret (Inl err)
      | Inr l \<Rightarrow> if l = [] then Ret (Inr (False, gc)) else obind (handleLine pkiPath l gc) (\<lambda>res. Ret (Inr res))))"

section \<open>Start\<close>

definition connect_client :: "GuiClient \<Rightarrow> GuiClient" where
  "connect_client gc =
     (if gc_client gc = None then set_client (SetDialHandler (NewClient (EntryServer (gc_pki gc)) (gc_myPublicKey gc))) gc else gc)"

text \<open>The argument is the conversation that was selected when the call was made; with none, locking it panics.\<close>

definition activateSelected :: "string option \<Rightarrow> GuiClient \<Rightarrow> GuiClient outcome" where
  "activateSelected selected gc = (if gc_client gc = None then Ret gc else obind (deref selected) (\<lambda>p. activateConvo p gc))"

definition connect_handshake :: "base32 \<Rightarrow> (string \<Rightarrow> gerr option) \<Rightarrow> GuiClient \<Rightarrow> (gerr option \<times> GuiClient) outcome" where
  "connect_handshake B dial gc =
     obind (deref (gc_client gc)) (\<lambda>c. let (err, c) = Client_Connect B dial c in Ret (err, set_client c gc))"

definition gui_Connect :: "base32 \<Rightarrow> (string \<Rightarrow> gerr option) \<Rightarrow> GuiClient \<Rightarrow> (gerr option \<times> GuiClient) outcome" where
  "gui_Connect B dial gc =
     (let gc = connect_client gc
      in obind (activateSelected (selectedConvo gc) gc) (\<lambda>gc. connect_handshake B dial gc))"

text \<open>The first half of \<^verbatim>\<open>Run\<close>: a conversation with oneself and the dialer.\<close>

definition Run_start :: "GuiClient \<Rightarrow> GuiClient outcome" where
  "Run_start gc =
     obind (switchConversation (myName gc) (gc\<lparr>conversations := Map.empty\<rparr>)) (\<lambda>gc.
       Ret (gc\<lparr>gc_dialer := Some (Dialer_Init \<lparr>di_pki = gc_pki gc, di_myPublicKey = gc_myPublicKey gc,
         di_myPrivateKey = gc_myPrivateKey gc, userDialRequests = []\<rparr>)\<rparr>))"

text \<open>The goroutine that connects; it reports success in either case.\<close>

definition connect_report :: "gerr option \<Rightarrow> GuiClient \<Rightarrow> GuiClient" where
  "connect_report err gc =
     gui_print (Warnf (''Connected: '' @ EntryServer (gc_pki gc) @ [CHR 0x0A]))
       (case err of None \<Rightarrow> gc | Some e \<Rightarrow> gui_print (Warnf (''Failed to connect: '' @ err_text e @ [CHR 0x0A])) gc)"

definition Run_connect :: "base32 \<Rightarrow> (string \<Rightarrow> gerr option) \<Rightarrow> GuiClient \<Rightarrow> GuiClient outcome" where
  "Run_connect B dial gc = obind (gui_Connect B dial gc) (\<lambda>(err, gc). Ret (connect_report err gc))"

section \<open>Configuration\<close>

record Conf =
  conf_MyName :: string
  conf_MyPublicKey :: "bytes option"
  conf_MyPrivateKey :: "bytes option"

definition default_conf :: "nacl \<Rightarrow> rng \<Rightarrow> Conf option \<times> rng" where
  "default_conf N r =
     (case GenerateBoxKey N r of
        (None, r) \<Rightarrow> (None, r)
      | (Some (pk, sk), r) \<Rightarrow> (Some \<lparr>conf_MyName = [], conf_MyPublicKey = Some pk, conf_MyPrivateKey = Some sk\<rparr>, r))"

text \<open>\<open>None\<close> is the fatal error about missing fields.\<close>

definition gui_of_conf :: "PKI \<Rightarrow> Conf \<Rightarrow> GuiClient option" where
  "gui_of_conf pki conf =
     (case (conf_MyPublicKey conf, conf_MyPrivateKey conf) of
        (Some pk, Some sk) \<Rightarrow>
          if conf_MyName conf = [] then None
          else Some \<lparr>gc_pki = pki, myName = conf_MyName conf, gc_myPublicKey = pk, gc_myPrivateKey = sk, main_view = None,
            gc_client = None, selectedConvo = None, conversations = Map.empty, gc_dialer = None\<rparr>
      | _ \<Rightarrow> None)"

end
