(* ===== verification/Window.thy ===== *)
theory Window
  imports Client Laplace
begin

text \<open>
  What the window of the client shows, \<^verbatim>\<open>layout\<close> of \<^verbatim>\<open>vuvuzela-client/gui.go\<close>: the status line, the partner's prompt and
  the rectangles of the views.  \<open>V\<close> gives what \<^verbatim>\<open>SetView\<close> of the window library returns for each view:
  that the view was there, that it is new (the library reports that as an unknown view) or another
  error; \<open>current\<close> is the error of \<^verbatim>\<open>SetCurrentView\<close>.  Colours other than the prompt's and the options of the views are
  not modelled.
\<close>

datatype view_result = view_there | view_new | view_error gerr

type_synonym rect = "int \<times> int \<times> int \<times> int"

record screen =
  main_rect :: rect
  status_rect :: rect
  status_text :: string
  partner_rect :: rect
  partner_text :: string
  partner_green :: bool
  input_rect :: rect

section \<open>Numbers\<close>

text \<open>\<^verbatim>\<open>%.1f\<close>: one decimal of the exact value, a tie to the even digit.\<close>

definition round_even :: "real \<Rightarrow> int" where
  "round_even x =
     (let f = \<lfloor>x\<rfloor>; d = x - of_int f
      in if d < 1 / 2 then f else if d > 1 / 2 then f + 1 else if even f then f else f + 1)"

definition format_1f :: "real \<Rightarrow> string" where
  "format_1f x =
     (let n = nat (round_even (\<bar>x\<bar> * 10))
      in (if x < 0 then ''-'' else []) @ decimal (n div 10) @ ''.'' @ decimal (n mod 10))"

section \<open>Layout\<close>

definition latency_text :: "Status \<Rightarrow> string" where
  "latency_text st = (if st_Latency st = 0 then ''-'' else format_1f (st_Latency st) @ ''s'')"

definition round_text :: "Status \<Rightarrow> string" where
  "round_text st = (if st_Round st = 0 then ''-'' else decimal (unat (st_Round st)))"

definition status_line :: "string \<Rightarrow> Status \<Rightarrow> string" where
  "status_line name st = '' ['' @ name @ '']  [round: '' @ round_text st @ '']  [latency: '' @ latency_text st @ '']''"

definition partner_name :: "Conversation \<Rightarrow> string" where
  "partner_name convo = (if Solo convo then ''(no partner)'' else peerName convo)"

text \<open>The part from the status line on.\<close>

definition layout_screen :: "float64 \<Rightarrow> (string \<Rightarrow> view_result) \<Rightarrow> gerr option \<Rightarrow> int \<Rightarrow> int \<Rightarrow> string \<Rightarrow> Conversation \<Rightarrow> gerr + screen" where
  "layout_screen F V current maxX maxY name convo =
     (let st = Conversation_Status F convo; partner = partner_name convo
      in case V ''partner'' of
           view_error err \<Rightarrow> Inl err
         | _ \<Rightarrow>
             (case V ''input'' of
                view_error err \<Rightarrow> Inl err
              | res \<Rightarrow>
                  if res = view_new \<and> current \<noteq> None then Inl (the current)
                  else Inr \<lparr>main_rect = (0, - 1, maxX - 1, maxY - 1),
                    status_rect = (- 1, maxY - 3, maxX, maxY - 1), status_text = status_line name st,
                    partner_rect = (- 1, maxY - 2, int (length partner) + 1, maxY), partner_text = partner @ ''>'',
                    partner_green = PeerResponding st,
                    input_rect = (int (length partner) + 1, maxY - 2, maxX, maxY)\<rparr>))"

definition layout ::
  "float64 \<Rightarrow> (string \<Rightarrow> view_result) \<Rightarrow> gerr option \<Rightarrow> int \<Rightarrow> int \<Rightarrow> GuiClient \<Rightarrow> ((gerr + screen) \<times> GuiClient) outcome" where
  "layout F V current maxX maxY gc =
     (case V ''main'' of
        view_error err \<Rightarrow> Ret (Inl err, gc)
      | res \<Rightarrow>
          let gc = (if res = view_new then gc\<lparr>main_view := Some []\<rparr> else gc)
          in (case V ''status'' of
                view_error err \<Rightarrow> Ret (Inl err, gc)
              | _ \<Rightarrow>
                  obind (deref (selectedConvo gc)) (\<lambda>p.
                  obind (deref (conversations gc p)) (\<lambda>convo.
                    Ret (layout_screen F V current maxX maxY (myName gc) convo, gc)))))"

section \<open>Where it panics\<close>

lemma layout_screen_shows:
  "layout_screen F V current maxX maxY name convo = Inr screen \<Longrightarrow> status_text screen = status_line name (Conversation_Status F convo)
    \<and> partner_text screen = partner_name convo @ ''>'' \<and> (partner_green screen \<longleftrightarrow> lastPeerResponding convo)"
  by (auto simp: layout_screen_def Let_def Conversation_Status_def split: view_result.splits if_splits)

lemma layout_frame: "layout F V current maxX maxY gc = Ret (res, gc') \<Longrightarrow> gc' = gc \<or> gc' = gc\<lparr>main_view := Some []\<rparr>"
  by (auto simp: layout_def outcome_simps Let_def split: view_result.splits)

lemma layout_returns:
  assumes "selectedConvo gc = Some p" "conversations gc p = Some convo"
  shows "\<exists>res gc'. layout F V current maxX maxY gc = Ret (res, gc')
    \<and> (\<forall>screen. res = Inr screen \<longrightarrow> status_text screen = status_line (myName gc) (Conversation_Status F convo)
        \<and> partner_text screen = partner_name convo @ ''>'' \<and> (partner_green screen \<longleftrightarrow> lastPeerResponding convo))"
  using assms by (auto simp: layout_def deref_def Let_def layout_screen_shows split: view_result.splits)

lemma layout_unselected:
  "selectedConvo gc = None \<Longrightarrow> (\<And>name err. V name \<noteq> view_error err) \<Longrightarrow> layout F V current maxX maxY gc = Panic"
  by (auto simp: layout_def deref_def Let_def split: view_result.splits)

end
