(* ===== verification/ClientRuns.thy ===== *)
theory ClientRuns
  imports Window Talk
begin

text \<open>
  Runs of the client: what always holds, and which conversation the response of a round reaches, whatever the
  user does in between.

  A message is handled and a connection is made by a goroutine of its own.  Such a goroutine stops where it reads
  a shared field again, and goes on at any later time: \<open>client_job\<close> is what is left of it, and a run may do
  anything else before.
\<close>

section \<open>Events\<close>

datatype client_job =
    AskJob u32
  | SelectJob
  | ActivateJob "string option"
  | HandshakeJob
  | ReportJob "gerr option"

datatype client_event =
    Line string
  | Received int "gerr + Envelope"
  | Connecting
  | Proceed int client_job
  | Redraw "string \<Rightarrow> view_result" "gerr option" int int

record client_env =
  ce_nacl :: nacl
  ce_base32 :: base32
  ce_names :: "string list"
  ce_ws :: "Envelope list \<Rightarrow> Envelope \<Rightarrow> bool"
  ce_dial :: "string \<Rightarrow> gerr option"
  ce_pkiPath :: string
  ce_float :: float64

text \<open>The next step of a goroutine, and what is then left of it.\<close>

primrec goroutine_step :: "client_env \<Rightarrow> int \<Rightarrow> client_job \<Rightarrow> GuiClient \<Rightarrow> rng \<Rightarrow> (client_job list \<times> GuiClient \<times> rng) outcome" where
  "goroutine_step E now (AskJob rd) gc r =
     obind (askHandler (ce_nacl E) now rd gc r) (\<lambda>((req, gc), r). obind (client_Send (ce_ws E) req gc) (\<lambda>gc. Ret ([], gc, r)))"
| "goroutine_step E now SelectJob gc r = Ret ([ActivateJob (selectedConvo gc)], gc, r)"
| "goroutine_step E now (ActivateJob selected) gc r = obind (activateSelected selected gc) (\<lambda>gc. Ret ([HandshakeJob], gc, r))"
| "goroutine_step E now HandshakeJob gc r =
     obind (connect_handshake (ce_base32 E) (ce_dial E) gc) (\<lambda>(err, gc). Ret ([ReportJob err], gc, r))"
| "goroutine_step E now (ReportJob err) gc r = Ret ([], connect_report err gc, r)"

text \<open>One message: the announcement of a conversation round stops between the two reads of the handler.\<close>

definition client_receive :: "client_env \<Rightarrow> int \<Rightarrow> gerr + Envelope \<Rightarrow> GuiClient \<Rightarrow> rng \<Rightarrow> (client_job list \<times> GuiClient \<times> rng) outcome" where
  "client_receive E now e gc r =
     (let other = obind (client_read (ce_nacl E) (ce_base32 E) (ce_names E) (ce_ws E) now e gc r) (\<lambda>(gc, r). Ret ([], gc, r))
      in case e of
           Inl _ \<Rightarrow> other
         | Inr env \<Rightarrow>
             (case Envelope_Open (ce_nacl E) env of
                Inr (AnnounceConvoRound rd) \<Rightarrow> obind (registerRound rd gc) (\<lambda>gc. Ret ([AskJob rd], gc, r))
              | _ \<Rightarrow> other))"

type_synonym process = "GuiClient \<times> client_job list \<times> rng"

primrec client_step :: "client_env \<Rightarrow> client_event \<Rightarrow> GuiClient \<Rightarrow> client_job list \<Rightarrow> rng \<Rightarrow> process outcome" where
  "client_step E (Line l) gc js r = obind (handleLine (ce_pkiPath E) l gc) (\<lambda>(_, gc). Ret (gc, js, r))"
| "client_step E (Received now e) gc js r = obind (client_receive E now e gc r) (\<lambda>(js', gc, r). Ret (gc, js @ js', r))"
| "client_step E Connecting gc js r = Ret (connect_client gc, js @ [SelectJob], r)"
| "client_step E (Proceed now j) gc js r = obind (goroutine_step E now j gc r) (\<lambda>(js', gc, r). Ret (gc, remove1 j js @ js', r))"
| "client_step E (Redraw V current x y) gc js r = obind (layout (ce_float E) V current x y gc) (\<lambda>(_, gc). Ret (gc, js, r))"

text \<open>Messages arrive once there is a connection; only a goroutine that is there goes on.\<close>

definition connected :: "GuiClient \<Rightarrow> bool" where
  "connected gc \<longleftrightarrow> (case gc_client gc of None \<Rightarrow> False | Some cl \<Rightarrow> ws cl)"

definition enabled :: "client_event \<Rightarrow> GuiClient \<Rightarrow> client_job list \<Rightarrow> bool" where
  "enabled e gc js = (case e of Received _ _ \<Rightarrow> connected gc | Proceed _ j \<Rightarrow> j \<in> set js | _ \<Rightarrow> True)"

inductive client_run :: "client_env \<Rightarrow> process \<Rightarrow> client_event list \<Rightarrow> process \<Rightarrow> bool" for E x0 where
  start: "client_run E x0 [] x0"
| step: "client_run E x0 tr (gc, js, r) \<Longrightarrow> enabled e gc js \<Longrightarrow> client_step E e gc js r = Ret y \<Longrightarrow> client_run E x0 (tr @ [e]) y"

text \<open>With nothing in between, the parts make up the functions of the source.\<close>

lemma read_announcement:
  "Envelope_Open (ce_nacl E) env = Inr (AnnounceConvoRound rd) \<Longrightarrow>
     client_read (ce_nacl E) (ce_base32 E) (ce_names E) (ce_ws E) now (Inr env) gc r
       = obind (client_receive E now (Inr env) gc r) (\<lambda>(_, gc, r). obind (goroutine_step E now (AskJob rd) gc r) (\<lambda>(_, gc, r). Ret (gc, r)))"
  by (cases "gc_client gc") (simp_all add: client_read_def handleResponse_def nextConvoRequest_def registerRound_def client_receive_def deref_def
      obind_assoc case_prod_unfold)

lemma connect_jobs:
  "Run_connect (ce_base32 E) (ce_dial E) gc
     = (let gc = connect_client gc
        in obind (goroutine_step E t2 (ActivateJob (selectedConvo gc)) gc r) (\<lambda>(_, gc, r).
           obind (goroutine_step E t3 HandshakeJob gc r) (\<lambda>(js, gc, r). case js of [ReportJob err] \<Rightarrow> Ret (connect_report err gc) | _ \<Rightarrow> Panic)))"
  by (simp add: Run_connect_def gui_Connect_def Let_def obind_assoc case_prod_unfold)

section \<open>What always holds\<close>

definition convo_fits :: "GuiClient \<Rightarrow> string \<Rightarrow> Conversation \<Rightarrow> bool" where
  "convo_fits gc p c \<longleftrightarrow> peerName c = p \<and> co_pki c = gc_pki gc \<and> myPublicKey c = gc_myPublicKey gc
     \<and> myPrivateKey c = gc_myPrivateKey gc \<and> length (outQueue c) \<le> 64"

text \<open>A handler that is set is a conversation of the client, and there is one as soon as there is a connection.\<close>

definition handlers_ok :: "GuiClient \<Rightarrow> Client \<Rightarrow> bool" where
  "handlers_ok gc cl \<longleftrightarrow>
     (\<forall>p. convoHandler cl = Some p \<longrightarrow> conversations gc p \<noteq> None)
     \<and> (ws cl \<longrightarrow> convoHandler cl \<noteq> None)
     \<and> (\<forall>rd h. roundHandlers cl rd = Some h \<longrightarrow> (\<exists>p. h = Some p \<and> conversations gc p \<noteq> None))"

definition client_ok :: "GuiClient \<Rightarrow> bool" where
  "client_ok gc \<longleftrightarrow>
     (\<forall>p c. conversations gc p = Some c \<longrightarrow> convo_fits gc p c)
     \<and> (\<exists>p c. selectedConvo gc = Some p \<and> conversations gc p = Some c)
     \<and> (\<forall>cl. gc_client gc = Some cl \<longrightarrow> handlers_ok gc cl)
     \<and> (\<exists>d. gc_dialer gc = Some d \<and> di_pki d = gc_pki gc \<and> length (userDialRequests d) \<le> 4)"

lemma gui_print_sel [simp]:
  "gc_pki (gui_print t gc) = gc_pki gc" "gc_myPublicKey (gui_print t gc) = gc_myPublicKey gc" "gc_myPrivateKey (gui_print t gc) = gc_myPrivateKey gc"
  "gc_client (gui_print t gc) = gc_client gc" "selectedConvo (gui_print t gc) = selectedConvo gc" "conversations (gui_print t gc) = conversations gc"
  "gc_dialer (gui_print t gc) = gc_dialer gc" "myName (gui_print t gc) = myName gc"
  by (simp_all add: gui_print_def)

lemma gui_prints_sel [simp]:
  "conversations (fold gui_print ts gc) = conversations gc" "gc_client (fold gui_print ts gc) = gc_client gc"
  by (induction ts arbitrary: gc) simp_all

lemma handlers_ok_mono:
  assumes "handlers_ok gc cl" "\<And>p. conversations gc p \<noteq> None \<Longrightarrow> conversations gc' p \<noteq> None"
  shows "handlers_ok gc' cl"
  using assms unfolding handlers_ok_def by blast

lemma client_ok_cong:
  assumes "conversations gc' = conversations gc" "gc_client gc' = gc_client gc" "selectedConvo gc' = selectedConvo gc" "gc_pki gc' = gc_pki gc"
    "gc_myPublicKey gc' = gc_myPublicKey gc" "gc_myPrivateKey gc' = gc_myPrivateKey gc" "gc_dialer gc' = gc_dialer gc"
  shows "client_ok gc' = client_ok gc"
  using assms by (simp add: client_ok_def convo_fits_def handlers_ok_def)

lemma client_ok_print [simp]: "client_ok (gui_print t gc) = client_ok gc"
  by (rule client_ok_cong) simp_all

lemma client_ok_prints [simp]: "client_ok (fold gui_print ts gc) = client_ok gc"
  by (induction ts arbitrary: gc) simp_all

text \<open>What the operations do to a conversation.\<close>

lemma NextConvoRequest_fits:
  assumes "NextConvoRequest N now rd c r = Ret ((v, c'), r')"
  shows "peerName c' = peerName c" "co_pki c' = co_pki c" "myPublicKey c' = myPublicKey c" "myPrivateKey c' = myPrivateKey c"
    "peerPublicKey c' = peerPublicKey c" "length (outQueue c') \<le> length (outQueue c)"
    "\<exists>pr. pendingRounds c' = (pendingRounds c)(rd \<mapsto> pr)"
  using assms by (auto simp: NextConvoRequest_def next_body_def Let_def outcome_simps split: list.splits prod.splits)

lemma receive_message_fits:
  assumes "receive_message now res c = (line, c')"
  shows "peerName c' = peerName c" "co_pki c' = co_pki c" "myPublicKey c' = myPublicKey c" "myPrivateKey c' = myPrivateKey c"
    "peerPublicKey c' = peerPublicKey c" "outQueue c' = outQueue c" "pendingRounds c' = pendingRounds c"
  using assms by (cases "(now, res, c)" rule: receive_message.cases; auto)+

lemma HandleConvoResponse_fits:
  assumes "HandleConvoResponse N now rd onion c = Ret (line, c')"
  shows "peerName c' = peerName c" "co_pki c' = co_pki c" "myPublicKey c' = myPublicKey c" "myPrivateKey c' = myPrivateKey c"
    "peerPublicKey c' = peerPublicKey c" "outQueue c' = outQueue c" "pendingRounds c' = (pendingRounds c)(rd := None)"
  using assms
  by (auto simp: HandleConvoResponse_def Let_def outcome_simps split: option.splits if_splits dest: receive_message_fits)


lemma convo_fits_same:
  assumes "convo_fits gc p c" "peerName c' = peerName c" "co_pki c' = co_pki c" "myPublicKey c' = myPublicKey c" "myPrivateKey c' = myPrivateKey c"
    "length (outQueue c') \<le> length (outQueue c)"
  shows "convo_fits gc p c'"
  using assms by (simp add: convo_fits_def)

text \<open>Replacing one conversation, and replacing the connection.\<close>

lemma client_ok_convo:
  assumes "client_ok gc" "convo_fits gc p c"
  shows "client_ok (set_convo p c gc)"
proof -
  have "convo_fits (set_convo p c gc) q d = convo_fits gc q d" for q d by (simp add: convo_fits_def)
  moreover have "handlers_ok (set_convo p c gc) cl" if "handlers_ok gc cl" for cl by (rule handlers_ok_mono [OF that]) simp
  ultimately show ?thesis using assms by (auto simp: client_ok_def)
qed

lemma client_ok_client:
  assumes "client_ok gc" "handlers_ok gc cl"
  shows "client_ok (set_client cl gc)"
proof -
  have "handlers_ok (set_client cl gc) cl" by (rule handlers_ok_mono [OF assms(2)]) simp
  with assms(1) show ?thesis by (simp add: client_ok_def convo_fits_def)
qed

lemma client_okD:
  assumes "client_ok gc"
  shows "gc_client gc = Some cl \<Longrightarrow> handlers_ok gc cl" and "conversations gc p = Some c \<Longrightarrow> convo_fits gc p c"
  using assms by (simp_all add: client_ok_def)

lemma registerRound_ok:
  assumes "client_ok gc" "connected gc" "registerRound rd gc = Ret gc'"
  shows "client_ok gc'"
proof -
  obtain cl where cl: "gc_client gc = Some cl" "ws cl" using assms(2) by (auto simp: connected_def split: option.splits)
  then have "gc' = set_client (cl\<lparr>roundHandlers := (roundHandlers cl)(rd \<mapsto> convoHandler cl)\<rparr>) gc" using assms(3) by (simp add: registerRound_def deref_def)
  moreover have "handlers_ok gc (cl\<lparr>roundHandlers := (roundHandlers cl)(rd \<mapsto> convoHandler cl)\<rparr>)"
    using client_okD(1) [OF assms(1) cl(1)] cl(2) by (auto simp: handlers_ok_def)
  ultimately show ?thesis using client_ok_client [OF assms(1)] by simp
qed

lemma askHandler_ok:
  assumes "client_ok gc" "askHandler N now rd gc r = Ret ((v, gc'), r')"
  shows "client_ok gc'"
proof -
  obtain p c c' where c: "conversations gc p = Some c" "NextConvoRequest N now rd c r = Ret ((v, c'), r')" "gc' = set_convo p c' gc"
    using assms(2) by (auto simp: askHandler_def deref_def outcome_simps split: option.splits)
  have "convo_fits gc p c'" using client_okD(2) [OF assms(1) c(1)] NextConvoRequest_fits [OF c(2)] by (simp add: convo_fits_def)
  then show ?thesis unfolding c(3) by (rule client_ok_convo [OF assms(1)])
qed

lemma client_Send_ok:
  assumes "client_ok gc" "client_Send W v gc = Ret gc'"
  shows "client_ok gc'"
proof -
  obtain cl cl' where cl: "gc_client gc = Some cl" "Client_Send W v cl = Ret cl'" "gc' = set_client cl' gc"
    using assms(2) by (auto simp: client_Send_def deref_def outcome_simps split: option.splits)
  have "convoHandler cl' = convoHandler cl" "roundHandlers cl' = roundHandlers cl" "ws cl' = ws cl"
    using cl(2) by (auto simp: Client_Send_def Client_Close_def split: sum.splits if_splits)
  then have "handlers_ok gc cl'" using client_okD(1) [OF assms(1) cl(1)] by (simp add: handlers_ok_def)
  then show ?thesis unfolding cl(3) by (rule client_ok_client [OF assms(1)])
qed

lemma deliverConvoResponse_ok:
  assumes "client_ok gc" "deliverConvoResponse N now rd onion gc = Ret gc'"
  shows "client_ok gc'"
proof -
  obtain cl where cl: "gc_client gc = Some cl"
    using assms(2) by (auto simp: deliverConvoResponse_def deref_def split: option.splits)
  let ?gc = "set_client (cl\<lparr>roundHandlers := (roundHandlers cl)(rd := None)\<rparr>) gc"
  have ok: "client_ok ?gc"
    using client_okD(1) [OF assms(1) cl] by (intro client_ok_client [OF assms(1)]) (auto simp: handlers_ok_def)
  show ?thesis
  proof (cases "roundHandlers cl rd")
    case None
    then show ?thesis using assms(2) cl ok by (simp add: deliverConvoResponse_def deref_def)
  next
    case (Some h)
    then obtain p c c' line where c: "conversations gc p = Some c" "HandleConvoResponse N now rd onion c = Ret (line, c')"
      and gc': "gc' = (case line of None \<Rightarrow> id | Some text \<Rightarrow> gui_print text) (set_convo p c' ?gc)"
      using assms(2) cl by (auto simp: deliverConvoResponse_def deref_def Let_def outcome_simps split: option.splits)
    have "convo_fits ?gc p c'"
      using client_okD(2) [OF assms(1) c(1)] HandleConvoResponse_fits [OF c(2)] by (simp add: convo_fits_def)
    from client_ok_convo [OF ok this] show ?thesis unfolding gc' by (cases line) simp_all
  qed
qed

lemma NextDialRequest_fits:
  assumes "NextDialRequest N rd buckets d r = Ret ((v, d'), r')"
  shows "di_pki d' = di_pki d" "length (userDialRequests d') \<le> length (userDialRequests d)"
  using assms by (auto simp: NextDialRequest_def next_exchange_def Let_def outcome_simps simp del: Onion_Seal.simps split: list.splits prod.splits)

lemma client_ok_dialer:
  assumes "client_ok gc" "gc_dialer gc = Some d" "di_pki d' = di_pki d" "length (userDialRequests d') \<le> 4"
  shows "client_ok (gc\<lparr>gc_dialer := Some d'\<rparr>)"
proof -
  have "handlers_ok (gc\<lparr>gc_dialer := Some d'\<rparr>) cl" if "handlers_ok gc cl" for cl by (rule handlers_ok_mono [OF that]) simp
  with assms show ?thesis by (simp add: client_ok_def convo_fits_def)
qed

lemma handleResponse_ok:
  assumes "client_ok gc" "handleResponse N B names W now v gc r = Ret (gc', r')" "\<And>rd. v \<noteq> AnnounceConvoRound rd"
  shows "client_ok gc'"
proof (cases v)
  case (AnnounceDialRound rd buckets)
  then obtain d d' req r1 where d: "gc_dialer gc = Some d" "NextDialRequest N rd buckets d r = Ret ((req, d'), r1)"
    "client_Send W req (gc\<lparr>gc_dialer := Some d'\<rparr>) = Ret gc'"
    using assms(2) by (auto simp: handleResponse_def deref_def outcome_simps split: option.splits)
  have "length (userDialRequests d') \<le> 4" using NextDialRequest_fits(2) [OF d(2)] assms(1) d(1) by (auto simp: client_ok_def)
  then show ?thesis using client_ok_dialer [OF assms(1) d(1)] NextDialRequest_fits(1) [OF d(2)] client_Send_ok d(3) by blast
next
  case (ConvoResponse rd onion)
  with assms show ?thesis by (auto simp: handleResponse_def outcome_simps dest: deliverConvoResponse_ok)
next
  case (DialBucket rd intros)
  with assms show ?thesis by (auto simp: handleResponse_def deref_def outcome_simps split: option.splits)
qed (use assms in \<open>auto simp: handleResponse_def\<close>)

lemma activateConvo_ok:
  assumes "client_ok gc" "activateConvo p gc = Ret gc'"
  shows "client_ok gc'"
proof (cases "gc_client gc")
  case None
  with assms show ?thesis by (simp add: activateConvo_def)
next
  case (Some cl)
  then obtain c gc1 where c: "conversations gc p = Some c" and gc1: "gc1 = set_convo p (c\<lparr>lastPeerResponding := False, lastLatency := 0\<rparr>) gc"
    and gc': "gc' = set_client (SetConvoHandler p cl) gc1"
    using assms(2) by (auto simp: activateConvo_def deref_def split: option.splits)
  have ok: "client_ok gc1" unfolding gc1
    using client_okD(2) [OF assms(1) c] by (intro client_ok_convo [OF assms(1)]) (simp add: convo_fits_def)
  have "handlers_ok gc1 cl" "conversations gc1 p \<noteq> None" using client_okD(1) [OF ok, of cl] Some by (simp_all add: gc1)
  then have "handlers_ok gc1 (SetConvoHandler p cl)" by (simp add: handlers_ok_def SetConvoHandler_def)
  then show ?thesis unfolding gc' by (rule client_ok_client [OF ok])
qed

lemma client_ok_select:
  assumes "client_ok gc" "conversations gc p = Some c"
  shows "client_ok (gc\<lparr>selectedConvo := Some p\<rparr>)"
proof -
  have "handlers_ok (gc\<lparr>selectedConvo := Some p\<rparr>) cl" if "handlers_ok gc cl" for cl by (rule handlers_ok_mono [OF that]) simp
  with assms show ?thesis by (simp add: client_ok_def convo_fits_def)
qed

lemma switch_to_ok: "client_ok gc \<Longrightarrow> conversations gc p = Some c \<Longrightarrow> switch_to p gc = Ret gc' \<Longrightarrow> client_ok gc'"
  by (auto simp: switch_to_def outcome_simps dest: activateConvo_ok [OF client_ok_select])

lemma switchConversation_ok:
  assumes "client_ok gc" "switchConversation p gc = Ret gc'"
  shows "client_ok gc'"
proof (cases "conversations gc p")
  case None
  show ?thesis
  proof (cases "People (gc_pki gc) p")
    case (Some pk)
    have "client_ok (set_convo p (new_conversation p pk gc) gc)"
      by (intro client_ok_convo [OF assms(1)]) (simp add: convo_fits_def new_conversation_def Conversation_Init_def)
    moreover have "switch_to p (set_convo p (new_conversation p pk gc) gc) = Ret gc'"
      using assms(2) None Some by (simp add: switchConversation_def)
    ultimately show ?thesis using switch_to_ok [of "set_convo p (new_conversation p pk gc) gc" p] by simp
  qed (use assms None in \<open>auto simp: switchConversation_def\<close>)
next
  case (Some c)
  with assms switch_to_ok [OF assms(1) Some] show ?thesis by (simp add: switchConversation_def)
qed

lemma queue_line_ok:
  assumes "client_ok gc" "queue_line line gc = Ret gc'"
  shows "client_ok gc'"
proof -
  obtain p c c' t where p: "conversations gc p = Some c" "QueueTextMessage (bytes_of (TrimSpace line)) c = Ret c'"
    and gc': "gc' = gui_print t (set_convo p c' gc)"
    using assms(2) by (auto simp: queue_line_def Let_def deref_def outcome_simps split: option.splits)
  have "convo_fits gc p c'" using client_okD(2) [OF assms(1) p(1)] p(2) by (auto simp: QueueTextMessage_def convo_fits_def split: if_splits)
  then show ?thesis unfolding gc' client_ok_print by (rule client_ok_convo [OF assms(1)])
qed

lemma dial_line_ok:
  assumes "client_ok gc" "dial_line path peer gc = Ret gc'"
  shows "client_ok gc'"
proof (cases "People (gc_pki gc) peer")
  case None
  with assms show ?thesis by (auto simp: dial_line_def)
next
  case (Some pk)
  then obtain d d' t where d: "gc_dialer gc = Some d" "QueueRequest pk d = Ret d'" and gc': "gc' = (gui_print t gc)\<lparr>gc_dialer := Some d'\<rparr>"
    using assms(2) by (auto simp: dial_line_def deref_def outcome_simps split: option.splits)
  have "di_pki d' = di_pki d" "length (userDialRequests d') \<le> 4" using d(2) by (auto simp: QueueRequest_def split: if_splits)
  then show ?thesis unfolding gc' using assms(1) d(1) by (intro client_ok_dialer [where d = d]) auto
qed

lemma handleLine_ok: "client_ok gc \<Longrightarrow> handleLine path line gc = Ret (q, gc') \<Longrightarrow> client_ok gc'"
  by (auto simp: handleLine_def outcome_simps split: if_splits dest: switchConversation_ok dial_line_ok queue_line_ok)

lemma connect_client_ok: "client_ok gc \<Longrightarrow> client_ok (connect_client gc)"
  by (simp add: connect_client_def client_ok_client handlers_ok_def SetDialHandler_def NewClient_def)

lemma connect_handshake_ok:
  assumes "client_ok gc" "connect_handshake B dial gc = Ret (err, gc')"
  shows "client_ok gc'"
proof -
  obtain cl cl' where cl: "gc_client gc = Some cl" "Client_Connect B dial cl = (err, cl')" "gc' = set_client cl' gc"
    using assms(2) by (auto simp: connect_handshake_def deref_def outcome_simps split: option.splits prod.splits)
  have "handlers_ok gc cl'" using client_okD(1) [OF assms(1) cl(1)] cl(2) by (auto simp: Client_Connect_def handlers_ok_def split: if_splits option.splits)
  then show ?thesis unfolding cl(3) by (rule client_ok_client [OF assms(1)])
qed

lemma connect_report_ok [simp]: "client_ok (connect_report err gc) = client_ok gc"
  by (cases err) (simp_all add: connect_report_def)

lemma goroutine_step_ok:
  assumes "client_ok gc" "goroutine_step E now j gc r = Ret (js, gc', r')"
  shows "client_ok gc'"
  using assms by (cases j) (auto simp: activateSelected_def deref_def outcome_simps split: option.splits if_splits
    dest: askHandler_ok client_Send_ok activateConvo_ok connect_handshake_ok)

lemma client_read_ok:
  assumes "client_ok gc" "client_read N B names W now e gc r = Ret (gc', r')"
    and "\<And>env rd. e = Inr env \<Longrightarrow> Envelope_Open N env \<noteq> Inr (AnnounceConvoRound rd)"
  shows "client_ok gc'"
proof (cases e)
  case (Inl err)
  then obtain cl cl' where cl: "gc_client gc = Some cl" "Client_Close cl = Ret cl'" "gc' = set_client cl' gc"
    using assms(2) by (auto simp: client_read_def deref_def outcome_simps split: option.splits)
  have "handlers_ok gc cl'" using client_okD(1) [OF assms(1) cl(1)] cl(2) by (auto simp: Client_Close_def handlers_ok_def split: if_splits)
  then show ?thesis unfolding cl(3) by (rule client_ok_client [OF assms(1)])
next
  case (Inr env)
  with assms show ?thesis by (auto simp: client_read_def split: sum.splits dest: handleResponse_ok)
qed

text \<open>The state in which the program starts, for a user whom the directory lists.\<close>

lemma Run_start_ok:
  assumes "People (gc_pki gc) (myName gc) = Some pk" "gc_client gc = None"
  shows "\<exists>gc'. Run_start gc = Ret gc' \<and> client_ok gc' \<and> selectedConvo gc' = Some (myName gc) \<and> gc_client gc' = None \<and> gc_pki gc' = gc_pki gc
    \<and> (\<exists>c. conversations gc' = [myName gc \<mapsto> c] \<and> co_pki c = gc_pki gc)"
  using assms
  by (simp add: Run_start_def switchConversation_def switch_to_def activateConvo_def new_conversation_def Conversation_Init_def
      Dialer_Init_def client_ok_def convo_fits_def) (rule exI, rule conjI, rule refl, simp)

section \<open>What a round leaves to be answered\<close>

text \<open>
  \<open>round_same rd gc gc'\<close>: the handler of round \<open>rd\<close> and what the conversations keep for it are the same, and a
  connection is still there.
\<close>

definition round_same :: "u32 \<Rightarrow> GuiClient \<Rightarrow> GuiClient \<Rightarrow> bool" where
  "round_same rd gc gc' \<longleftrightarrow>
     (\<forall>cl. gc_client gc = Some cl \<longrightarrow> (\<exists>cl'. gc_client gc' = Some cl' \<and> roundHandlers cl' rd = roundHandlers cl rd \<and> (ws cl \<longrightarrow> ws cl')))
     \<and> (\<forall>p c. conversations gc p = Some c \<longrightarrow>
         (\<exists>c'. conversations gc' p = Some c' \<and> pendingRounds c' rd = pendingRounds c rd \<and> peerName c' = peerName c))"

lemma round_same_refl [simp]: "round_same rd gc gc"
  by (simp add: round_same_def)

lemma round_sameD:
  assumes "round_same rd gc gc'" "conversations gc p = Some c"
  shows "\<exists>c'. conversations gc' p = Some c' \<and> pendingRounds c' rd = pendingRounds c rd \<and> peerName c' = peerName c"
  using assms unfolding round_same_def by blast

lemma round_same_trans:
  assumes "round_same rd a b" "round_same rd b c"
  shows "round_same rd a c"
  using assms unfolding round_same_def by fastforce

lemma round_same_print [simp]: "round_same rd gc (gui_print t gc') = round_same rd gc gc'"
  by (simp add: round_same_def)

lemma round_same_connected: "round_same rd gc gc' \<Longrightarrow> connected gc \<Longrightarrow> connected gc'"
  by (auto simp: round_same_def connected_def split: option.splits)

lemma registerRound_same:
  assumes "registerRound rd' gc = Ret gc'" "rd' \<noteq> rd"
  shows "round_same rd gc gc'"
  using assms by (auto simp: registerRound_def deref_def round_same_def split: option.splits)

lemma askHandler_same:
  assumes "askHandler N now rd' gc r = Ret ((v, gc'), r')" "rd' \<noteq> rd"
  shows "round_same rd gc gc'"
proof -
  obtain p c c' where c: "conversations gc p = Some c" "NextConvoRequest N now rd' c r = Ret ((v, c'), r')" "gc' = set_convo p c' gc"
    using assms(1) by (auto simp: askHandler_def deref_def outcome_simps split: option.splits)
  have "pendingRounds c' rd = pendingRounds c rd" "peerName c' = peerName c" using NextConvoRequest_fits [OF c(2)] assms(2) by auto
  with c show ?thesis by (auto simp: round_same_def)
qed

lemma deliverConvoResponse_same:
  assumes "deliverConvoResponse N now rd' onion gc = Ret gc'" "rd' \<noteq> rd"
  shows "round_same rd gc gc'"
proof -
  obtain cl where cl: "gc_client gc = Some cl" using assms(1) by (auto simp: deliverConvoResponse_def deref_def split: option.splits)
  let ?h = "(roundHandlers cl)(rd' := None)"
  show ?thesis
  proof (cases "roundHandlers cl rd'")
    case None
    then show ?thesis using assms cl by (auto simp: deliverConvoResponse_def deref_def round_same_def)
  next
    case (Some h)
    then obtain p c c' line where c: "conversations gc p = Some c" and handle: "HandleConvoResponse N now rd' onion c = Ret (line, c')"
      and gc': "gc' = (case line of None \<Rightarrow> id | Some text \<Rightarrow> gui_print text) (set_convo p c' (set_client (cl\<lparr>roundHandlers := ?h\<rparr>) gc))"
      using assms(1) cl by (auto simp: deliverConvoResponse_def deref_def Let_def outcome_simps split: option.splits)
    have "pendingRounds c' rd = pendingRounds c rd" "peerName c' = peerName c" using HandleConvoResponse_fits [OF handle] assms(2) by auto
    then have "round_same rd gc (set_convo p c' (set_client (cl\<lparr>roundHandlers := ?h\<rparr>) gc))"
      using cl c assms(2) by (auto simp: round_same_def)
    then show ?thesis unfolding gc' by (cases line) simp_all
  qed
qed

lemma client_Send_same:
  assumes "client_Send W v gc = Ret gc'"
  shows "round_same rd gc gc'"
proof -
  obtain cl cl' where "gc_client gc = Some cl" "Client_Send W v cl = Ret cl'" "gc' = set_client cl' gc"
    using assms by (auto simp: client_Send_def deref_def outcome_simps split: option.splits)
  then show ?thesis by (auto simp: round_same_def Client_Send_def Client_Close_def split: sum.splits if_splits)
qed

lemma activateConvo_same:
  assumes "activateConvo p gc = Ret gc'"
  shows "round_same rd gc gc'"
  using assms by (auto simp: activateConvo_def deref_def SetConvoHandler_def round_same_def split: option.splits)

lemma switch_to_same: "switch_to p gc = Ret gc' \<Longrightarrow> round_same rd gc gc'"
proof -
  assume "switch_to p gc = Ret gc'"
  then obtain gc1 t where "activateConvo p (gc\<lparr>selectedConvo := Some p\<rparr>) = Ret gc1" "gc' = gui_print t gc1"
    by (auto simp: switch_to_def outcome_simps)
  moreover have "round_same rd gc (gc\<lparr>selectedConvo := Some p\<rparr>)" by (simp add: round_same_def)
  ultimately show ?thesis using activateConvo_same round_same_trans by (metis round_same_print)
qed

lemma switchConversation_same:
  assumes "switchConversation p gc = Ret gc'"
  shows "round_same rd gc gc'"
proof (cases "conversations gc p")
  case None
  show ?thesis
  proof (cases "People (gc_pki gc) p")
    case (Some pk)
    let ?gc = "set_convo p (new_conversation p pk gc) gc"
    have "round_same rd gc ?gc" using None by (auto simp: round_same_def)
    moreover have "switch_to p ?gc = Ret gc'" using assms None Some by (simp add: switchConversation_def)
    ultimately show ?thesis using switch_to_same round_same_trans by blast
  qed (use assms None in \<open>auto simp: switchConversation_def\<close>)
qed (use assms switch_to_same in \<open>auto simp: switchConversation_def\<close>)


lemma handleLine_same:
  assumes "handleLine path line gc = Ret (q, gc')"
  shows "round_same rd gc gc'"
proof -
  have "round_same rd gc gc'" if "queue_line line gc = Ret gc'"
    using that by (auto simp: queue_line_def QueueTextMessage_def Let_def deref_def outcome_simps round_same_def split: option.splits if_splits)
  moreover have "round_same rd gc gc'" if "dial_line path peer gc = Ret gc'" for peer
    using that by (auto simp: dial_line_def deref_def outcome_simps round_same_def split: option.splits)
  ultimately show ?thesis
    using assms switchConversation_same by (auto simp: handleLine_def outcome_simps split: if_splits)
qed

lemma connect_client_same: "round_same rd gc (connect_client gc)"
  by (simp add: connect_client_def round_same_def)

lemma connect_handshake_same:
  assumes "connect_handshake B dial gc = Ret (err, gc')"
  shows "round_same rd gc gc'"
  using assms by (auto simp: connect_handshake_def Client_Connect_def deref_def outcome_simps round_same_def split: option.splits prod.splits if_splits)

lemma connect_report_same [simp]: "round_same rd gc (connect_report err gc') = round_same rd gc gc'"
  by (cases err) (simp_all add: connect_report_def)

lemma goroutine_step_same:
  assumes "goroutine_step E now j gc r = Ret (js, gc', r')" "j \<noteq> AskJob rd"
  shows "round_same rd gc gc'"
proof (cases j)
  case (AskJob rd')
  then obtain req gc1 r1 where "askHandler (ce_nacl E) now rd' gc r = Ret ((req, gc1), r1)" "client_Send (ce_ws E) req gc1 = Ret gc'" "rd' \<noteq> rd"
    using assms by (auto simp: outcome_simps)
  then show ?thesis using askHandler_same client_Send_same round_same_trans by blast
qed (use assms in \<open>auto simp: activateSelected_def outcome_simps split: if_splits dest: activateConvo_same connect_handshake_same\<close>)

text \<open>Events that are about round \<open>rd\<close>: its announcement, its request and its response.\<close>

definition about :: "nacl \<Rightarrow> u32 \<Rightarrow> client_event \<Rightarrow> bool" where
  "about N rd e \<longleftrightarrow>
     (case e of
        Received now (Inr env) \<Rightarrow>
          (case Envelope_Open N env of
             Inr (AnnounceConvoRound rd') \<Rightarrow> rd' = rd
           | Inr (ConvoResponse rd' onion) \<Rightarrow> rd' = rd
           | _ \<Rightarrow> False)
      | Proceed now (AskJob rd') \<Rightarrow> rd' = rd
      | _ \<Rightarrow> False)"

lemma handleResponse_same:
  assumes "handleResponse N B names W now v gc r = Ret (gc', r')" "\<forall>rd' onion. v \<noteq> AnnounceConvoRound rd' \<and> v \<noteq> ConvoResponse rd onion"
  shows "round_same rd gc gc'"
proof (cases v)
  case (AnnounceDialRound rd' buckets)
  then obtain d' req where "client_Send W req (gc\<lparr>gc_dialer := Some d'\<rparr>) = Ret gc'"
    using assms(1) by (auto simp: handleResponse_def deref_def outcome_simps split: option.splits)
  then show ?thesis using client_Send_same [of W req "gc\<lparr>gc_dialer := Some d'\<rparr>" gc' rd] by (simp add: round_same_def)
next
  case (ConvoResponse rd' onion)
  with assms show ?thesis by (auto simp: handleResponse_def outcome_simps dest: deliverConvoResponse_same)
next
  case (DialBucket rd' intros)
  with assms(1) show ?thesis by (auto simp: handleResponse_def deref_def outcome_simps round_same_def split: option.splits)
qed (use assms in \<open>auto simp: handleResponse_def\<close>)

text \<open>The cases of one message: an announcement of a conversation round, or anything else.\<close>

lemma client_receive_cases:
  assumes "client_receive E now e gc r = Ret (js, gc', r')"
  obtains (announce) env rd where "e = Inr env" "Envelope_Open (ce_nacl E) env = Inr (AnnounceConvoRound rd)" "registerRound rd gc = Ret gc'" "js = [AskJob rd]" "r' = r"
  | (other) "client_read (ce_nacl E) (ce_base32 E) (ce_names E) (ce_ws E) now e gc r = Ret (gc', r')" "js = []"
      "\<And>env rd. e = Inr env \<Longrightarrow> Envelope_Open (ce_nacl E) env \<noteq> Inr (AnnounceConvoRound rd)"
proof (cases "\<exists>env rd. e = Inr env \<and> Envelope_Open (ce_nacl E) env = Inr (AnnounceConvoRound rd)")
  case True
  with assms announce show ?thesis by (auto simp: client_receive_def Let_def outcome_simps)
next
  case False
  then have "client_receive E now e gc r
      = obind (client_read (ce_nacl E) (ce_base32 E) (ce_names E) (ce_ws E) now e gc r) (\<lambda>(gc, r). Ret ([], gc, r))"
    by (auto simp: client_receive_def Let_def split: sum.splits msg.splits)
  with assms False other show ?thesis by (auto simp: outcome_simps)
qed

lemma client_receive_same:
  assumes "client_receive E now e gc r = Ret (js, gc', r')" "\<not> about (ce_nacl E) rd (Received now e)"
  shows "round_same rd gc gc'"
  using assms(1)
proof (cases rule: client_receive_cases)
  case (announce env rd')
  with assms(2) show ?thesis by (auto simp: about_def intro: registerRound_same)
next
  case other
  show ?thesis
  proof (cases e)
    case (Inl err)
    with other(1) show ?thesis
      by (auto simp: client_read_def Client_Close_def deref_def round_same_def outcome_simps split: if_splits option.splits)
  next
    case (Inr env)
    with other assms(2) show ?thesis by (auto simp: client_read_def about_def split: sum.splits intro!: handleResponse_same)
  qed
qed

lemma client_step_same:
  assumes "client_step E e gc js r = Ret (gc', js', r')" "\<not> about (ce_nacl E) rd e"
  shows "round_same rd gc gc'"
proof (cases e)
  case (Proceed now j)
  with assms have "j \<noteq> AskJob rd" by (auto simp: about_def)
  with Proceed assms(1) show ?thesis by (auto simp: outcome_simps dest: goroutine_step_same)
next
  case (Received now env)
  with assms show ?thesis by (auto simp: outcome_simps dest: client_receive_same)
next
  case (Redraw V current x y)
  with assms(1) show ?thesis by (auto simp: outcome_simps round_same_def dest!: layout_frame)
qed (use assms(1) in \<open>auto simp: outcome_simps connect_client_same dest: handleLine_same\<close>)

lemma client_run_same:
  assumes "client_run E x0 tr x" "\<forall>e \<in> set tr. \<not> about (ce_nacl E) rd e"
  shows "round_same rd (fst x0) (fst x)"
  using assms
proof induction
  case (step tr gc js r e y)
  then have "round_same rd gc (fst y)" using client_step_same by (metis fst_conv in_set_conv_decomp prod.collapse)
  with step show ?case using round_same_trans by fastforce
qed simp

section \<open>The invariant over runs\<close>

definition process_ok :: "GuiClient \<Rightarrow> client_job list \<Rightarrow> bool" where
  "process_ok gc js \<longleftrightarrow> client_ok gc \<and> (\<forall>rd. AskJob rd \<in> set js \<longrightarrow> connected gc)"

lemma other_round: "\<exists>rd. \<not> about N rd e"
  by (cases e; cases "about N 0 e") (auto simp: about_def split: sum.splits msg.splits client_job.splits intro: exI [of _ 1])

lemma goroutine_step_left: "goroutine_step E now j gc r = Ret (js, gc', r') \<Longrightarrow> AskJob rd \<notin> set js"
  by (cases j) (auto simp: outcome_simps)

lemma client_step_connected:
  assumes "client_step E e gc js r = Ret (gc', js', r')" "connected gc"
  shows "connected gc'"
  using client_step_same [OF assms(1)] other_round round_same_connected assms(2) by blast

lemma client_receive_ok:
  assumes "client_ok gc" "connected gc" "client_receive E now e gc r = Ret (js, gc', r')"
  shows "client_ok gc'"
  using assms(3)
proof (cases rule: client_receive_cases)
  case announce
  with assms show ?thesis by (auto intro: registerRound_ok)
next
  case other
  from client_read_ok [OF assms(1) other(1,3)] show ?thesis .
qed

lemma client_step_ok:
  assumes "process_ok gc js" "enabled e gc js" "client_step E e gc js r = Ret (gc', js', r')"
  shows "process_ok gc' js'"
proof -
  have ok: "client_ok gc" using assms(1) by (simp add: process_ok_def)
  have "client_ok gc'"
  proof (cases e)
    case (Redraw V current x y)
    with assms(3) obtain res where "layout (ce_float E) V current x y gc = Ret (res, gc')" by (auto simp: outcome_simps)
    then have "client_ok gc' = client_ok gc" by (intro client_ok_cong) (auto dest!: layout_frame)
    with ok show ?thesis by simp
  qed (use assms(2,3) ok in \<open>auto simp: outcome_simps enabled_def connect_client_ok dest: handleLine_ok goroutine_step_ok client_receive_ok\<close>)
  moreover have "connected gc'" if "AskJob rd \<in> set js'" for rd
  proof -
    have "connected gc"
      using that assms by (cases e) (auto simp: outcome_simps enabled_def process_ok_def dest: notin_set_remove1 goroutine_step_left)
    then show ?thesis by (rule client_step_connected [OF assms(3)])
  qed
  ultimately show ?thesis by (simp add: process_ok_def)
qed

lemma client_run_ok:
  assumes "client_run E x0 tr x" "process_ok (fst x0) (fst (snd x0))"
  shows "process_ok (fst x) (fst (snd x))"
  using assms by induction (auto dest: client_step_ok)

lemma process_ok_ask:
  assumes "process_ok gc js" "AskJob rd \<in> set js"
  shows "\<exists>cl p c. gc_client gc = Some cl \<and> ws cl \<and> convoHandler cl = Some p \<and> conversations gc p = Some c"
proof -
  have ok: "client_ok gc" and "connected gc" using assms by (auto simp: process_ok_def)
  then obtain cl where cl: "gc_client gc = Some cl" "ws cl" by (auto simp: connected_def split: option.splits)
  with client_okD(1) [OF ok cl(1)] show ?thesis by (auto simp: handlers_ok_def)
qed

lemma client_Send_frame:
  assumes "client_Send W v gc = Ret gc'"
  shows "conversations gc' = conversations gc"
    and "gc_client gc = Some cl \<Longrightarrow> \<exists>cl'. gc_client gc' = Some cl' \<and> roundHandlers cl' = roundHandlers cl"
  using assms by (auto simp: client_Send_def Client_Send_def Client_Close_def deref_def outcome_simps split: option.splits sum.splits if_splits)

section \<open>Properties\<close>

text \<open>
  C13: the client.  From the start of a user whom the directory lists, whatever is typed, whatever the entry
  server sends once connected, and however the goroutines of messages and of connecting are interleaved with
  it: a conversation is selected; every conversation is with the peer it is filed under, with the user's own
  keys; the handler of the connection and the handler of every round are conversations of the client, and a
  goroutine that is about to ask the handler for a request finds one; no queue exceeds its channel; and the
  window can be drawn, with the partner of the selected conversation in its prompt.
\<close>

theorem client_invariant:
  assumes "People (gc_pki gc) (myName gc) = Some pk" "gc_client gc = None" "Run_start gc = Ret gc0"
    and "client_run E (gc0, [], r0) tr (gc', js, r')"
  shows "(\<exists>p c. selectedConvo gc' = Some p \<and> conversations gc' p = Some c)
    \<and> (\<forall>p c. conversations gc' p = Some c \<longrightarrow> peerName c = p \<and> co_pki c = gc_pki gc' \<and> myPublicKey c = gc_myPublicKey gc'
        \<and> myPrivateKey c = gc_myPrivateKey gc' \<and> length (outQueue c) \<le> 64)
    \<and> (\<forall>cl p. gc_client gc' = Some cl \<and> convoHandler cl = Some p \<longrightarrow> (\<exists>c. conversations gc' p = Some c))
    \<and> (\<forall>cl rd h. gc_client gc' = Some cl \<and> roundHandlers cl rd = Some h \<longrightarrow> (\<exists>p c. h = Some p \<and> conversations gc' p = Some c))
    \<and> (\<forall>rd. AskJob rd \<in> set js \<longrightarrow>
        (\<exists>cl p c. gc_client gc' = Some cl \<and> ws cl \<and> convoHandler cl = Some p \<and> conversations gc' p = Some c))
    \<and> (\<exists>d. gc_dialer gc' = Some d \<and> length (userDialRequests d) \<le> 4)
    \<and> (\<exists>p c res gc2. selectedConvo gc' = Some p \<and> conversations gc' p = Some c \<and> layout F V current x y gc' = Ret (res, gc2)
        \<and> (\<forall>screen. res = Inr screen \<longrightarrow> partner_text screen = (if Solo c then ''(no partner)'' else p) @ ''>''))"
proof -
  have "process_ok gc0 []" using Run_start_ok [OF assms(1,2)] assms(3) by (auto simp: process_ok_def)
  then have pok: "process_ok gc' js" using client_run_ok [OF assms(4)] by simp
  then have ok: "client_ok gc'" by (simp add: process_ok_def)
  then obtain p c where sel: "selectedConvo gc' = Some p" "conversations gc' p = Some c" "peerName c = p"
    by (auto simp: client_ok_def convo_fits_def)
  from layout_returns [OF sel(1,2), of F V current x y] obtain res gc2 where
    "layout F V current x y gc' = Ret (res, gc2)" "\<forall>screen. res = Inr screen \<longrightarrow> partner_text screen = partner_name c @ ''>''" by blast
  then have window: "\<exists>p c res gc2. selectedConvo gc' = Some p \<and> conversations gc' p = Some c \<and> layout F V current x y gc' = Ret (res, gc2)
        \<and> (\<forall>screen. res = Inr screen \<longrightarrow> partner_text screen = (if Solo c then ''(no partner)'' else p) @ ''>'')"
    using sel by (intro exI conjI) (assumption | simp add: partner_name_def)+
  have asks: "\<forall>rd. AskJob rd \<in> set js \<longrightarrow>
      (\<exists>cl p c. gc_client gc' = Some cl \<and> ws cl \<and> convoHandler cl = Some p \<and> conversations gc' p = Some c)"
    using process_ok_ask [OF pok] by blast
  have handler: "\<forall>cl p. gc_client gc' = Some cl \<and> convoHandler cl = Some p \<longrightarrow> (\<exists>c. conversations gc' p = Some c)"
    and rounds: "\<forall>cl rd h. gc_client gc' = Some cl \<and> roundHandlers cl rd = Some h \<longrightarrow> (\<exists>p c. h = Some p \<and> conversations gc' p = Some c)"
    using client_okD(1) [OF ok] unfolding handlers_ok_def by blast+
  have fits: "\<forall>p c. conversations gc' p = Some c \<longrightarrow> peerName c = p \<and> co_pki c = gc_pki gc' \<and> myPublicKey c = gc_myPublicKey gc'
        \<and> myPrivateKey c = gc_myPrivateKey gc' \<and> length (outQueue c) \<le> 64"
    and dialer: "\<exists>d. gc_dialer gc' = Some d \<and> length (userDialRequests d) \<le> 4"
    using ok by (auto simp: client_ok_def convo_fits_def)
  show ?thesis by (intro conjI exI [of _ p] exI [of _ c] sel(1,2) fits handler rounds asks dialer window)
qed

text \<open>
  C14: which conversation gets a response.  Between the announcement of a round, the request for it and its
  response the user may switch to other conversations and any other messages may arrive.  The response is
  handled by the conversation \<open>p\<close> that was the handler at the announcement, and the request is made by the
  conversation \<open>q\<close> that is the handler when the announcement's goroutine reads it again.  When they are the same,
  that conversation still has the keys of its request when the response arrives, and what it prints carries its
  peer's name.  When the user has switched between the two reads, the response of the request of \<open>q\<close> goes to \<open>p\<close>,
  which made no request: nothing is printed, and \<open>q\<close> waits for the round for ever.
\<close>

theorem response_finds_conversation:
  assumes "client_ok gc" "gc_client gc = Some cl" "convoHandler cl = Some p" "conversations gc p = Some c0"
    and "Envelope_Open (ce_nacl E) env = Inr (AnnounceConvoRound rd)" "client_step E (Received t0 (Inr env)) gc js r = Ret (gc1, js1, r1)"
    and "client_run E (gc1, js1, r1) tr1 (gc2, js2, r2)" "\<forall>e \<in> set tr1. \<not> about (ce_nacl E) rd e"
    and "client_step E (Proceed now (AskJob rd)) gc2 js2 r2 = Ret (gc3, js3, r3)" "gc_client gc2 = Some cl2" "convoHandler cl2 = Some q"
    and "client_run E (gc3, js3, r3) tr2 (gc4, js4, r4)" "\<forall>e \<in> set tr2. \<not> about (ce_nacl E) rd e"
  shows "\<exists>c v c3 c4. conversations gc2 q = Some c \<and> NextConvoRequest (ce_nacl E) now rd c r2 = Ret ((v, c3), r3) \<and> conversations gc3 q = Some c3
    \<and> conversations gc4 p = Some c4 \<and> peerName c4 = p
    \<and> (\<forall>now' onion line c5. HandleConvoResponse (ce_nacl E) now' rd onion c4 = Ret (line, c5) \<longrightarrow>
        (\<exists>gc5. handleResponse (ce_nacl E) B names W now' (ConvoResponse rd onion) gc4 r4 = Ret (gc5, r4) \<and> conversations gc5 = (conversations gc4)(p \<mapsto> c5)
          \<and> main_view gc5 = map_option (\<lambda>text. text @ (case line of None \<Rightarrow> [] | Some l \<Rightarrow> l)) (main_view gc4)))
    \<and> (q = p \<longrightarrow> pendingRounds c4 rd = pendingRounds c3 rd \<and> pendingRounds c3 rd \<noteq> None)
    \<and> (q \<noteq> p \<and> pendingRounds c0 rd = None \<longrightarrow>
        (\<forall>now' onion. \<exists>gc5 cq. handleResponse (ce_nacl E) B names W now' (ConvoResponse rd onion) gc4 r4 = Ret (gc5, r4) \<and> main_view gc5 = main_view gc4
          \<and> conversations gc5 q = Some cq \<and> pendingRounds cq rd \<noteq> None))"
proof -
  have reg: "registerRound rd gc = Ret gc1" using assms(5,6) by (auto simp: client_receive_def outcome_simps)
  have cl1: "\<exists>cl1. gc_client gc1 = Some cl1 \<and> roundHandlers cl1 rd = Some (Some p)" "conversations gc1 = conversations gc"
    using reg assms(2,3) by (auto simp: registerRound_def deref_def)
  have same1: "round_same rd gc1 gc2" and same2: "round_same rd gc3 gc4" using client_run_same assms(7,8,12,13) by fastforce+
  obtain c2 where c2: "conversations gc2 p = Some c2" "pendingRounds c2 rd = pendingRounds c0 rd" "peerName c2 = peerName c0"
    using same1 assms(4) cl1(2) unfolding round_same_def by metis
  obtain v gca where ask: "askHandler (ce_nacl E) now rd gc2 r2 = Ret ((v, gca), r3)" and send: "client_Send (ce_ws E) v gca = Ret gc3"
    using assms(9) by (auto simp: outcome_simps)
  obtain c c3 where c: "conversations gc2 q = Some c" "NextConvoRequest (ce_nacl E) now rd c r2 = Ret ((v, c3), r3)" "gca = set_convo q c3 gc2"
    using ask assms(10,11) by (auto simp: askHandler_def deref_def outcome_simps split: option.splits)
  have conv3: "conversations gc3 = (conversations gc2)(q \<mapsto> c3)" and cl3: "\<exists>cl3. gc_client gc3 = Some cl3 \<and> roundHandlers cl3 rd = Some (Some p)"
    using client_Send_frame [OF send] same1 cl1(1) c(3) by (auto simp: round_same_def)
  have at_p: "conversations gc3 p = Some (if q = p then c3 else c2)" using c2(1) by (simp add: conv3)
  obtain c4 where c4: "conversations gc4 p = Some c4" "pendingRounds c4 rd = pendingRounds (if q = p then c3 else c2) rd"
      "peerName c4 = peerName (if q = p then c3 else c2)"
    using round_sameD [OF same2 at_p] by auto
  obtain cq where cq: "conversations gc4 q = Some cq" "pendingRounds cq rd = pendingRounds c3 rd"
    using round_sameD [OF same2, of q c3] conv3 by auto
  have cl4: "\<exists>cl4. gc_client gc4 = Some cl4 \<and> roundHandlers cl4 rd = Some (Some p)" using same2 cl3 unfolding round_same_def by metis
  have deliver: "\<exists>gc5. handleResponse (ce_nacl E) B names W now' (ConvoResponse rd onion) gc4 r4 = Ret (gc5, r4) \<and> conversations gc5 = (conversations gc4)(p \<mapsto> c5)
      \<and> main_view gc5 = map_option (\<lambda>text. text @ (case line of None \<Rightarrow> [] | Some l \<Rightarrow> l)) (main_view gc4)"
    if "HandleConvoResponse (ce_nacl E) now' rd onion c4 = Ret (line, c5)" for now' onion line c5
    using that cl4 c4(1) by (cases line) (auto simp: handleResponse_def deliverConvoResponse_def deref_def gui_print_def option.map_ident)
  have pend: "pendingRounds c3 rd \<noteq> None" using NextConvoRequest_fits(7) [OF c(2)] by auto
  have "peerName c2 = p" using c2(3) client_okD(2) [OF assms(1,4)] by (simp add: convo_fits_def)
  then have name: "peerName c4 = p" using c4(3) NextConvoRequest_fits(1) [OF c(2)] c(1) c2(1) by (cases "q = p") simp_all
  have lost: "\<exists>gc5 cq. handleResponse (ce_nacl E) B names W now' (ConvoResponse rd onion) gc4 r4 = Ret (gc5, r4) \<and> main_view gc5 = main_view gc4
      \<and> conversations gc5 q = Some cq \<and> pendingRounds cq rd \<noteq> None" if "q \<noteq> p" "pendingRounds c0 rd = None" for now' onion
  proof -
    have "HandleConvoResponse (ce_nacl E) now' rd onion c4 = Ret (None, c4\<lparr>pendingRounds := (pendingRounds c4)(rd := None), lastPeerResponding := False\<rparr>)"
      using that c4(2) c2(2) by (simp add: HandleConvoResponse_def)
    from deliver [OF this] show ?thesis using that(1) cq pend by (auto simp: option.map_ident)
  qed
  have kept: "q = p \<longrightarrow> pendingRounds c4 rd = pendingRounds c3 rd \<and> pendingRounds c3 rd \<noteq> None" using c4(2) pend by simp
  have "conversations gc3 q = Some c3" by (simp add: conv3)
  then show ?thesis
    by (intro exI [of _ c] exI [of _ v] exI [of _ c3] exI [of _ c4] conjI kept c(1,2) c4(1) name allI impI deliver lost) auto
qed

text \<open>
  C37: what goes wrong at the window.  A user whom the directory does not list starts without a conversation:
  drawing the window panics, as long as the window library reports no error, and so would a line that is no
  command and the attempt to connect.  The 65th line waiting to be sent and the fifth dial request block the
  window.  After a failed attempt to connect the program still reports that it is connected.
\<close>

theorem client_errors:
  "(People (gc_pki gc) (myName gc) = None \<and> selectedConvo gc = None \<longrightarrow>
      (\<exists>gc'. Run_start gc = Ret gc' \<and> selectedConvo gc' = None
        \<and> ((\<forall>name err. V name \<noteq> view_error err) \<longrightarrow> layout F V current x y gc' = Panic)
        \<and> (line \<noteq> ''/quit'' \<and> take 6 line \<noteq> ''/talk '' \<and> take 6 line \<noteq> ''/dial '' \<longrightarrow> handleLine path line gc' = Panic)
        \<and> Run_connect B dial gc' = Panic))
    \<and> (selectedConvo gc = Some p \<and> conversations gc p = Some c \<and> length (outQueue c) = 64
        \<and> line \<noteq> ''/quit'' \<and> take 6 line \<noteq> ''/talk '' \<and> take 6 line \<noteq> ''/dial '' \<longrightarrow> handleLine path line gc = Hang)
    \<and> (gc_dialer gc = Some d \<and> length (userDialRequests d) = 4 \<and> People (gc_pki gc) peer = Some pk \<longrightarrow> handleLine path (''/dial '' @ peer) gc = Hang)
    \<and> (\<forall>err gc1. gui_Connect B dial gc = Ret (Some err, gc1) \<and> main_view gc1 = Some text \<longrightarrow>
        (\<exists>gc2. Run_connect B dial gc = Ret gc2 \<and> main_view gc2 = Some (text @ Warnf (''Failed to connect: '' @ err_text err @ [CHR 0x0A])
          @ Warnf (''Connected: '' @ EntryServer (gc_pki gc1) @ [CHR 0x0A]))))"
proof -
  have "\<exists>gc'. Run_start gc = Ret gc' \<and> selectedConvo gc' = None
        \<and> ((\<forall>name err. V name \<noteq> view_error err) \<longrightarrow> layout F V current x y gc' = Panic)
        \<and> (line \<noteq> ''/quit'' \<and> take 6 line \<noteq> ''/talk '' \<and> take 6 line \<noteq> ''/dial '' \<longrightarrow> handleLine path line gc' = Panic)
        \<and> Run_connect B dial gc' = Panic" if "People (gc_pki gc) (myName gc) = None" "selectedConvo gc = None"
    using that by (cases "gc_client gc") (simp_all add: Run_start_def switchConversation_def handleLine_def queue_line_def Run_connect_def gui_Connect_def connect_client_def
        activateSelected_def deref_def Let_def layout_unselected)
  then show ?thesis
    by (auto simp: handleLine_def queue_line_def deref_def Let_def QueueTextMessage_def dial_line_def QueueRequest_def Run_connect_def connect_report_def gui_print_def)
qed

section \<open>Witnesses\<close>

text \<open>A run as a function of its events.\<close>

primrec client_exec :: "client_env \<Rightarrow> client_event list \<Rightarrow> process \<Rightarrow> process outcome" where
  "client_exec E [] x = Ret x"
| "client_exec E (e # tr) x =
     (case x of (gc, js, r) \<Rightarrow> if enabled e gc js then obind (client_step E e gc js r) (client_exec E tr) else Hang)"

lemma client_exec_run:
  "client_exec E tr x = Ret y \<Longrightarrow> client_run E x0 tr0 x \<Longrightarrow> client_run E x0 (tr0 @ tr) y"
proof (induction tr arbitrary: tr0 x)
  case (Cons e tr)
  obtain gc js r where x: "x = (gc, js, r)" by (cases x) auto
  with Cons.prems(1) obtain z where z: "enabled e gc js" "client_step E e gc js r = Ret z" "client_exec E tr z = Ret y"
    by (auto simp: outcome_simps split: if_splits)
  have "client_run E x0 (tr0 @ [e]) z" using Cons.prems(2) z unfolding x by (auto intro: client_run.step)
  from Cons.IH [OF z(3) this] show ?case by simp
qed simp

lemmas client_exec_start = client_exec_run [OF _ client_run.start, simplified]

definition sample_people :: PKI where
  "sample_people = \<lparr>People = [''ann'' \<mapsto> replicate 32 2, ''ben'' \<mapsto> replicate 32 3],
     Servers = [''a'' \<mapsto> Some \<lparr>Address = ''h:1'', PublicKey = Some (replicate 32 1)\<rparr>], ServerOrder = [''a''], EntryServer = ''ws://e''\<rparr>"

definition ann :: GuiClient where
  "ann = \<lparr>gc_pki = sample_people, myName = ''ann'', gc_myPublicKey = replicate 32 2, gc_myPrivateKey = replicate 32 2, main_view = Some [],
     gc_client = None, selectedConvo = None, conversations = Map.empty, gc_dialer = None\<rparr>"

definition sample_client_env :: client_env where
  "sample_client_env = \<lparr>ce_nacl = clear_box, ce_base32 = \<lparr>base32_EncodeToString = (\<lambda>_. []), base32_DecodeString = (\<lambda>_. Inl ShortKey)\<rparr>,
     ce_names = [''ann'', ''ben''], ce_ws = (\<lambda>_ _. True), ce_dial = (\<lambda>_. None), ce_pkiPath = ''pki'', ce_float = exact_float64\<rparr>"

lemma sample_client_env_sel [simp]:
  "ce_nacl sample_client_env = clear_box" "ce_ws sample_client_env = (\<lambda>_ _. True)" "ce_dial sample_client_env = (\<lambda>_. None)"
  "ce_pkiPath sample_client_env = ''pki''"
  by (simp_all add: sample_client_env_def)

definition connecting :: "client_event list" where
  "connecting = [Connecting, Proceed 0 SelectJob, Proceed 0 (ActivateJob (Some ''ann'')), Proceed 0 HandshakeJob, Proceed 0 (ReportJob None)]"

definition round_7 :: Envelope where
  "round_7 = enveloped (AnnounceConvoRound 7)"

lemma Open_round_7 [simp]: "Envelope_Open clear_box round_7 = Inr (AnnounceConvoRound 7)"
  unfolding round_7_def using Open_enveloped [of clear_box "AnnounceConvoRound 7"] by simp

text \<open>A user who starts and connects.\<close>

lemma ann_connected:
  "\<exists>gc0 gc cl c. Run_start ann = Ret gc0 \<and> client_exec sample_client_env connecting (gc0, [], r) = Ret (gc, [], r)
    \<and> gc_client gc = Some cl \<and> ws cl \<and> convoHandler cl = Some ''ann'' \<and> roundHandlers cl = Map.empty \<and> gc_pki gc = sample_people
    \<and> conversations gc = [''ann'' \<mapsto> c] \<and> co_pki c = sample_people \<and> pendingRounds c = Map.empty"
  by (simp add: Run_start_def switchConversation_def switch_to_def activateConvo_def ann_def sample_people_def new_conversation_def
      Conversation_Init_def connecting_def enabled_def connect_client_def SetDialHandler_def NewClient_def activateSelected_def deref_def
      SetConvoHandler_def connect_handshake_def Client_Connect_def connect_report_def gui_print_def)
    (intro exI conjI, rule refl, simp_all)

text \<open>A round is announced, the user turns to someone else, and a request is made.\<close>

lemma announce_step:
  "gc_client gc = Some cl \<Longrightarrow> client_step sample_client_env (Received 0 (Inr round_7)) gc js r
     = Ret (set_client (cl\<lparr>roundHandlers := (roundHandlers cl)(7 \<mapsto> convoHandler cl)\<rparr>) gc, js @ [AskJob 7], r)"
  by (simp add: client_receive_def registerRound_def deref_def)

lemma talk_step:
  assumes "gc_client gc = Some cl" "conversations gc ''ben'' = None" "gc_pki gc = sample_people"
  shows "\<exists>gc' c. client_step sample_client_env (Line ''/talk ben'') gc js r = Ret (gc', js, r) \<and> gc_client gc' = Some (cl\<lparr>convoHandler := Some ''ben''\<rparr>)
    \<and> gc_pki gc' = sample_people \<and> conversations gc' = (conversations gc)(''ben'' \<mapsto> c) \<and> co_pki c = sample_people \<and> pendingRounds c = Map.empty"
  using assms by (simp add: handleLine_def switchConversation_def switch_to_def activateConvo_def SetConvoHandler_def new_conversation_def
      Conversation_Init_def sample_people_def deref_def) (intro exI conjI, rule refl, simp_all)

lemma ask_step:
  assumes "gc_client gc = Some cl" "ws cl" "convoHandler cl = Some p" "conversations gc p = Some c" "co_pki c = sample_people"
  shows "\<exists>gc' cl' c' r'. client_step sample_client_env (Proceed 0 (AskJob rd)) gc js r = Ret (gc', remove1 (AskJob rd) js, r')
    \<and> gc_client gc' = Some cl' \<and> gc_pki gc' = gc_pki gc \<and> conversations gc' = (conversations gc)(p \<mapsto> c')"
proof -
  have "ServerKeys (co_pki c) = Ret [Some (replicate 32 1)]" by (simp add: assms(5) sample_people_def ServerKeys_def server_info_def deref_def)
  from NextConvoRequest_total [OF clear_box_ok this, of 0 rd r] obtain onion c' r' where
    "NextConvoRequest clear_box 0 rd c r = Ret ((ConvoRequest rd onion, c'), r')" by auto
  then show ?thesis using assms(1-4)
    by (simp add: askHandler_def client_Send_def Client_Send_def Client_Close_def deref_def Envelop_def) blast
qed

theorem client_invariant_witness:
  "\<exists>gc0 gc. Run_start ann = Ret gc0
    \<and> client_run sample_client_env (gc0, [], \<lambda>_. 0) (connecting @ [Received 0 (Inr round_7), Line ''/talk ben'']) (gc, [AskJob 7], \<lambda>_. 0)
    \<and> (\<exists>cl p c. gc_client gc = Some cl \<and> ws cl \<and> convoHandler cl = Some p \<and> conversations gc p = Some c)"
proof -
  obtain gc0 gc1 cl c where gc1: "Run_start ann = Ret gc0" "client_exec sample_client_env connecting (gc0, [], \<lambda>_. 0) = Ret (gc1, [], \<lambda>_. 0)"
    "gc_client gc1 = Some cl" "ws cl" "gc_pki gc1 = sample_people" "conversations gc1 = [''ann'' \<mapsto> c]"
    using ann_connected [of "\<lambda>_. 0"] by blast
  let ?gc2 = "set_client (cl\<lparr>roundHandlers := (roundHandlers cl)(7 \<mapsto> convoHandler cl)\<rparr>) gc1"
  obtain gc3 where talk: "client_step sample_client_env (Line ''/talk ben'') ?gc2 [AskJob 7] (\<lambda>_. 0) = Ret (gc3, [AskJob 7], \<lambda>_. 0)"
    using talk_step [of ?gc2 _ "[AskJob 7]" "\<lambda>_. 0"] gc1(5,6) by auto
  have "client_exec sample_client_env [Received 0 (Inr round_7), Line ''/talk ben''] (gc1, [], \<lambda>_. 0) = Ret (gc3, [AskJob 7], \<lambda>_. 0)"
    using gc1(3,4) talk by (simp add: announce_step enabled_def connected_def del: client_step.simps)
  from client_exec_run [OF this client_exec_start [OF gc1(2)]]
  have run: "client_run sample_client_env (gc0, [], \<lambda>_. 0) (connecting @ [Received 0 (Inr round_7), Line ''/talk ben'']) (gc3, [AskJob 7], \<lambda>_. 0)" .
  have "People (gc_pki ann) (myName ann) = Some (replicate 32 2)" "gc_client ann = None" by (simp_all add: ann_def sample_people_def)
  from client_invariant [OF this gc1(1) run] have "\<exists>cl p c. gc_client gc3 = Some cl \<and> ws cl \<and> convoHandler cl = Some p \<and> conversations gc3 p = Some c"
    by simp
  with gc1(1) run show ?thesis by (intro exI [of _ gc0] exI [of _ gc3] conjI)
qed

text \<open>
  The user turns to someone else after the request was made, and the response still finds the conversation; or
  between the two reads of the handler, and the response is lost.
\<close>

theorem response_finds_conversation_witness:
  "(\<exists>gc gc1 gc2 gc3 r c. client_step sample_client_env (Received 0 (Inr round_7)) gc [] (\<lambda>_. 0) = Ret (gc1, [AskJob 7], \<lambda>_. 0)
      \<and> client_step sample_client_env (Proceed 0 (AskJob 7)) gc1 [AskJob 7] (\<lambda>_. 0) = Ret (gc2, [], r)
      \<and> client_run sample_client_env (gc2, [], r) [Line ''/talk ben''] (gc3, [], r)
      \<and> conversations gc3 ''ann'' = Some c \<and> pendingRounds c 7 \<noteq> None)
    \<and> (\<exists>gc gc1 gc2 gc3 gc4 r c. client_step sample_client_env (Received 0 (Inr round_7)) gc [] (\<lambda>_. 0) = Ret (gc1, [AskJob 7], \<lambda>_. 0)
      \<and> client_run sample_client_env (gc1, [AskJob 7], \<lambda>_. 0) [Line ''/talk ben''] (gc2, [AskJob 7], \<lambda>_. 0)
      \<and> client_step sample_client_env (Proceed 0 (AskJob 7)) gc2 [AskJob 7] (\<lambda>_. 0) = Ret (gc3, [], r)
      \<and> handleResponse clear_box plain_base32 [] (\<lambda>_ _. True) 1 (ConvoResponse 7 []) gc3 r = Ret (gc4, r) \<and> main_view gc4 = main_view gc3
      \<and> conversations gc4 ''ben'' = Some c \<and> pendingRounds c 7 \<noteq> None)"
    (is "?kept \<and> ?lost")
proof -
  obtain gc0 gc cl c where gc0: "Run_start ann = Ret gc0" "client_exec sample_client_env connecting (gc0, [], \<lambda>_. 0) = Ret (gc, [], \<lambda>_. 0)"
    and gc: "gc_client gc = Some cl" "ws cl" "convoHandler cl = Some ''ann''" "gc_pki gc = sample_people" "conversations gc = [''ann'' \<mapsto> c]"
      "co_pki c = sample_people" "pendingRounds c = Map.empty"
    using ann_connected [of "\<lambda>_. 0"] by blast
  have "People (gc_pki ann) (myName ann) = Some (replicate 32 2)" "gc_client ann = None" by (simp_all add: ann_def sample_people_def)
  from Run_start_ok [OF this] gc0(1) have "process_ok gc0 []" by (auto simp: process_ok_def)
  with client_run_ok [OF client_exec_start [OF gc0(2)]] have ok: "client_ok gc" by (simp add: process_ok_def)
  have at: "conversations gc ''ann'' = Some c" by (simp add: gc(5))
  let ?cl1 = "cl\<lparr>roundHandlers := (roundHandlers cl)(7 \<mapsto> convoHandler cl)\<rparr>" and ?z = "\<lambda>_. 0 :: byte"
  let ?gc1 = "set_client ?cl1 gc"
  have opens: "Envelope_Open (ce_nacl sample_client_env) round_7 = Inr (AnnounceConvoRound 7)" by simp
  have ann: "client_step sample_client_env (Received 0 (Inr round_7)) gc [] ?z = Ret (?gc1, [AskJob 7], ?z)"
    using announce_step [OF gc(1), of "[]" ?z] by simp
  have quiet: "\<forall>e \<in> set []. \<not> about (ce_nacl sample_client_env) 7 e" "\<forall>e \<in> set [Line ''/talk ben'']. \<not> about (ce_nacl sample_client_env) 7 e"
    by (simp_all add: about_def)
  have ?kept
  proof -
    obtain gc2 cl2 c2 r where ask: "client_step sample_client_env (Proceed 0 (AskJob 7)) ?gc1 [AskJob 7] ?z = Ret (gc2, [], r)"
      and gc2: "gc_client gc2 = Some cl2" "gc_pki gc2 = sample_people" "conversations gc2 = [''ann'' \<mapsto> c2]"
      using ask_step [of ?gc1 ?cl1 "''ann''" c 7 "[AskJob 7]" ?z] gc by auto
    obtain gc3 where talk: "client_step sample_client_env (Line ''/talk ben'') gc2 [] r = Ret (gc3, [], r)"
      using talk_step [OF gc2(1) _ gc2(2), of "[]" r] gc2(3) by auto
    have run: "client_run sample_client_env (gc2, [], r) [Line ''/talk ben''] (gc3, [], r)"
      by (rule client_exec_start) (simp add: talk enabled_def del: client_step.simps)
    from response_finds_conversation [OF ok gc(1,3) at opens ann client_run.start quiet(1) ask _ _ run quiet(2), of ?cl1 "''ann''" plain_base32 "[]" "\<lambda>_ _. True"] gc(3)
    obtain c4 where "conversations gc3 ''ann'' = Some c4" "pendingRounds c4 7 \<noteq> None" by auto
    with ann ask run show ?thesis
      by (intro exI [of _ gc] exI [of _ ?gc1] exI [of _ gc2] exI [of _ gc3] exI [of _ r] exI [of _ c4] conjI)
  qed
  moreover have ?lost
  proof -
    obtain gc2 cb where talk: "client_step sample_client_env (Line ''/talk ben'') ?gc1 [AskJob 7] ?z = Ret (gc2, [AskJob 7], ?z)"
      and gc2: "gc_client gc2 = Some (?cl1\<lparr>convoHandler := Some ''ben''\<rparr>)" "gc_pki gc2 = sample_people" "conversations gc2 ''ben'' = Some cb" "co_pki cb = sample_people"
      using talk_step [of ?gc1 ?cl1 "[AskJob 7]" ?z] gc by auto
    have run: "client_run sample_client_env (?gc1, [AskJob 7], ?z) [Line ''/talk ben''] (gc2, [AskJob 7], ?z)"
      by (rule client_exec_start) (simp add: talk enabled_def del: client_step.simps)
    obtain gc3 r where ask: "client_step sample_client_env (Proceed 0 (AskJob 7)) gc2 [AskJob 7] ?z = Ret (gc3, [], r)"
      using ask_step [OF gc2(1) _ _ gc2(3,4), of 7 "[AskJob 7]" ?z] gc(2) by auto
    from response_finds_conversation [OF ok gc(1,3) at opens ann run quiet(2) ask gc2(1) _ client_run.start quiet(1), of "''ben''" plain_base32 "[]" "\<lambda>_ _. True"]
    have "\<forall>now onion. \<exists>gc4 cq. handleResponse clear_box plain_base32 [] (\<lambda>_ _. True) now (ConvoResponse 7 onion) gc3 r = Ret (gc4, r)
      \<and> main_view gc4 = main_view gc3 \<and> conversations gc4 ''ben'' = Some cq \<and> pendingRounds cq 7 \<noteq> None" using gc(7) by auto
    then obtain gc4 cq where "handleResponse clear_box plain_base32 [] (\<lambda>_ _. True) 1 (ConvoResponse 7 []) gc3 r = Ret (gc4, r)" "main_view gc4 = main_view gc3"
      "conversations gc4 ''ben'' = Some cq" "pendingRounds cq 7 \<noteq> None" by blast
    with ann run ask show ?thesis
      by (intro exI [of _ gc] exI [of _ ?gc1] exI [of _ gc2] exI [of _ gc3] exI [of _ gc4] exI [of _ r] exI [of _ cq] conjI)
  qed
  ultimately show ?thesis ..
qed

text \<open>A user with both queues full.\<close>

definition busy :: GuiClient where
  "busy = ann\<lparr>selectedConvo := Some ''ann'', conversations := [''ann'' \<mapsto> (new_conversation ''ann'' (replicate 32 2) ann)\<lparr>outQueue := replicate 64 []\<rparr>],
     gc_dialer := Some \<lparr>di_pki = sample_people, di_myPublicKey = replicate 32 2, di_myPrivateKey = replicate 32 2, userDialRequests = replicate 4 []\<rparr>\<rparr>"

theorem client_errors_witness:
  "(\<exists>gc'. Run_start (ann\<lparr>myName := ''eve''\<rparr>) = Ret gc' \<and> layout exact_float64 (\<lambda>_. view_new) None 80 24 gc' = Panic
      \<and> handleLine ''pki'' ''hi'' gc' = Panic \<and> Run_connect plain_base32 (\<lambda>_. None) gc' = Panic)
    \<and> handleLine ''pki'' ''hi'' busy = Hang \<and> handleLine ''pki'' ''/dial ben'' busy = Hang
    \<and> (\<exists>gc2. Run_connect plain_base32 (\<lambda>_. Some (Foreign ''down'')) busy = Ret gc2
      \<and> main_view gc2 = Some (Warnf (''Failed to connect: '' @ err_text (Foreign ''down'') @ [CHR 0x0A]) @ Warnf (''Connected: ws://e'' @ [CHR 0x0A])))"
proof (intro conjI)
  have "People (gc_pki (ann\<lparr>myName := ''eve''\<rparr>)) (myName (ann\<lparr>myName := ''eve''\<rparr>)) = None \<and> selectedConvo (ann\<lparr>myName := ''eve''\<rparr>) = None"
    by (simp add: ann_def sample_people_def)
  with client_errors [of "ann\<lparr>myName := ''eve''\<rparr>" "\<lambda>_. view_new" exact_float64 None 80 24 "''hi''" "''pki''" plain_base32 "\<lambda>_. None", THEN conjunct1]
  show "\<exists>gc'. Run_start (ann\<lparr>myName := ''eve''\<rparr>) = Ret gc' \<and> layout exact_float64 (\<lambda>_. view_new) None 80 24 gc' = Panic
      \<and> handleLine ''pki'' ''hi'' gc' = Panic \<and> Run_connect plain_base32 (\<lambda>_. None) gc' = Panic" by auto
  show "handleLine ''pki'' ''hi'' busy = Hang"
    using client_errors [of busy "\<lambda>_. view_new" exact_float64 None 80 24 "''hi''" "''pki''" plain_base32 "\<lambda>_. None" "''ann''", THEN conjunct2, THEN conjunct1]
    by (simp add: busy_def)
  show "handleLine ''pki'' ''/dial ben'' busy = Hang"
    using client_errors [where gc = busy and path = "''pki''" and peer = "''ben''" and d = "the (gc_dialer busy)" and pk = "replicate 32 3",
      THEN conjunct2, THEN conjunct2, THEN conjunct1]
    by (simp add: busy_def ann_def sample_people_def)
  obtain gc1 where "gui_Connect plain_base32 (\<lambda>_. Some (Foreign ''down'')) busy = Ret (Some (Foreign ''down''), gc1)" "main_view gc1 = Some []"
    "gc_pki gc1 = sample_people"
    by (simp add: gui_Connect_def connect_client_def busy_def ann_def activateSelected_def activateConvo_def deref_def SetConvoHandler_def
        SetDialHandler_def NewClient_def connect_handshake_def Client_Connect_def)
  with client_errors [of busy "\<lambda>_. view_new" exact_float64 None 80 24 "''hi''" "''pki''" plain_base32 "\<lambda>_. Some (Foreign ''down'')" _ _ _ _ _ "[]",
      THEN conjunct2, THEN conjunct2, THEN conjunct2]
  show "\<exists>gc2. Run_connect plain_base32 (\<lambda>_. Some (Foreign ''down'')) busy = Ret gc2
      \<and> main_view gc2 = Some (Warnf (''Failed to connect: '' @ err_text (Foreign ''down'') @ [CHR 0x0A]) @ Warnf (''Connected: ws://e'' @ [CHR 0x0A]))"
    by (auto simp: sample_people_def)
qed

end
