(* ===== verification/Config.thy ===== *)
theory Config
  imports Client Talk
begin

text \<open>
  Reading and writing the client's configuration: \<^verbatim>\<open>internal/json.go\<close>, the JSON methods of \<^verbatim>\<open>boxkey.go\<close> and \<^verbatim>\<open>main\<close> of
  \<^verbatim>\<open>vuvuzela-client/main.go\<close>.  The file system maps a path to the document of the file, or to the error of
  opening it; a file that is not JSON counts as one that cannot be read.  A fatal exit is an \<open>Inl\<close>.  Flags are arguments.
\<close>

type_synonym files = "string \<Rightarrow> gerr + json"

definition ReadJSONFile :: "'a decoder \<Rightarrow> 'a \<Rightarrow> files \<Rightarrow> string \<Rightarrow> gerr + 'a" where
  "ReadJSONFile decode val fs path =
     (case fs path of
        Inl err \<Rightarrow> Inl err
      | Inr j \<Rightarrow> (case decode val j of Inl err \<Rightarrow> Inl (Wrapped ''json decoding error'' err) | Inr v \<Rightarrow> Inr v))"

section \<open>Keys\<close>

definition BoxKey_MarshalJSON :: "base32 \<Rightarrow> bytes \<Rightarrow> json" where
  "BoxKey_MarshalJSON B k = JStr (BoxKey_String B k)"

text \<open>A field of type \<^verbatim>\<open>*BoxKey\<close>: \<^verbatim>\<open>null\<close> makes it nil, anything else goes to \<^verbatim>\<open>UnmarshalJSON\<close> of the key it points at or a new one.\<close>

definition dec_key :: "base32 \<Rightarrow> bytes option decoder" where
  "dec_key B old j =
     (case j of
        JNull \<Rightarrow> Inr None
      | _ \<Rightarrow>
          (case BoxKey_UnmarshalJSON B (dec_string [] j) (case old of None \<Rightarrow> replicate 32 0 | Some k \<Rightarrow> k) of
             (Some err, _) \<Rightarrow> Inl err
           | (None, k) \<Rightarrow> Inr (Some k)))"

definition enc_key :: "base32 \<Rightarrow> bytes option \<Rightarrow> json" where
  "enc_key B x = (case x of None \<Rightarrow> JNull | Some k \<Rightarrow> BoxKey_MarshalJSON B k)"

section \<open>The configuration\<close>

definition dec_Conf :: "base32 \<Rightarrow> Conf decoder" where
  "dec_Conf B = dec_struct
     [(''MyName'', \<lambda>c j. map_sum id (\<lambda>x. c\<lparr>conf_MyName := x\<rparr>) (dec_string (conf_MyName c) j)),
      (''MyPublicKey'', \<lambda>c j. map_sum id (\<lambda>x. c\<lparr>conf_MyPublicKey := x\<rparr>) (dec_key B (conf_MyPublicKey c) j)),
      (''MyPrivateKey'', \<lambda>c j. map_sum id (\<lambda>x. c\<lparr>conf_MyPrivateKey := x\<rparr>) (dec_key B (conf_MyPrivateKey c) j))]"

definition enc_Conf :: "base32 \<Rightarrow> Conf \<Rightarrow> json" where
  "enc_Conf B c = JObj [(''MyName'', JStr (conf_MyName c)), (''MyPublicKey'', enc_key B (conf_MyPublicKey c)),
     (''MyPrivateKey'', enc_key B (conf_MyPrivateKey c))]"

definition new_Conf :: Conf where
  "new_Conf = \<lparr>conf_MyName = [], conf_MyPublicKey = None, conf_MyPrivateKey = None\<rparr>"

text \<open>\<open>write\<close> is the error of writing the file, if any.\<close>

definition WriteDefaultConf :: "nacl \<Rightarrow> base32 \<Rightarrow> gerr option \<Rightarrow> string \<Rightarrow> files \<Rightarrow> rng \<Rightarrow> (gerr + files) \<times> rng" where
  "WriteDefaultConf N B write path fs r =
     (case default_conf N r of
        (None, r) \<Rightarrow> (Inl (Foreign ''GenerateBoxKey''), r)
      | (Some conf, r) \<Rightarrow>
          (case write of
             Some err \<Rightarrow> (Inl (Wrapped ''WriteFile'' err), r)
           | None \<Rightarrow> (Inr (fs(path := Inr (enc_Conf B conf))), r)))"

text \<open>The client that \<^verbatim>\<open>main\<close> runs without the flag \<^verbatim>\<open>-init\<close>, with the directory it has read.\<close>

definition client_main :: "base32 \<Rightarrow> PKI \<Rightarrow> string \<Rightarrow> files \<Rightarrow> gerr + GuiClient" where
  "client_main B pki confPath fs =
     (case ReadJSONFile (dec_Conf B) new_Conf fs confPath of
        Inl err \<Rightarrow> Inl err
      | Inr conf \<Rightarrow> (case gui_of_conf pki conf of None \<Rightarrow> Inl (Foreign ''missing required fields'') | Some gc \<Rightarrow> Inr gc))"

section \<open>Round trip\<close>

lemma dec_enc_key [simp]:
  assumes "\<And>b. base32_DecodeString B (base32_EncodeToString B b) = Inr b" "\<forall>k. x = Some k \<longrightarrow> length k = 32"
  shows "dec_key B None (enc_key B x) = Inr x"
  using assms
  by (auto simp: dec_key_def enc_key_def BoxKey_MarshalJSON_def BoxKey_UnmarshalJSON_def BoxKey_String_def split: option.split)

lemma dec_enc_Conf:
  assumes "\<And>b. base32_DecodeString B (base32_EncodeToString B b) = Inr b"
    and "\<forall>k. conf_MyPublicKey c = Some k \<longrightarrow> length k = 32" "\<forall>k. conf_MyPrivateKey c = Some k \<longrightarrow> length k = 32"
  shows "dec_Conf B new_Conf (enc_Conf B c) = Inr c"
  using dec_enc_key [OF assms(1,2)] dec_enc_key [OF assms(1,3)]
  by (simp add: dec_Conf_def enc_Conf_def new_Conf_def dec_struct_def struct_field_def)

text \<open>
  The file that \<^verbatim>\<open>-init\<close> writes is refused until the user has filled in a name, and then starts the client with the keys that
  were generated, which belong together.
\<close>

theorem default_conf_starts:
  assumes "\<And>b. base32_DecodeString B (base32_EncodeToString B b) = Inr b" "nacl_ok N"
    and "WriteDefaultConf N B None path fs r = (Inr fs', r')"
  shows "client_main B pki path fs' = Inl (Foreign ''missing required fields'')
    \<and> (\<exists>sk keys. fs' path = Inr (JObj ((''MyName'', JStr []) # keys))
        \<and> (\<forall>name. name \<noteq> [] \<longrightarrow> (\<exists>gc. client_main B pki path (fs'(path := Inr (JObj ((''MyName'', JStr name) # keys)))) = Inr gc
            \<and> myName gc = name \<and> gc_pki gc = pki \<and> gc_myPrivateKey gc = sk \<and> gc_myPublicKey gc = box_PublicOf N sk)))"
proof -
  obtain sk where sk: "box_GenerateKey N r = (Some (box_PublicOf N sk, sk), r')" "length sk = 32"
    and fs': "fs' = fs(path := Inr (enc_Conf B \<lparr>conf_MyName = [], conf_MyPublicKey = Some (box_PublicOf N sk), conf_MyPrivateKey = Some sk\<rparr>))"
    using assms(3) nacl_keygen [OF assms(2), of r] by (auto simp: WriteDefaultConf_def default_conf_def GenerateBoxKey_def)
  let ?conf = "\<lambda>name. \<lparr>conf_MyName = name, conf_MyPublicKey = Some (box_PublicOf N sk), conf_MyPrivateKey = Some sk\<rparr>"
  have read: "dec_Conf B new_Conf (enc_Conf B (?conf name)) = Inr (?conf name)" for name
    using sk(2) nacl_public_length [OF assms(2)] by (intro dec_enc_Conf [OF assms(1)]) simp_all
  have enc: "enc_Conf B (?conf name) = JObj ((''MyName'', JStr name) #
      [(''MyPublicKey'', enc_key B (Some (box_PublicOf N sk))), (''MyPrivateKey'', enc_key B (Some sk))])" for name
    by (simp add: enc_Conf_def)
  show ?thesis
    unfolding fs' enc using read [unfolded enc]
    by (auto simp: client_main_def ReadJSONFile_def gui_of_conf_def)
qed

end
