(* ===== verification/Log.thy ===== *)
theory Log
  imports Client
begin

text \<open>
  The lines of the log, \<^verbatim>\<open>internal/log.go\<close> and \<^verbatim>\<open>internal/ansi.go\<close>.  An entry is what the log package hands to a
  formatter: the time of day, the level, the message and the fields.  Go ranges over the fields in an order of its own,
  so they are a list with the keys in that order.  \<open>L\<close> names the levels, as the log package does.  The formatters
  print coloured values with \<^verbatim>\<open>%s\<close> and \<^verbatim>\<open>%d\<close> and no flags; rebuilding other verbs is not modelled.
\<close>

section \<open>Colours\<close>

datatype ansiCode = ansiReset | ansiReverse | red | green | yellow | blue | magenta | cyan

primrec code_num :: "ansiCode \<Rightarrow> nat" where
  "code_num ansiReset = 0"
| "code_num ansiReverse = 7"
| "code_num red = 31"
| "code_num green = 32"
| "code_num yellow = 33"
| "code_num blue = 34"
| "code_num magenta = 35"
| "code_num cyan = 36"

definition allColors :: "ansiCode list" where
  "allColors = [red, green, yellow, blue, magenta, cyan]"

text \<open>The method \<^verbatim>\<open>Format\<close> of a value that prints as \<open>text\<close>, and \<^verbatim>\<open>color\<close>, which leaves a value without codes as it is.\<close>

fun ansi_Format :: "string \<Rightarrow> ansiCode list \<Rightarrow> string" where
  "ansi_Format text [] = text"
| "ansi_Format text (code # codes) =
     [CHR 0x1B] @ ''['' @ decimal (code_num code) @ concat (map (\<lambda>c. '';'' @ decimal (code_num c)) codes) @ ''m''
       @ text @ [CHR 0x1B] @ ''[0m''"

definition color :: "string \<Rightarrow> ansiCode list \<Rightarrow> string" where
  "color text codes = (if codes = [] then text else ansi_Format text codes)"

section \<open>Entries\<close>

datatype level = PanicLevel | FatalLevel | ErrorLevel | WarnLevel | InfoLevel | DebugLevel

datatype field_value = VString string | VError string | VUint32 u32 | VBool bool | VOther string

record entry =
  e_Hour :: nat
  e_Minute :: nat
  e_Second :: nat
  e_Level :: level
  e_Message :: string
  e_Data :: "(string \<times> field_value) list"

definition two_digits :: "nat \<Rightarrow> string" where
  "two_digits n = (if n < 10 then ''0'' else []) @ decimal n"

definition time_text :: "entry \<Rightarrow> string" where
  "time_text e = two_digits (e_Hour e) @ '':'' @ two_digits (e_Minute e) @ '':'' @ two_digits (e_Second e)"

text \<open>The type assertions on the fields.\<close>

definition string_field :: "string \<Rightarrow> entry \<Rightarrow> string option" where
  "string_field k e = (case map_of (e_Data e) k of Some (VString s) \<Rightarrow> Some s | _ \<Rightarrow> None)"

definition uint32_field :: "string \<Rightarrow> entry \<Rightarrow> u32 option" where
  "uint32_field k e = (case map_of (e_Data e) k of Some (VUint32 n) \<Rightarrow> Some n | _ \<Rightarrow> None)"

definition bool_field :: "string \<Rightarrow> entry \<Rightarrow> bool option" where
  "bool_field k e = (case map_of (e_Data e) k of Some (VBool b) \<Rightarrow> Some b | _ \<Rightarrow> None)"

definition delete_fields :: "string list \<Rightarrow> entry \<Rightarrow> entry" where
  "delete_fields ks e = e\<lparr>e_Data := filter (\<lambda>(k, _). k \<notin> set ks) (e_Data e)\<rparr>"

primrec value_text :: "field_value \<Rightarrow> string" where
  "value_text (VString s) = quote s"
| "value_text (VError s) = quote s"
| "value_text (VUint32 n) = decimal (unat n)"
| "value_text (VBool b) = (if b then ''true'' else ''false'')"
| "value_text (VOther s) = s"

definition writeMap :: "(string \<times> field_value) list \<Rightarrow> string" where
  "writeMap m = concat (map (\<lambda>(k, v). k @ ''='' @ value_text v @ '' '') m)"

text \<open>\<^verbatim>\<open>if hasCall { fmt.Fprintf(buf, "%s ", call) }\<close> and the like.\<close>

definition word_of :: "string option \<Rightarrow> string" where
  "word_of x = (case x of None \<Rightarrow> [] | Some s \<Rightarrow> s @ '' '')"

definition message_text :: "entry \<Rightarrow> string" where
  "message_text e = (if e_Message e \<noteq> [] then e_Message e @ '' '' else [])"

definition fields_text :: "entry \<Rightarrow> string" where
  "fields_text e = (if e_Data e \<noteq> [] then ''| '' @ writeMap (e_Data e) else [])"

section \<open>Formatters\<close>

definition time_codes :: "entry \<Rightarrow> ansiCode list" where
  "time_codes e = (if e_Level e \<in> {ErrorLevel, FatalLevel, PanicLevel} then [red] else [])
     @ (if bool_field ''bug'' e = Some True then [ansiReverse] else [])"

definition round_codes :: "entry \<Rightarrow> u32 \<Rightarrow> ansiCode list" where
  "round_codes e n = (allColors ! (unat n mod length allColors)) # (if string_field ''service'' e = Some ''dial'' then [ansiReverse] else [])"

text \<open>The line, with \<open>paint\<close> for \<open>color\<close>, and the entry without the fields that were printed.\<close>

definition server_line :: "(string \<Rightarrow> ansiCode list \<Rightarrow> string) \<Rightarrow> entry \<Rightarrow> string \<times> entry" where
  "server_line paint e =
     (let rest = delete_fields [''service'', ''round'', ''rpc'', ''call''] e
      in (paint (time_text e) (time_codes e) @ '' | ''
          @ (case uint32_field ''round'' e of None \<Rightarrow> [] | Some n \<Rightarrow> paint (decimal (unat n)) (round_codes e n) @ '' '')
          @ word_of (string_field ''rpc'' e) @ word_of (string_field ''call'' e) @ message_text e
          @ fields_text rest @ [CHR 0x0A], rest))"

definition ServerFormatter_Format :: "entry \<Rightarrow> string \<times> entry" where
  "ServerFormatter_Format e = server_line color e"

definition GuiFormatter_Format :: "(level \<Rightarrow> string) \<Rightarrow> entry \<Rightarrow> string \<times> entry" where
  "GuiFormatter_Format L e =
     (let rest = delete_fields [''call''] e
      in (time_text e @ '' '' @ L (e_Level e) @ '' | '' @ word_of (string_field ''call'' e) @ message_text e
          @ fields_text rest @ [CHR 0x0A], rest))"

section \<open>What a line contains\<close>

text \<open>A terminal without colours: an escape sequence ends with the next \<open>m\<close>.\<close>

function strip :: "string \<Rightarrow> string" where
  "strip [] = []"
| "strip (c # s) = (if c = CHR 0x1B then strip (drop 1 (dropWhile (\<lambda>c. c \<noteq> CHR ''m'') s)) else c # strip s)"
  by pat_completeness auto
termination
proof (relation "measure length")
  fix c and s :: string
  show "(drop 1 (dropWhile (\<lambda>c. c \<noteq> CHR ''m'') s), c # s) \<in> measure length"
    using length_dropWhile_le [of "\<lambda>c. c \<noteq> CHR ''m''" s] by simp
qed simp_all

lemma strip_plain: "CHR 0x1B \<notin> set xs \<Longrightarrow> strip (xs @ ys) = xs @ strip ys"
  by (induction xs) auto

lemma strip_code: "CHR ''m'' \<notin> set code \<Longrightarrow> strip (CHR 0x1B # code @ CHR ''m'' # ys) = strip ys"
  by (simp add: dropWhile_append)

lemma decimal_chars: "c \<in> set (decimal n) \<Longrightarrow> 48 \<le> (of_char c :: nat) \<and> (of_char c :: nat) \<le> 57"
proof (induction n rule: decimal.induct)
  case (1 n)
  then show ?case by (subst (asm) (2) decimal.simps) (auto split: if_splits)
qed

lemma decimal_free: "of_char c < (48 :: nat) \<or> 57 < (of_char c :: nat) \<Longrightarrow> c \<notin> set (decimal n)"
  using decimal_chars [of c n] by auto

lemma strip_color:
  assumes "CHR 0x1B \<notin> set text"
  shows "strip (color text codes @ ys) = text @ strip ys"
proof (cases codes)
  case Nil
  then show ?thesis using assms by (simp add: color_def strip_plain)
next
  case (Cons code more)
  let ?code = "''['' @ decimal (code_num code) @ concat (map (\<lambda>c. '';'' @ decimal (code_num c)) more)"
  have "CHR ''m'' \<notin> set ?code" by (auto simp: decimal_free)
  from strip_code [OF this, of "text @ CHR 0x1B # ''[0'' @ CHR ''m'' # ys"]
  have "strip (CHR 0x1B # ?code @ CHR ''m'' # text @ CHR 0x1B # ''[0'' @ CHR ''m'' # ys) = text @ strip (CHR 0x1B # ''[0'' @ CHR ''m'' # ys)"
    by (simp only: strip_plain [OF assms])
  also have "strip (CHR 0x1B # ''[0'' @ CHR ''m'' # ys) = strip ys" by (rule strip_code) simp
  finally show ?thesis by (simp only: color_def Cons ansi_Format.simps list.distinct if_False append.simps append_assoc)
qed

lemma hex_digit_range: "n < 16 \<Longrightarrow> 32 \<le> (of_char (hex_digit n) :: nat)"
  by (auto simp: hex_digit_def)

lemma quote_printable: "c \<in> set (quote s) \<Longrightarrow> 32 \<le> (of_char c :: nat)"
proof -
  have "32 \<le> (of_char c :: nat)" if "c \<in> set (quote_char d)" for c d
  proof -
    have "(of_char d :: nat) div 16 < 16" using nat_of_char_less_256 [of d] by linarith
    then show ?thesis using that hex_digit_range by (auto simp: quote_char_def Let_def split: if_splits)
  qed
  then show "c \<in> set (quote s) \<Longrightarrow> 32 \<le> (of_char c :: nat)" by (auto simp: quote_def)
qed

text \<open>The characters of an entry that are printed as they are.\<close>

definition raw_chars :: "entry \<Rightarrow> char set" where
  "raw_chars e = set (e_Message e) \<union> (\<Union>(k, v) \<in> set (e_Data e). set k \<union>
     (case v of VOther s \<Rightarrow> set s | VString s \<Rightarrow> if k \<in> {''rpc'', ''call''} then set s else {} | _ \<Rightarrow> {}))"

lemma map_of_raw:
  "map_of (e_Data e) k = Some (VString s) \<Longrightarrow> k \<in> {''rpc'', ''call''} \<Longrightarrow> set s \<subseteq> raw_chars e"
  by (force simp: raw_chars_def dest!: map_of_SomeD)

lemma words_chars:
  "set (word_of (string_field ''rpc'' e)) \<subseteq> {CHR '' ''} \<union> raw_chars e" "set (word_of (string_field ''call'' e)) \<subseteq> {CHR '' ''} \<union> raw_chars e"
  "set (message_text e) \<subseteq> {CHR '' ''} \<union> raw_chars e"
  using map_of_raw [of e]
  by (auto simp: word_of_def string_field_def message_text_def split: option.splits field_value.splits) (auto simp: raw_chars_def)

text \<open>A character below the printable ones gets into a line only through what is printed as it is.\<close>

lemma fields_chars:
  assumes "of_char c < (32 :: nat)" "c \<notin> raw_chars e"
  shows "c \<notin> set (fields_text (delete_fields ks e))"
proof -
  have ne: "c \<noteq> CHR '' ''" "c \<noteq> CHR ''|''" "c \<noteq> CHR ''=''" using assms(1) by auto
  have "c \<notin> set k \<and> c \<notin> set (value_text v)" if "(k, v) \<in> set (e_Data e)" for k v
    using that assms quote_printable [of c] decimal_free [of c] by (cases v) (fastforce simp: raw_chars_def split: if_splits)+
  then show ?thesis using ne by (auto simp: fields_text_def delete_fields_def writeMap_def)
qed

lemma time_chars: "c \<in> set (time_text e) \<Longrightarrow> 48 \<le> (of_char c :: nat)"
  using decimal_chars [of c] by (auto simp: time_text_def two_digits_def split: if_splits)

text \<open>
  The colours change nothing but colours: without the escape sequences the line of an entry is the line without
  colours, provided the texts printed as they are contain no escape character; quoted values may.
\<close>

theorem format_without_colors:
  assumes "CHR 0x1B \<notin> raw_chars e"
  shows "strip (fst (ServerFormatter_Format e)) = fst (server_line (\<lambda>text _. text) e)"
proof -
  let ?esc = "CHR 0x1B"
  let ?tail = "word_of (string_field ''rpc'' e) @ word_of (string_field ''call'' e) @ message_text e
      @ fields_text (delete_fields [''service'', ''round'', ''rpc'', ''call''] e) @ [CHR 0x0A]"
  have tail: "?esc \<notin> set ?tail"
    using words_chars [of e] assms fields_chars [of ?esc e] by auto
  have "strip ?tail = ?tail" using strip_plain [OF tail, of "[]"] by simp
  moreover have "strip (color (decimal n) codes @ ys) = decimal n @ strip ys" for n codes ys
    by (rule strip_color) (simp add: decimal_free)
  moreover have "?esc \<notin> set (time_text e)" using time_chars [of ?esc e] by auto
  ultimately show ?thesis
    by (simp add: ServerFormatter_Format_def server_line_def Let_def strip_color split: option.split)
qed

text \<open>An entry is one line, provided the texts printed as they are contain no newline.\<close>

theorem format_one_line:
  assumes "CHR 0x0A \<notin> raw_chars e" "CHR 0x0A \<notin> set (L (e_Level e))"
  shows "\<exists>line. fst (GuiFormatter_Format L e) = line @ [CHR 0x0A] \<and> CHR 0x0A \<notin> set line"
    and "\<exists>line. fst (server_line (\<lambda>text _. text) e) = line @ [CHR 0x0A] \<and> CHR 0x0A \<notin> set line"
proof -
  have "CHR 0x0A \<notin> set (time_text e)" using time_chars [of "CHR 0x0A" e] by auto
  note free = this words_chars [of e] assms fields_chars [of "CHR 0x0A" e] decimal_free [of "CHR 0x0A"]
  show "\<exists>line. fst (GuiFormatter_Format L e) = line @ [CHR 0x0A] \<and> CHR 0x0A \<notin> set line"
    using free by (auto simp: GuiFormatter_Format_def Let_def simp flip: append_assoc)
  show "\<exists>line. fst (server_line (\<lambda>text _. text) e) = line @ [CHR 0x0A] \<and> CHR 0x0A \<notin> set line"
    using free by (auto simp: server_line_def Let_def simp flip: append_assoc split: option.split)
qed

end
