(* ===== verification/Rand.thy ===== *)
theory Rand
  imports Prelude
begin

text \<open>
  The random generator, \<^verbatim>\<open>rand/salsa20rand.go\<close>: a Salsa20 keystream read through a buffer, and one such
  generator per CPU behind a mutex.  \<open>X input nonce key\<close> stands for what \<^verbatim>\<open>salsa20.XORKeyStream\<close> writes;
  all that is used of it is that it writes as many bytes as it is given.  A reader's \<^verbatim>\<open>Read\<close> on a slice of
  \<open>n\<close> bytes is a function of \<open>n\<close> that returns the bytes it wrote.  The loops may run for ever, so they are
  partial functions: \<open>None\<close> means that they do not return.  A \<^verbatim>\<open>Read\<close> under the mutex is one atomic step;
  \<open>cpus\<close> are the CPUs on which the successive calls find themselves.
\<close>

section \<open>Generator\<close>

record Salsa20Rand =
  zeroes :: bytes
  buffer :: bytes
  bufferOffset :: nat
  sr_key :: bytes
  sr_nonce :: u64

type_synonym key_stream_fun = "bytes \<Rightarrow> bytes \<Rightarrow> bytes \<Rightarrow> bytes"
type_synonym 's reader = "nat \<Rightarrow> 's \<Rightarrow> ((bytes \<times> gerr option) \<times> 's)"

definition PutUint64 :: "u64 \<Rightarrow> bytes" where
  "PutUint64 v = be_put 8 v"

definition fill :: "key_stream_fun \<Rightarrow> Salsa20Rand \<Rightarrow> Salsa20Rand" where
  "fill X sr =
     (let nonce = PutUint64 (sr_nonce sr)
      in sr\<lparr>sr_nonce := sr_nonce sr + 1, buffer := copy_into (buffer sr) (X (zeroes sr) nonce (sr_key sr)), bufferOffset := 0\<rparr>)"

definition buffer_size :: nat where
  "buffer_size = 16 * 1024"

definition NewSalsa20Rand :: "key_stream_fun \<Rightarrow> 'b reader \<Rightarrow> 'b \<Rightarrow> (Salsa20Rand \<times> 'b) outcome" where
  "NewSalsa20Rand X base b =
     (let n = buffer_size;
          ((key, err), b) = base 32 b;
          sr = \<lparr>zeroes = replicate n 0, buffer = replicate n 0, bufferOffset = n, sr_key = copy_into (replicate 32 0) key, sr_nonce = 0\<rparr>
      in if length key \<noteq> 32 \<or> err \<noteq> None then Panic else Ret (fill X sr, b))"

partial_function (option) salsa_Read :: "key_stream_fun \<Rightarrow> nat \<Rightarrow> Salsa20Rand \<Rightarrow> (bytes \<times> Salsa20Rand) outcome option" where
  "salsa_Read X n sr =
     (if n = 0 then Some (Ret ([], sr))
      else let sr = (if bufferOffset sr = length (buffer sr) then fill X sr else sr)
           in if length (buffer sr) < bufferOffset sr then Some Panic
              else let d = take n (drop (bufferOffset sr) (buffer sr)); m = length d
                   in Option.bind (salsa_Read X (n - m) (sr\<lparr>bufferOffset := bufferOffset sr + m\<rparr>)) (\<lambda>res.
                        Some (obind res (\<lambda>(rest, sr). Ret (d @ rest, sr)))))"

section \<open>One generator per CPU\<close>

primrec NewPerCPUReader :: "key_stream_fun \<Rightarrow> 'b reader \<Rightarrow> nat \<Rightarrow> 'b \<Rightarrow> (Salsa20Rand list \<times> 'b) outcome" where
  "NewPerCPUReader X base 0 b = Ret ([], b)"
| "NewPerCPUReader X base (Suc n) b =
     obind (NewSalsa20Rand X base b) (\<lambda>(sr, b). obind (NewPerCPUReader X base n b) (\<lambda>(readers, b). Ret (sr # readers, b)))"

definition PerCPUReader_Read ::
  "key_stream_fun \<Rightarrow> nat \<Rightarrow> Salsa20Rand list \<times> (nat \<Rightarrow> u64) \<Rightarrow> (bytes \<times> Salsa20Rand list \<times> (nat \<Rightarrow> u64)) outcome option" where
  "PerCPUReader_Read X n = (\<lambda>(readers, cpus).
     let thiscpu = unat (cpus 0)
     in if readers = [] then Some Panic
        else let i = thiscpu mod length readers
             in map_option (\<lambda>res. obind res (\<lambda>(bs, sr). Ret (bs, readers[i := sr], \<lambda>k. cpus (Suc k)))) (salsa_Read X n (readers ! i)))"

text \<open>\<^verbatim>\<open>io.ReadFull\<close>: read on until \<open>n\<close> bytes are there.\<close>

partial_function (option) ReadFull ::
  "(nat \<Rightarrow> 's \<Rightarrow> (bytes \<times> 's) outcome option) \<Rightarrow> nat \<Rightarrow> 's \<Rightarrow> (bytes \<times> 's) outcome option" where
  "ReadFull rd n s =
     (if n = 0 then Some (Ret ([], s))
      else Option.bind (rd n s) (\<lambda>res.
        case res of
          Panic \<Rightarrow> Some Panic
        | Hang \<Rightarrow> Some Hang
        | Ret x \<Rightarrow> Option.bind (ReadFull rd (n - length (fst x)) (snd x)) (\<lambda>res. Some (obind res (\<lambda>(rest, s). Ret (fst x @ rest, s))))))"

definition rand_Read ::
  "key_stream_fun \<Rightarrow> nat \<Rightarrow> Salsa20Rand list \<times> (nat \<Rightarrow> u64) \<Rightarrow> (bytes \<times> Salsa20Rand list \<times> (nat \<Rightarrow> u64)) outcome option" where
  "rand_Read X n s = ReadFull (PerCPUReader_Read X) n s"

text \<open>Reads one after the other.\<close>

primrec reads :: "(nat \<Rightarrow> 's \<Rightarrow> (bytes \<times> 's) outcome option) \<Rightarrow> nat list \<Rightarrow> 's \<Rightarrow> (bytes list \<times> 's) outcome option" where
  "reads rd [] s = Some (Ret ([], s))"
| "reads rd (n # ns) s =
     Option.bind (rd n s) (\<lambda>res.
       case res of
         Panic \<Rightarrow> Some Panic
       | Hang \<Rightarrow> Some Hang
       | Ret x \<Rightarrow> Option.bind (reads rd ns (snd x)) (\<lambda>res. Some (obind res (\<lambda>(rest, s). Ret (fst x # rest, s)))))"

section \<open>The keystream\<close>

text \<open>Byte \<open>i\<close> of the keystream: block \<open>i div 16384\<close> is what the generator fills its buffer with under that nonce.\<close>

definition key_block :: "key_stream_fun \<Rightarrow> bytes \<Rightarrow> nat \<Rightarrow> bytes" where
  "key_block X key k = X (replicate buffer_size 0) (PutUint64 (of_nat k)) key"

definition key_stream :: "key_stream_fun \<Rightarrow> bytes \<Rightarrow> nat \<Rightarrow> byte" where
  "key_stream X key i = key_block X key (i div buffer_size) ! (i mod buffer_size)"

text \<open>A generator that has given out the first \<open>pos\<close> bytes.\<close>

definition salsa_at :: "key_stream_fun \<Rightarrow> bytes \<Rightarrow> nat \<Rightarrow> Salsa20Rand \<Rightarrow> bool" where
  "salsa_at X key pos sr \<longleftrightarrow> zeroes sr = replicate buffer_size 0 \<and> sr_key sr = key \<and> bufferOffset sr \<le> buffer_size
     \<and> (\<exists>k. sr_nonce sr = of_nat (Suc k) \<and> buffer sr = key_block X key k \<and> pos = k * buffer_size + bufferOffset sr)"

lemma buffer_size_pos [simp]: "0 < buffer_size"
  by (simp add: buffer_size_def)

lemma key_stream_piece:
  assumes "off + m \<le> buffer_size" "length (key_block X key k) = buffer_size"
  shows "map (key_stream X key) [k * buffer_size + off..<k * buffer_size + off + m] = take m (drop off (key_block X key k))"
proof (rule nth_equalityI)
  show "length (map (key_stream X key) [k * buffer_size + off..<k * buffer_size + off + m]) = length (take m (drop off (key_block X key k)))"
    using assms by simp
next
  fix i assume "i < length (map (key_stream X key) [k * buffer_size + off..<k * buffer_size + off + m])"
  then have "i < m" "off + i < buffer_size" using assms(1) by auto
  then have "(k * buffer_size + off + i) div buffer_size = k" "(k * buffer_size + off + i) mod buffer_size = off + i"
    by (simp_all add: add.assoc)
  then show "map (key_stream X key) [k * buffer_size + off..<k * buffer_size + off + m] ! i = take m (drop off (key_block X key k)) ! i"
    using \<open>i < m\<close> assms by (simp add: key_stream_def)
qed

text \<open>What is assumed of \<^verbatim>\<open>XORKeyStream\<close>.\<close>

definition stream_ok :: "key_stream_fun \<Rightarrow> bool" where
  "stream_ok X \<longleftrightarrow> (\<forall>input nonce key. length (X input nonce key) = length input)"

lemma length_key_block: "stream_ok X \<Longrightarrow> length (key_block X key k) = buffer_size"
  by (simp add: key_block_def stream_ok_def)

lemma fill_at:
  assumes X: "stream_ok X" and "salsa_at X key pos sr" "bufferOffset sr = length (buffer sr)"
  shows "salsa_at X key pos (fill X sr) \<and> bufferOffset (fill X sr) = 0"
proof -
  obtain k where k: "zeroes sr = replicate buffer_size 0" "sr_key sr = key" "sr_nonce sr = of_nat (Suc k)"
    "buffer sr = key_block X key k" "pos = k * buffer_size + bufferOffset sr"
    using assms(2) by (auto simp: salsa_at_def)
  have "pos = Suc k * buffer_size" using k(4,5) assms(3) by (simp add: length_key_block [OF X])
  moreover have "buffer (fill X sr) = key_block X key (Suc k)"
    using k X by (simp add: fill_def key_block_def stream_ok_def)
  ultimately show ?thesis using k by (auto simp: salsa_at_def fill_def intro!: exI [of _ "Suc k"])
qed

lemma salsa_Read_at:
  assumes X: "stream_ok X" and "salsa_at X key pos sr"
  shows "\<exists>sr'. salsa_Read X n sr = Some (Ret (map (key_stream X key) [pos..<pos + n], sr')) \<and> salsa_at X key (pos + n) sr'"
  using assms(2)
proof (induction n arbitrary: pos sr rule: less_induct)
  case (less n)
  show ?case
  proof (cases "n = 0")
    case True
    then show ?thesis using less.prems by (simp add: salsa_Read.simps)
  next
    case False
    define sr1 where "sr1 = (if bufferOffset sr = length (buffer sr) then fill X sr else sr)"
    have len: "length (buffer sr) = buffer_size" "bufferOffset sr \<le> buffer_size"
      using less.prems by (auto simp: salsa_at_def length_key_block [OF X])
    have sr1: "salsa_at X key pos sr1" "bufferOffset sr1 < buffer_size"
      using less.prems fill_at [OF X less.prems] len by (simp_all add: sr1_def)
    then obtain k where k: "buffer sr1 = key_block X key k" "pos = k * buffer_size + bufferOffset sr1"
      by (auto simp: salsa_at_def)
    define m where "m = min n (buffer_size - bufferOffset sr1)"
    let ?d = "take n (drop (bufferOffset sr1) (buffer sr1))"
    have m: "length ?d = m" "0 < m" "m \<le> n" "bufferOffset sr1 + m \<le> buffer_size"
      using sr1(2) False by (simp_all add: m_def k(1) length_key_block [OF X])
    have d: "?d = map (key_stream X key) [pos..<pos + m]"
    proof -
      have "?d = take m (drop (bufferOffset sr1) (key_block X key k))"
        by (simp add: m_def k(1) length_key_block [OF X] min_def)
      then show ?thesis using key_stream_piece [OF m(4) length_key_block [OF X], of key k] by (simp add: k)
    qed
    have "salsa_at X key (pos + m) (sr1\<lparr>bufferOffset := bufferOffset sr1 + m\<rparr>)"
      using sr1 m(4) by (auto simp: salsa_at_def)
    from less.IH [OF _ this, of "n - m"] m(2) False obtain sr' where
      rest: "salsa_Read X (n - m) (sr1\<lparr>bufferOffset := bufferOffset sr1 + m\<rparr>)
        = Some (Ret (map (key_stream X key) [pos + m..<pos + n], sr'))" "salsa_at X key (pos + n) sr'"
      using m(3) by (auto simp: add.assoc)
    have "salsa_Read X n sr = Some (Ret (?d @ map (key_stream X key) [pos + m..<pos + n], sr'))"
      using False sr1(2) k(1) m(1) rest(1)
      by (subst salsa_Read.simps) (simp add: sr1_def [symmetric] length_key_block [OF X] Let_def)
    moreover have "[pos..<pos + n] = [pos..<pos + m] @ [pos + m..<pos + n]"
      using upt_add_eq_append [of pos "pos + m" "n - m"] m(3) by (simp add: add.assoc)
    ultimately show ?thesis using rest(2) d by simp
  qed
qed

section \<open>All generators\<close>

lemma NewSalsa20Rand_at:
  assumes X: "stream_ok X" and "NewSalsa20Rand X base b = Ret (sr, b')"
  shows "salsa_at X (sr_key sr) 0 sr"
proof -
  have "sr_nonce sr = of_nat (Suc 0)" "zeroes sr = replicate buffer_size 0" "bufferOffset sr = 0" "buffer sr = key_block X (sr_key sr) 0"
    using assms by (auto simp: NewSalsa20Rand_def fill_def key_block_def stream_ok_def Let_def split: prod.splits if_splits)
  then show ?thesis by (auto simp: salsa_at_def intro!: exI [of _ 0])
qed

lemma NewPerCPUReader_at:
  assumes X: "stream_ok X" and "NewPerCPUReader X base n b = Ret (readers, b')"
  shows "length readers = n \<and> (\<forall>sr \<in> set readers. salsa_at X (sr_key sr) 0 sr)"
  using assms(2)
proof (induction n arbitrary: b readers)
  case (Suc n)
  then show ?case using NewSalsa20Rand_at [OF X] by (fastforce simp: outcome_simps)
qed simp

text \<open>The generators, each at a position of its own keystream.\<close>

definition readers_at :: "key_stream_fun \<Rightarrow> bytes list \<Rightarrow> (nat \<Rightarrow> nat) \<Rightarrow> Salsa20Rand list \<Rightarrow> bool" where
  "readers_at X keys pos readers \<longleftrightarrow> length readers = length keys \<and> (\<forall>i < length keys. salsa_at X (keys ! i) (pos i) (readers ! i))"

lemma rand_Read_at:
  fixes cpus :: "nat \<Rightarrow> u64"
  assumes X: "stream_ok X" and at: "readers_at X keys pos readers" and "keys \<noteq> []" "0 < n"
  defines "i \<equiv> unat (cpus 0) mod length keys"
  shows "\<exists>readers'. rand_Read X n (readers, cpus)
      = Some (Ret (map (key_stream X (keys ! i)) [pos i..<pos i + n], readers', \<lambda>k. cpus (Suc k)))
    \<and> readers_at X keys (pos(i := pos i + n)) readers'"
proof -
  have i: "i < length keys" "length readers = length keys" using assms(3) at by (simp_all add: i_def readers_at_def)
  then have "salsa_at X (keys ! i) (pos i) (readers ! i)" using at by (simp add: readers_at_def)
  from salsa_Read_at [OF X this, of n] obtain sr' where
    sr': "salsa_Read X n (readers ! i) = Some (Ret (map (key_stream X (keys ! i)) [pos i..<pos i + n], sr'))"
      "salsa_at X (keys ! i) (pos i + n) sr'" by blast
  have "PerCPUReader_Read X n (readers, cpus)
      = Some (Ret (map (key_stream X (keys ! i)) [pos i..<pos i + n], readers[i := sr'], \<lambda>k. cpus (Suc k)))"
    using sr'(1) i assms(3) by (auto simp: PerCPUReader_Read_def i_def Let_def)
  then have "rand_Read X n (readers, cpus)
      = Some (Ret (map (key_stream X (keys ! i)) [pos i..<pos i + n], readers[i := sr'], \<lambda>k. cpus (Suc k)))"
    using assms(4) by (simp add: rand_Read_def ReadFull.simps)
  moreover have "readers_at X keys (pos(i := pos i + n)) (readers[i := sr'])"
    using at sr'(2) i by (simp add: readers_at_def nth_list_update)
  ultimately show ?thesis by blast
qed

text \<open>What the generator of CPU \<open>i\<close> gave out: the reads made on that CPU, in order.\<close>

definition given_by :: "nat \<Rightarrow> (nat \<Rightarrow> u64) \<Rightarrow> nat \<Rightarrow> bytes list \<Rightarrow> bytes" where
  "given_by ncpu cpus i bss = concat (map (\<lambda>j. bss ! j) (filter (\<lambda>j. unat (cpus j) mod ncpu = i) [0..<length bss]))"

lemma given_by_Cons:
  "given_by ncpu cpus i (b # bss) = (if unat (cpus 0) mod ncpu = i then b else []) @ given_by ncpu (\<lambda>k. cpus (Suc k)) i bss"
proof -
  have "[0..<length (b # bss)] = 0 # map Suc [0..<length bss]" by (simp add: map_Suc_upt upt_conv_Cons del: upt_Suc)
  then show ?thesis by (simp add: given_by_def filter_map comp_def)
qed

lemma reads_at:
  assumes X: "stream_ok X" and "readers_at X keys pos readers" and keys: "keys \<noteq> []" and "0 \<notin> set ns"
  shows "\<exists>bss s'. reads (rand_Read X) ns (readers, cpus) = Some (Ret (bss, s')) \<and> map length bss = ns
    \<and> (\<forall>i < length keys. given_by (length keys) cpus i bss
        = map (key_stream X (keys ! i)) [pos i..<pos i + length (given_by (length keys) cpus i bss)])"
  using assms(2,4)
proof (induction ns arbitrary: readers cpus pos)
  case Nil
  then show ?case by (simp add: given_by_def)
next
  case (Cons n ns)
  let ?i = "unat (cpus 0) mod length keys"
  from Cons.prems(2) have "0 < n" by simp
  from rand_Read_at [OF X Cons.prems(1) keys this] obtain readers' where
    one: "rand_Read X n (readers, cpus) = Some (Ret (map (key_stream X (keys ! ?i)) [pos ?i..<pos ?i + n], readers', \<lambda>k. cpus (Suc k)))"
    and at: "readers_at X keys (pos(?i := pos ?i + n)) readers'" by blast
  from Cons.IH [OF at, of "\<lambda>k. cpus (Suc k)"] Cons.prems(2) obtain bss s' where
    rest: "reads (rand_Read X) ns (readers', \<lambda>k. cpus (Suc k)) = Some (Ret (bss, s'))" "map length bss = ns"
    and given: "\<forall>i < length keys. given_by (length keys) (\<lambda>k. cpus (Suc k)) i bss
      = map (key_stream X (keys ! i)) [(pos(?i := pos ?i + n)) i..<(pos(?i := pos ?i + n)) i + length (given_by (length keys) (\<lambda>k. cpus (Suc k)) i bss)]"
    by auto
  let ?b = "map (key_stream X (keys ! ?i)) [pos ?i..<pos ?i + n]"
  have "given_by (length keys) cpus i (?b # bss)
      = map (key_stream X (keys ! i)) [pos i..<pos i + length (given_by (length keys) cpus i (?b # bss))]" if "i < length keys" for i
    using given [rule_format, OF that] upt_add_eq_append [of "pos i" "pos i + n"] by (auto simp: given_by_Cons add.assoc split: if_splits)
  then show ?case using one rest by (intro exI [of _ "?b # bss"] exI [of _ s']) simp
qed

lemma PutUint64_inj: "PutUint64 v = PutUint64 w \<longleftrightarrow> v = w"
proof
  assume "PutUint64 v = PutUint64 w"
  then have "(be_get (be_put 8 v) :: u64) = be_get (be_put 8 w)" by (simp only: PutUint64_def)
  then show "v = w" by (simp add: be_get_put)
qed simp

lemma nonces_fresh: "k < 2 ^ 64 \<Longrightarrow> k' < 2 ^ 64 \<Longrightarrow> PutUint64 (of_nat k) = PutUint64 (of_nat k') \<longleftrightarrow> k = k'"
  by (simp add: PutUint64_inj word_of_nat_eq_iff take_bit_nat_eq_self)

text \<open>
  C38: the program's random numbers are those of the Salsa20 keystreams, none left out and none given out twice:
  whatever reads are made on whatever CPUs, every read returns the bytes asked for, the bytes given out by the
  generator of a CPU are, in order, a prefix of its keystream, and the first \<open>2\<^sup>6\<^sup>4\<close> blocks of a keystream
  are made with different nonces.
\<close>

theorem random_bytes_fresh:
  assumes "stream_ok X" "NewPerCPUReader X base ncpu b = Ret (readers, b')" "0 < ncpu" "0 \<notin> set ns"
  shows "\<exists>bss s'. reads (rand_Read X) ns (readers, cpus) = Some (Ret (bss, s')) \<and> map length bss = ns
    \<and> (\<forall>i < ncpu. given_by ncpu cpus i bss = map (key_stream X (sr_key (readers ! i))) [0..<length (given_by ncpu cpus i bss)])
    \<and> (\<forall>k < 2 ^ 64. \<forall>k' < 2 ^ 64. PutUint64 (of_nat k) = PutUint64 (of_nat k') \<longrightarrow> k = k')"
proof -
  have readers: "length readers = ncpu" "\<forall>sr \<in> set readers. salsa_at X (sr_key sr) 0 sr"
    using NewPerCPUReader_at [OF assms(1,2)] by simp_all
  then have "readers_at X (map sr_key readers) (\<lambda>_. 0) readers" by (simp add: readers_at_def)
  from reads_at [OF assms(1) this _ assms(4), of cpus] readers(1) assms(3) obtain bss s' where
    "reads (rand_Read X) ns (readers, cpus) = Some (Ret (bss, s'))" "map length bss = ns"
    "\<forall>i < ncpu. given_by ncpu cpus i bss = map (key_stream X (sr_key (readers ! i))) [0..<length (given_by ncpu cpus i bss)]"
    by auto
  then show ?thesis using nonces_fresh by (intro exI [of _ bss] exI [of _ s']) simp
qed

text \<open>Two CPUs, keys of zeroes, and a cipher that leaves its input as it is; two reads on one CPU and one on the other.\<close>

theorem random_bytes_fresh_witness:
  "\<exists>readers bss s'. NewPerCPUReader (\<lambda>input _ _. input) (\<lambda>n u. ((replicate n 0, None), u)) 2 () = Ret (readers, ())
    \<and> reads (rand_Read (\<lambda>input _ _. input)) [5, 16384, 7] (readers, \<lambda>j. if j = 1 then 3 else 2) = Some (Ret (bss, s'))
    \<and> map length bss = [5, 16384, 7]"
proof -
  let ?X = "\<lambda>input _ _. input :: bytes"
  have "stream_ok ?X" by (simp add: stream_ok_def)
  moreover obtain readers where readers: "NewPerCPUReader ?X (\<lambda>n u. ((replicate n 0, None), u)) 2 () = Ret (readers, ())"
    by (simp add: NewSalsa20Rand_def numeral_2_eq_2)
  moreover have "0 \<notin> set [5, 16384, 7 :: nat]" by simp
  ultimately obtain bss s' where
    "reads (rand_Read ?X) [5, 16384, 7] (readers, \<lambda>j. if j = 1 then 3 else 2) = Some (Ret (bss, s'))" "map length bss = [5, 16384, 7]"
    using random_bytes_fresh [of ?X "\<lambda>n u. ((replicate n 0, None), u)" 2 "()" readers "()" "[5, 16384, 7]" "\<lambda>j. if j = 1 then 3 else 2"] by auto
  with readers show ?thesis by (intro exI conjI) assumption+
qed

end
