(* ===== verification/Histogram.thy ===== *)
theory Histogram
  imports Convo
begin

text \<open>
  The display of the last server, \<^verbatim>\<open>vuvuzela-server/histogram.go\<close>: a window of the last 512 access counts and the
  bars drawn for them.  A \<open>Sparklines\<close> record holds what the code sets of a \<^verbatim>\<open>termui.Sparklines\<close> with its one
  line; the size of the terminal is part of the event that reports it.  Colours, labels and the drawing itself are calls
  of \<^verbatim>\<open>termui\<close>, and not modelled.
\<close>

section \<open>State\<close>

record Sparklines =
  sp_Width :: int
  sp_Height :: int
  sp_X :: int
  sp_Y :: int
  line_Height :: int
  line_Data :: "int list"

record Histogram =
  hi_Mu :: real
  hi_NumServers :: int
  hi_singles :: "int list"
  hi_doubles :: "int list"
  normalizedSingles :: "int list"
  normalizedDoubles :: "int list"
  spSingles :: Sparklines
  spDoubles :: Sparklines

section \<open>Operations\<close>

text \<open>The three-way choice for one value of the window.\<close>

definition bar :: "int \<Rightarrow> int \<Rightarrow> int" where
  "bar shift s = (if s = 0 then 0 else let n = wrap_int (s - shift) in if n > 2 then n else 2)"

definition singleShift :: "Histogram \<Rightarrow> int" where
  "singleShift h = wrap_int (wrap_int ((hi_NumServers h - 1) * int_of_float (Fin (hi_Mu h))) - sp_Height (spSingles h) - 32)"

definition doubleShift :: "float64 \<Rightarrow> Histogram \<Rightarrow> int" where
  "doubleShift F h = wrap_int (wrap_int ((hi_NumServers h - 1) * int_of_float (Fin (fl F (hi_Mu h / 2)))) - sp_Height (spDoubles h) - 16)"

text \<open>The loop over the window; the other slices are indexed with its positions.\<close>

definition render :: "float64 \<Rightarrow> Histogram \<Rightarrow> Histogram outcome" where
  "render F h =
     (let n = length (hi_singles h); ss = singleShift h; ds = doubleShift F h
      in if length (hi_doubles h) < n \<or> length (normalizedSingles h) < n \<or> length (normalizedDoubles h) < n then Panic
         else let ns = map (bar ss) (hi_singles h) @ drop n (normalizedSingles h);
                  nd = map (bar ds) (take n (hi_doubles h)) @ drop n (normalizedDoubles h)
              in Ret (h\<lparr>normalizedSingles := ns, normalizedDoubles := nd,
                   spSingles := (spSingles h)\<lparr>line_Data := ns\<rparr>, spDoubles := (spDoubles h)\<lparr>line_Data := nd\<rparr>\<rparr>))"

text \<open>\<open>w\<close> and \<open>ht\<close> are the size of the terminal.\<close>

definition resize :: "float64 \<Rightarrow> int \<Rightarrow> int \<Rightarrow> Histogram \<Rightarrow> Histogram outcome" where
  "resize F w ht h =
     (let tw = wrap_int (w - 4); th = wrap_int (ht sdiv 2 - 1); lh = (if th > 3 then th - 3 else 1)
      in render F (h\<lparr>spSingles := (spSingles h)\<lparr>sp_Width := tw, sp_Height := th, line_Height := lh\<rparr>,
           spDoubles := (spDoubles h)\<lparr>sp_Width := tw, sp_Height := th, line_Height := lh, sp_Y := wrap_int (th + 2)\<rparr>\<rparr>))"

text \<open>The start of \<^verbatim>\<open>run\<close>, up to the loop; \<open>init\<close> is the error of \<^verbatim>\<open>termui.Init\<close>, if it has one.\<close>

definition no_lines :: Sparklines where
  "no_lines = \<lparr>sp_Width = 0, sp_Height = 0, sp_X = 0, sp_Y = 0, line_Height = 0, line_Data = []\<rparr>"

definition new_Histogram :: "real \<Rightarrow> int \<Rightarrow> Histogram" where
  "new_Histogram mu servers = \<lparr>hi_Mu = mu, hi_NumServers = servers, hi_singles = [], hi_doubles = [],
     normalizedSingles = [], normalizedDoubles = [], spSingles = no_lines, spDoubles = no_lines\<rparr>"

definition run_start :: "float64 \<Rightarrow> gerr option \<Rightarrow> int \<Rightarrow> int \<Rightarrow> Histogram \<Rightarrow> Histogram outcome" where
  "run_start F init w ht h =
     (let z = replicate 512 0;
          h = h\<lparr>hi_singles := z, hi_doubles := z, normalizedSingles := z, normalizedDoubles := z\<rparr>
      in case init of
           Some err \<Rightarrow> Panic
         | None \<Rightarrow>
             let sp = no_lines\<lparr>sp_X := 2, line_Data := z\<rparr>
             in resize F w ht (h\<lparr>spSingles := sp\<lparr>sp_Y := 1\<rparr>, spDoubles := sp\<rparr>))"

datatype hist_event = Key_q | Key_CtrlC | Key_other | Resized int int | Counts AccessCount

datatype hist_result = Running Histogram | Returned Histogram | Exited

text \<open>One turn of the loop of \<^verbatim>\<open>run\<close>.\<close>

definition hist_add :: "AccessCount \<Rightarrow> Histogram \<Rightarrow> Histogram outcome" where
  "hist_add a h =
     (if hi_singles h = [] \<or> hi_doubles h = [] then Panic
      else Ret (h\<lparr>hi_singles := tl (hi_singles h) @ [Singles a], hi_doubles := tl (hi_doubles h) @ [Doubles a]\<rparr>))"

fun hist_turn :: "float64 \<Rightarrow> hist_event \<Rightarrow> Histogram \<Rightarrow> hist_result outcome" where
  "hist_turn F Key_q h = Ret (Returned h)"
| "hist_turn F Key_CtrlC h = Ret Exited"
| "hist_turn F Key_other h = Ret (Running h)"
| "hist_turn F (Resized w ht) h = obind (resize F w ht h) (\<lambda>h. Ret (Running h))"
| "hist_turn F (Counts a) h = obind (hist_add a h) (\<lambda>h. obind (render F h) (\<lambda>h. Ret (Running h)))"

text \<open>The loop on a sequence of events, until it returns or exits.\<close>

fun hist_loop :: "float64 \<Rightarrow> hist_event list \<Rightarrow> Histogram \<Rightarrow> hist_result outcome" where
  "hist_loop F [] h = Ret (Running h)"
| "hist_loop F (e # es) h =
     obind (hist_turn F e h) (\<lambda>res. case res of Running h \<Rightarrow> hist_loop F es h | _ \<Rightarrow> Ret res)"

section \<open>What is shown\<close>

definition counts_of :: "hist_event list \<Rightarrow> AccessCount list" where
  "counts_of es = concat (map (\<lambda>e. case e of Counts a \<Rightarrow> [a] | _ \<Rightarrow> []) es)"

lemma counts_of_simps [simp]:
  "counts_of [] = []" "counts_of (Counts a # es) = a # counts_of es" "counts_of (Resized w ht # es) = counts_of es"
  "counts_of (Key_other # es) = counts_of es"
  by (simp_all add: counts_of_def)

text \<open>The window holds the last 512 of the numbers \<open>xs\<close> and \<open>ys\<close>, and the bars are drawn for it.\<close>

definition window :: "int list \<Rightarrow> int list" where
  "window xs = drop (length xs) (replicate 512 0 @ xs)"

lemma length_window [simp]: "length (window xs) = 512"
  by (simp add: window_def)

lemma window_not_Nil [simp]: "window xs \<noteq> []"
  using length_window [of xs] by (auto simp del: length_window)

lemma window_snoc: "tl (window xs) @ [x] = window (xs @ [x])"
proof -
  have "window (xs @ [x]) = tl (drop (length xs) (replicate 512 0 @ xs @ [x]))"
    by (simp add: window_def drop_Suc tl_drop del: drop_append append_assoc)
  also have "drop (length xs) (replicate 512 0 @ xs @ [x]) = window xs @ [x]" by (simp add: window_def)
  finally show ?thesis using length_window [of xs] by (cases "window xs") auto
qed

definition shown :: "float64 \<Rightarrow> int list \<Rightarrow> int list \<Rightarrow> Histogram \<Rightarrow> bool" where
  "shown F xs ys h \<longleftrightarrow> hi_singles h = window xs \<and> hi_doubles h = window ys
     \<and> normalizedSingles h = map (bar (singleShift h)) (window xs) \<and> normalizedDoubles h = map (bar (doubleShift F h)) (window ys)
     \<and> line_Data (spSingles h) = normalizedSingles h \<and> line_Data (spDoubles h) = normalizedDoubles h"

lemma render_shown:
  assumes "hi_singles h = window xs" "hi_doubles h = window ys" "length (normalizedSingles h) = 512" "length (normalizedDoubles h) = 512"
  shows "\<exists>h'. render F h = Ret h' \<and> shown F xs ys h'"
  using assms by (simp add: render_def shown_def singleShift_def doubleShift_def Let_def)

lemma resize_shown:
  assumes "hi_singles h = window xs" "hi_doubles h = window ys" "length (normalizedSingles h) = 512" "length (normalizedDoubles h) = 512"
  shows "\<exists>h'. resize F w ht h = Ret h' \<and> shown F xs ys h'"
  unfolding resize_def Let_def by (rule render_shown) (use assms in simp_all)

lemma hist_turn_shown:
  assumes "shown F xs ys h"
  shows "\<exists>h'. hist_turn F (Resized w ht) h = Ret (Running h') \<and> shown F xs ys h'"
    and "\<exists>h'. hist_turn F (Counts a) h = Ret (Running h') \<and> shown F (xs @ [Singles a]) (ys @ [Doubles a]) h'"
proof -
  show "\<exists>h'. hist_turn F (Resized w ht) h = Ret (Running h') \<and> shown F xs ys h'"
    using resize_shown [of h xs ys F w ht] assms by (auto simp: shown_def)
  let ?h = "h\<lparr>hi_singles := window (xs @ [Singles a]), hi_doubles := window (ys @ [Doubles a])\<rparr>"
  have "hist_add a h = Ret ?h"
    using assms by (auto simp: hist_add_def shown_def window_snoc)
  then show "\<exists>h'. hist_turn F (Counts a) h = Ret (Running h') \<and> shown F (xs @ [Singles a]) (ys @ [Doubles a]) h'"
    using render_shown [of ?h "xs @ [Singles a]" "ys @ [Doubles a]" F] assms by (auto simp: shown_def)
qed

lemma hist_loop_shown:
  assumes "shown F xs ys h" "Key_q \<notin> set es" "Key_CtrlC \<notin> set es"
  shows "\<exists>h'. hist_loop F es h = Ret (Running h') \<and> shown F (xs @ map Singles (counts_of es)) (ys @ map Doubles (counts_of es)) h'"
  using assms
proof (induction es arbitrary: xs ys h)
  case (Cons e es)
  show ?case
  proof (cases e)
    case (Resized w ht)
    then show ?thesis using hist_turn_shown(1) [OF Cons.prems(1), of w ht] Cons.IH Cons.prems(2,3) by fastforce
  next
    case (Counts a)
    then show ?thesis using hist_turn_shown(2) [OF Cons.prems(1), of a] Cons.IH Cons.prems(2,3) by fastforce
  qed (use Cons in auto)
qed simp

lemma window_zeroes: "window [] = replicate 512 0"
  by (simp add: window_def)

lemma bar_range: "(bar shift s = 0 \<longleftrightarrow> s = 0) \<and> (s \<noteq> 0 \<longrightarrow> 2 \<le> bar shift s)
  \<and> (s \<noteq> 0 \<longrightarrow> - (2 ^ 63) \<le> s - shift \<longrightarrow> s - shift < 2 ^ 63 \<longrightarrow> bar shift s = max 2 (s - shift))"
  by (auto simp: bar_def Let_def wrap_int_id)

text \<open>
  C39: the display panics when \<^verbatim>\<open>termui\<close> cannot start.  Once it has started, it never panics, whatever the size of the
  terminal, and after any number of access counts it shows the
  last 512 of them, oldest first: a bar is empty exactly for a count of 0 and has at least height 2 otherwise, and
  the height is the count less the shift when that is larger and the subtraction does not overflow.
\<close>

theorem histogram_window:
  assumes "Key_q \<notin> set es" "Key_CtrlC \<notin> set es"
  shows "run_start F (Some err) w ht h0 = Panic
    \<and> (\<exists>h h'. run_start F None w ht h0 = Ret h \<and> hist_loop F es h = Ret (Running h')
    \<and> hi_singles h' = drop (length (counts_of es)) (replicate 512 0 @ map Singles (counts_of es))
    \<and> hi_doubles h' = drop (length (counts_of es)) (replicate 512 0 @ map Doubles (counts_of es))
    \<and> line_Data (spSingles h') = map (bar (singleShift h')) (hi_singles h')
    \<and> line_Data (spDoubles h') = map (bar (doubleShift F h')) (hi_doubles h')
    \<and> (\<forall>shift s. (bar shift s = 0 \<longleftrightarrow> s = 0) \<and> (s \<noteq> 0 \<longrightarrow> 2 \<le> bar shift s)
        \<and> (s \<noteq> 0 \<longrightarrow> - (2 ^ 63) \<le> s - shift \<longrightarrow> s - shift < 2 ^ 63 \<longrightarrow> bar shift s = max 2 (s - shift))))"
proof -
  obtain h where h: "run_start F None w ht h0 = Ret h" "shown F [] [] h"
  proof -
    have "\<exists>h. run_start F None w ht h0 = Ret h \<and> shown F [] [] h"
      unfolding run_start_def Let_def option.case by (rule resize_shown) (simp_all add: window_zeroes)
    then show ?thesis using that by blast
  qed
  from hist_loop_shown [OF h(2) assms] obtain h' where "hist_loop F es h = Ret (Running h')"
    "shown F (map Singles (counts_of es)) (map Doubles (counts_of es)) h'" by auto
  moreover have "run_start F (Some err) w ht h0 = Panic" by (simp add: run_start_def Let_def)
  ultimately show ?thesis using h(1) bar_range by (intro conjI exI [of _ h] exI [of _ h']) (simp_all add: shown_def window_def)
qed

theorem histogram_window_witness:
  "\<exists>h h'. run_start exact_float64 None 80 24 (new_Histogram 100 3) = Ret h
    \<and> hist_loop exact_float64 [Counts \<lparr>Singles = 180, Doubles = 40\<rparr>, Resized 100 50] h = Ret (Running h')
    \<and> last (hi_singles h') = 180 \<and> length (line_Data (spSingles h')) = 512"
proof -
  let ?es = "[Counts \<lparr>Singles = 180, Doubles = 40\<rparr>, Resized 100 50]"
  have "Key_q \<notin> set ?es" "Key_CtrlC \<notin> set ?es" by simp_all
  from histogram_window [OF this, of exact_float64 "Foreign ''tty''" 80 24 "new_Histogram 100 3", THEN conjunct2]
  show ?thesis by (elim exE conjE) (intro exI conjI, assumption+, simp_all)
qed

end
