(* ===== verification/Server.thy ===== *)
theory Server
  imports Histogram Dial DialRounds Rounds Talk Introduce
begin

text \<open>
  A mix server, \<^verbatim>\<open>vuvuzela-server/server.go\<close>: what \<^verbatim>\<open>main\<close> starts from a configuration and the directory, and the two
  services it registers.  They share one mutex \<^verbatim>\<open>Idle\<close>: the server record holds it, and a call of a service sees it
  as the service's own.  A fatal exit is an \<open>Inl\<close>.  \<^verbatim>\<open>rpc.Dial\<close> and \<^verbatim>\<open>net.Listen\<close> are parameters; registering the services
  cannot fail, since they have exported methods and different names.  Flags, files, logging and the debug
  address are not modelled.
\<close>

section \<open>Start\<close>

record server_Conf =
  sc_ServerName :: string
  sc_PublicKey :: "bytes option"
  sc_PrivateKey :: "bytes option"
  sc_ListenAddr :: string
  sc_DebugAddr :: string
  sc_ConvoMu :: real
  sc_ConvoB :: real
  sc_DialMu :: real
  sc_DialB :: real

definition server_default_conf :: "nacl \<Rightarrow> rng \<Rightarrow> server_Conf option \<times> rng" where
  "server_default_conf N r =
     (case GenerateBoxKey N r of
        (None, r) \<Rightarrow> (None, r)
      | (Some (pk, sk), r) \<Rightarrow>
          (Some \<lparr>sc_ServerName = ''mit'', sc_PublicKey = Some pk, sc_PrivateKey = Some sk, sc_ListenAddr = [], sc_DebugAddr = [],
            sc_ConvoMu = 0, sc_ConvoB = 0, sc_DialMu = 0, sc_DialB = 0\<rparr>, r))"

definition DefaultServerAddr :: string where
  "DefaultServerAddr = '':2718''"

record 'conn mix_server =
  ms_idle :: bool
  ms_convo :: ConvoService
  ms_dial :: DialService
  ms_client :: "'conn list option"
  ms_histogram :: "Histogram option"
  ms_listen :: string

definition server_services :: "PKI \<Rightarrow> server_Conf \<Rightarrow> bytes \<Rightarrow> 'conn list option \<Rightarrow> string \<Rightarrow> 'conn mix_server" where
  "server_services pki conf sk client addr =
     \<lparr>ms_idle = False,
      ms_convo = InitConvoService \<lparr>rounds = Map.empty, Idle = False, LaplaceMu = sc_ConvoMu conf, LaplaceB = sc_ConvoB conf,
        srv_PKI = pki, ServerName = sc_ServerName conf, PrivateKey = sk, LastServer = (client = None), AccessCounts = []\<rparr>,
      ms_dial = InitDialService \<lparr>d_rounds = Map.empty, d_Idle = False, d_LaplaceMu = sc_DialMu conf, d_LaplaceB = sc_DialB conf,
        d_PKI = pki, d_ServerName = sc_ServerName conf, d_PrivateKey = sk, d_LastServer = (client = None)\<rparr>,
      ms_client = client,
      ms_histogram = (if client = None then Some (new_Histogram (sc_ConvoMu conf) (int (length (ServerOrder pki)))) else None),
      ms_listen = addr\<rparr>"

text \<open>The connection to the next server, if there is one.\<close>

definition connect_next :: "(string \<Rightarrow> nat \<Rightarrow> gerr + 'conn) \<Rightarrow> nat \<Rightarrow> PKI \<Rightarrow> string \<Rightarrow> (gerr + 'conn list option) outcome" where
  "connect_next dial ncpu pki name =
     obind (NextServer pki name) (\<lambda>addr.
       if addr \<noteq> [] then Ret (case vrpc_Dial dial addr ncpu of Inl err \<Rightarrow> Inl err | Inr client \<Rightarrow> Inr (Some client))
       else Ret (Inr None))"

definition server_main ::
  "(string \<Rightarrow> nat \<Rightarrow> gerr + 'conn) \<Rightarrow> (string \<Rightarrow> gerr option) \<Rightarrow> nat \<Rightarrow> real \<Rightarrow> PKI \<Rightarrow> server_Conf \<Rightarrow> (gerr + 'conn mix_server) outcome" where
  "server_main dial listen ncpu muOverride pki conf =
     (case (sc_PublicKey conf, sc_PrivateKey conf) of
        (Some pk, Some sk) \<Rightarrow>
          if sc_ServerName conf = [] then Ret (Inl (Foreign ''missing required fields''))
          else let conf = (if muOverride \<ge> 0 then conf\<lparr>sc_ConvoMu := muOverride\<rparr> else conf)
               in obind (connect_next dial ncpu pki (sc_ServerName conf)) (\<lambda>res.
                    case res of
                      Inl err \<Rightarrow> Ret (Inl (Wrapped ''vrpc.Dial'' err))
                    | Inr client \<Rightarrow>
                        let addr = (if sc_ListenAddr conf = [] then DefaultServerAddr else sc_ListenAddr conf)
                        in (case listen addr of
                              Some err \<Rightarrow> Ret (Inl (Wrapped ''Listen'' err))
                            | None \<Rightarrow> Ret (Inr (server_services pki conf sk client addr))))
      | _ \<Rightarrow> Ret (Inl (Foreign ''missing required fields'')))"

section \<open>Calls\<close>

text \<open>A handler of one service, run with the mutex of the server.\<close>

definition on_convo :: "(ConvoService, 'y) action \<Rightarrow> ('conn mix_server, 'y) action" where
  "on_convo act ms r =
     obind (act ((ms_convo ms)\<lparr>Idle := ms_idle ms\<rparr>) r) (\<lambda>(res, srv, r).
       Ret (res, ms\<lparr>ms_convo := srv, ms_idle := Idle srv\<rparr>, r))"

definition on_dial :: "(DialService, 'y) action \<Rightarrow> ('conn mix_server, 'y) action" where
  "on_dial act ms r =
     obind (act ((ms_dial ms)\<lparr>d_Idle := ms_idle ms\<rparr>) r) (\<lambda>(res, srv, r).
       Ret (res, ms\<lparr>ms_dial := srv, ms_idle := d_Idle srv\<rparr>, r))"

text \<open>The handlers that call the next server, whose state is \<open>c\<close>.\<close>

definition on_convo_next :: "(ConvoService \<times> 'c, 'y) action \<Rightarrow> ('conn mix_server \<times> 'c, 'y) action" where
  "on_convo_next act = (\<lambda>(ms, c) r.
     obind (act ((ms_convo ms)\<lparr>Idle := ms_idle ms\<rparr>, c) r) (\<lambda>(res, (srv, c), r).
       Ret (res, (ms\<lparr>ms_convo := srv, ms_idle := Idle srv\<rparr>, c), r)))"

definition on_dial_next :: "(DialService \<times> 'c, 'y) action \<Rightarrow> ('conn mix_server \<times> 'c, 'y) action" where
  "on_dial_next act = (\<lambda>(ms, c) r.
     obind (act ((ms_dial ms)\<lparr>d_Idle := ms_idle ms\<rparr>, c) r) (\<lambda>(res, (srv, c), r).
       Ret (res, (ms\<lparr>ms_dial := srv, ms_idle := d_Idle srv\<rparr>, c), r)))"

text \<open>
  A \<open>Close\<close> that has given the mutex back goes on while other calls are answered.  \<open>closing\<close> holds those calls, each with
  its round and what is left of it, and the rounds whose \<open>Close\<close> has ended since, with or without an error.
\<close>

record closing =
  cg_convo :: "(u32 \<times> convo_rest) list"
  cg_convo_ended :: "u32 set"
  cg_dial :: "(u32 \<times> dial_rest) list"
  cg_dial_ended :: "u32 set"

definition no_closing :: closing where
  "no_closing = \<lparr>cg_convo = [], cg_convo_ended = {}, cg_dial = [], cg_dial_ended = {}\<rparr>"

text \<open>The rounds that have been handed on; a round that is deleted or created is none of them.\<close>

definition convo_passed :: "closing \<Rightarrow> u32 set" where
  "convo_passed g = fst ` set (cg_convo g) \<union> cg_convo_ended g"

definition dial_passed :: "closing \<Rightarrow> u32 set" where
  "dial_passed g = fst ` set (cg_dial g) \<union> cg_dial_ended g"

definition forget_convo :: "u32 \<Rightarrow> closing \<Rightarrow> closing" where
  "forget_convo R g = g\<lparr>cg_convo := filter (\<lambda>x. fst x \<noteq> R) (cg_convo g), cg_convo_ended := cg_convo_ended g - {R}\<rparr>"

definition forget_dial :: "u32 \<Rightarrow> closing \<Rightarrow> closing" where
  "forget_dial R g = g\<lparr>cg_dial := filter (\<lambda>x. fst x \<noteq> R) (cg_dial g), cg_dial_ended := cg_dial_ended g - {R}\<rparr>"

definition convo_hand :: "u32 \<Rightarrow> convo_rest \<Rightarrow> closing \<Rightarrow> closing" where
  "convo_hand R rest g = g\<lparr>cg_convo := cg_convo g @ [(R, rest)]\<rparr>"

definition dial_hand :: "u32 \<Rightarrow> dial_rest \<Rightarrow> closing \<Rightarrow> closing" where
  "dial_hand R rest g = g\<lparr>cg_dial := cg_dial g @ [(R, rest)]\<rparr>"

definition convo_end :: "u32 \<Rightarrow> convo_rest \<Rightarrow> closing \<Rightarrow> closing" where
  "convo_end R rest g = g\<lparr>cg_convo := remove1 (R, rest) (cg_convo g), cg_convo_ended := insert R (cg_convo_ended g)\<rparr>"

definition dial_end :: "u32 \<Rightarrow> dial_rest \<Rightarrow> closing \<Rightarrow> closing" where
  "dial_end R rest g = g\<lparr>cg_dial := remove1 (R, rest) (cg_dial g), cg_dial_ended := insert R (cg_dial_ended g)\<rparr>"

text \<open>
  The calls a server answers, in any order and with the two parts of a \<open>Close\<close> apart.  A round is handed on once: its
  \<open>Close\<close> is not called again after it has given the mutex back.  The rule \<open>elsewhere\<close> is for what others do to the state that
  the calls share: the next server, the reader of the access counts, and a \<open>Close\<close> whose round was deleted meanwhile.
\<close>

inductive server_step ::
  "nacl \<Rightarrow> float64 \<Rightarrow> 'c convo_client \<Rightarrow> 'c dial_client \<Rightarrow> schedule \<times> schedule \<Rightarrow> schedule \<Rightarrow>
    'conn mix_server \<times> closing \<times> 'c \<Rightarrow> 'conn mix_server \<times> closing \<times> 'c \<Rightarrow> bool"
  for N F convo dial orders order where
  convo_NewRound: "on_convo (Convo_NewRound N F Round) ms r = Ret (res, ms', r') \<Longrightarrow> g' = (if res = Inr () then forget_convo Round g else g) \<Longrightarrow>
    server_step N F convo dial orders order (ms, g, c) (ms', g', c)"
| convo_Open: "on_convo (Convo_Open Round n) ms r = Ret (res, ms', r') \<Longrightarrow> server_step N F convo dial orders order (ms, g, c) (ms', g, c)"
| convo_Add: "on_convo (Convo_Add N Round off onions) ms r = Ret (res, ms', r') \<Longrightarrow> server_step N F convo dial orders order (ms, g, c) (ms', g, c)"
| convo_Get: "on_convo (Convo_Get N Round off cnt) ms r = Ret (res', ms', r') \<Longrightarrow> server_step N F convo dial orders order (ms, g, c) (ms', g, c)"
| convo_Delete: "on_convo (Convo_Delete Round) ms r = Ret (res, ms', r') \<Longrightarrow>
    server_step N F convo dial orders order (ms, g, c) (ms', forget_convo Round g, c)"
| convo_Close_fails: "on_convo_next (Convo_Close_begin N convo Round) (ms, c) r = Ret (Inl err, (ms', c'), r') \<Longrightarrow>
    server_step N F convo dial orders order (ms, g, c) (ms', g, c')"
| convo_Close_begins: "Round \<notin> convo_passed g \<Longrightarrow> on_convo_next (Convo_Close_begin N convo Round) (ms, c) r = Ret (Inr rest, (ms', c'), r') \<Longrightarrow>
    server_step N F convo dial orders order (ms, g, c) (ms', convo_hand Round rest g, c')"
| convo_Close_ends: "(Round, rest) \<in> set (cg_convo g) \<Longrightarrow>
    on_convo_next (Convo_Close_end convo orders Round rest) (ms, c) r = Ret (res, (ms', c'), r') \<Longrightarrow>
    server_step N F convo dial orders order (ms, g, c) (ms', convo_end Round rest g, c')"
| dial_NewRound: "on_dial (Dial_NewRound N F Round) ms r = Ret (res, ms', r') \<Longrightarrow> g' = (if res = Inr () then forget_dial Round g else g) \<Longrightarrow>
    server_step N F convo dial orders order (ms, g, c) (ms', g', c)"
| dial_Add: "on_dial (Dial_Add N Round onions) ms r = Ret (res, ms', r') \<Longrightarrow> server_step N F convo dial orders order (ms, g, c) (ms', g, c)"
| dial_Buckets: "on_dial (Dial_Buckets N Round) ms r = Ret (res'', ms', r') \<Longrightarrow> server_step N F convo dial orders order (ms, g, c) (ms', g, c)"
| dial_Close_fails: "on_dial_next (Dial_Close_begin dial Round) (ms, c) r = Ret (Inl err, (ms', c'), r') \<Longrightarrow>
    server_step N F convo dial orders order (ms, g, c) (ms', g, c')"
| dial_Close_begins: "Round \<notin> dial_passed g \<Longrightarrow> on_dial_next (Dial_Close_begin dial Round) (ms, c) r = Ret (Inr dial_rest, (ms', c'), r') \<Longrightarrow>
    server_step N F convo dial orders order (ms, g, c) (ms', dial_hand Round dial_rest g, c')"
| dial_Close_ends: "(Round, dial_rest) \<in> set (cg_dial g) \<Longrightarrow>
    on_dial_next (Dial_Close_end dial order Round dial_rest) (ms, c) r = Ret (res, (ms', c'), r') \<Longrightarrow>
    server_step N F convo dial orders order (ms, g, c) (ms', dial_end Round dial_rest g, c')"
| elsewhere: "server_step N F convo dial orders order (ms, g, c) (ms\<lparr>ms_convo := (ms_convo ms)\<lparr>AccessCounts := counts\<rparr>\<rparr>, g, c')"

section \<open>One mutex for two services\<close>

text \<open>
  What a service does with the mutex: \<open>lock_step U i U' i'\<close> says how a call changes the set \<open>U\<close> of rounds that are
  collecting messages and the state \<open>i\<close> of the mutex.
\<close>

inductive lock_step :: "'id set \<Rightarrow> bool \<Rightarrow> 'id set \<Rightarrow> bool \<Rightarrow> bool" where
  lock_start: "U' \<subseteq> insert R U \<Longrightarrow> lock_step U False U' True"
| lock_keep: "U' \<subseteq> U \<Longrightarrow> lock_step U i U' i"
| lock_finish: "R \<in> U \<Longrightarrow> U' \<subseteq> U - {R} \<Longrightarrow> lock_step U True U' False"

text \<open>A system whose steps treat the mutex so has one such round at a time.\<close>

locale shared_mutex =
  fixes step :: "'s \<Rightarrow> 's \<Rightarrow> bool" and pending :: "'s \<Rightarrow> 'id set" and held :: "'s \<Rightarrow> bool"
  assumes step_locks: "step s s' \<Longrightarrow> lock_step (pending s) (held s) (pending s') (held s')"
begin

definition alone :: "'s \<Rightarrow> bool" where
  "alone s \<longleftrightarrow> (\<forall>x \<in> pending s. \<forall>y \<in> pending s. x = y) \<and> (pending s \<noteq> {} \<longrightarrow> held s)"

lemma alone_step:
  assumes "alone s" "step s s'"
  shows "alone s'"
  using step_locks [OF assms(2)] assms(1) unfolding alone_def by cases blast+

lemma alone_run: "step\<^sup>*\<^sup>* s s' \<Longrightarrow> alone s \<Longrightarrow> alone s'"
  by (induction rule: rtranclp_induct) (auto intro: alone_step)

end

definition convo_pending :: "ConvoService \<Rightarrow> u32 set" where
  "convo_pending srv = {R. \<exists>rd. rounds srv R = Some rd \<and> status rd \<noteq> convoRoundClosed}"

definition dial_pending :: "DialService \<Rightarrow> u32 set" where
  "dial_pending srv = {R. \<exists>rd. d_rounds srv R = Some rd \<and> d_status rd \<noteq> dialRoundClosed}"

definition unfinished :: "'conn mix_server \<Rightarrow> (u32 + u32) set" where
  "unfinished ms = Inl ` convo_pending (ms_convo ms) \<union> Inr ` dial_pending (ms_dial ms)"

lemma pending_idle [simp]: "convo_pending (srv\<lparr>Idle := b\<rparr>) = convo_pending srv" "dial_pending (d\<lparr>d_Idle := b\<rparr>) = dial_pending d"
  "convo_pending (srv\<lparr>AccessCounts := acs\<rparr>) = convo_pending srv"
  by (simp_all add: convo_pending_def dial_pending_def)

lemma convo_pending_put:
  "convo_pending (put_round R rd srv) = (if status rd = convoRoundClosed then convo_pending srv - {R} else insert R (convo_pending srv))"
  by (auto simp: convo_pending_def put_round_def)

lemma dial_pending_put:
  "dial_pending (put_dial R rd srv) = (if d_status rd = dialRoundClosed then dial_pending srv - {R} else insert R (dial_pending srv))"
  by (auto simp: dial_pending_def put_dial_def)

lemma pending_report [simp]: "convo_pending (report_access a srv) = convo_pending srv"
  by (simp add: convo_pending_def report_access_def)

lemma getRound_pending: "getRound srv R st = Inr rd \<Longrightarrow> status rd = st \<and> (st \<noteq> convoRoundClosed \<longrightarrow> R \<in> convo_pending srv)"
  by (auto simp: getRound_def convo_pending_def split: option.splits if_splits)

lemma dial_getRound_pending: "dial_getRound srv R st = Inr rd \<Longrightarrow> d_status rd = st \<and> (st \<noteq> dialRoundClosed \<longrightarrow> R \<in> dial_pending srv)"
  by (auto simp: dial_getRound_def dial_pending_def split: option.splits if_splits)

text \<open>What the handlers do to the mutex of their service and to the rounds that are not closed.\<close>

lemma convo_NewRound_locks:
  assumes "Convo_NewRound N F R srv r = Ret (res, srv', r')"
  shows "\<not> Idle srv \<and> Idle srv' \<and> convo_pending srv' = (if res = Inr () then insert R (convo_pending srv) else convo_pending srv)"
  using assms
  by (auto simp: Convo_NewRound_def convo_pending_put new_round_def Let_def outcome_simps split: if_splits)

lemma convo_quiet:
  "Convo_Open R n srv r = Ret (res, srv', r') \<Longrightarrow> Idle srv' = Idle srv \<and> convo_pending srv' \<subseteq> convo_pending srv"
  "Convo_Get N R off cnt srv r = Ret (res', srv', r') \<Longrightarrow> Idle srv' = Idle srv \<and> convo_pending srv' \<subseteq> convo_pending srv"
  "Convo_Delete R srv r = Ret (res, srv', r') \<Longrightarrow> Idle srv' = Idle srv \<and> convo_pending srv' \<subseteq> convo_pending srv - {R}"
  by (auto simp: Convo_Open_def Convo_Get_def Convo_Delete_def convo_pending_put Let_def outcome_simps
      split: if_splits sum.splits dest: getRound_pending) (auto simp: convo_pending_def split: if_splits)

lemma convo_Add_quiet:
  assumes "Convo_Add N R off onions srv r = Ret (res, srv', r')"
  shows "Idle srv' = Idle srv \<and> convo_pending srv' \<subseteq> convo_pending srv"
proof (cases "getRound srv R convoRoundOpen")
  case (Inr rd)
  have "srv' = srv \<or> (\<exists>rd'. status rd' = status rd \<and> srv' = put_round R rd' srv)"
    using assms Inr by (auto simp: Convo_Add_def Let_def outcome_simps split: if_splits dest!: add_onions_status)
  then show ?thesis using getRound_pending [OF Inr] by (auto simp: convo_pending_put)
qed (use assms in \<open>simp add: Convo_Add_def\<close>)

lemma convo_Close_begin_locks:
  assumes "Convo_Close_begin N client R (srv, c) r = Ret (res, (srv', c'), r')"
  shows "convo_pending srv' \<subseteq> convo_pending srv \<and> (case res of Inl err \<Rightarrow> Idle srv' = Idle srv | Inr rest \<Rightarrow> Idle srv \<and> \<not> Idle srv' \<and> R \<in> convo_pending srv)"
proof (cases "getRound srv R convoRoundOpen")
  case (Inr rd0)
  then obtain rd where filt: "filterIncoming rd0 = Ret rd" using assms by (auto simp: Convo_Close_begin_def outcome_simps)
  have R: "R \<in> convo_pending srv" "status rd = convoRoundOpen"
    using getRound_pending [OF Inr] filterIncoming_status [OF filt] by simp_all
  show ?thesis
    using assms Inr filt R
    by (auto simp: Convo_Close_begin_def unlock_idle_def Let_def outcome_simps convo_pending_put split: if_splits sum.splits prod.splits)
qed (use assms in \<open>auto simp: Convo_Close_begin_def\<close>)

lemma convo_Close_end_locks:
  assumes "Convo_Close_end client orders R rest (srv, c) r = Ret (res, (srv', c'), r')"
  shows "Idle srv' = Idle srv \<and> convo_pending srv' \<subseteq> convo_pending srv"
  using assms
  by (cases rest) (auto simp: Convo_Close_end_def Let_def outcome_simps convo_pending_put report_access_def split: if_splits sum.splits option.splits)

lemma dial_NewRound_locks:
  assumes "Dial_NewRound N F R srv r = Ret (res, srv', r')"
  shows "\<not> d_Idle srv \<and> d_Idle srv' \<and> dial_pending srv' = (if res = Inr () then insert R (dial_pending srv) else dial_pending srv)"
  using assms by (auto simp: Dial_NewRound_def dial_pending_put Let_def split: if_splits outcome.splits)

lemma dial_quiet:
  "Dial_Add N R onions srv r = Ret (res, srv', r') \<Longrightarrow> d_Idle srv' = d_Idle srv \<and> dial_pending srv' \<subseteq> dial_pending srv"
  "Dial_Buckets N R srv r = Ret (res', srv', r') \<Longrightarrow> d_Idle srv' = d_Idle srv \<and> dial_pending srv' \<subseteq> dial_pending srv"
  by (auto simp: Dial_Add_def Dial_Buckets_def dial_pending_put Let_def split: if_splits sum.splits dest: dial_getRound_pending)

lemma dial_Close_begin_locks:
  assumes "Dial_Close_begin client R (srv, c) r = Ret (res, (srv', c'), r')"
  shows "dial_pending srv' \<subseteq> dial_pending srv \<and> (case res of Inl err \<Rightarrow> d_Idle srv' = d_Idle srv | Inr rest \<Rightarrow> d_Idle srv \<and> \<not> d_Idle srv' \<and> R \<in> dial_pending srv)"
proof (cases "dial_getRound srv R dialRoundOpen")
  case (Inr rd)
  show ?thesis
    using assms Inr dial_getRound_pending [OF Inr]
    by (auto simp: Dial_Close_begin_def dial_unlock_def Let_def outcome_simps dial_pending_put split: if_splits sum.splits)
qed (use assms in \<open>auto simp: Dial_Close_begin_def\<close>)

lemma dial_Close_end_locks:
  assumes "Dial_Close_end client order R rest (srv, c) r = Ret (res, (srv', c'), r')"
  shows "d_Idle srv' = d_Idle srv \<and> dial_pending srv' \<subseteq> dial_pending srv"
  using assms
  by (cases rest) (auto simp: Dial_Close_end_def deref_def outcome_simps dial_pending_put split: if_splits sum.splits option.splits)

text \<open>The rounds of both services that are created and have not been handed on.\<close>

definition collecting :: "'conn mix_server \<Rightarrow> closing \<Rightarrow> (u32 + u32) set" where
  "collecting ms g = unfinished ms - (Inl ` convo_passed g \<union> Inr ` dial_passed g)"

lemma collecting_eq:
  "collecting ms g = Inl ` (convo_pending (ms_convo ms) - convo_passed g) \<union> Inr ` (dial_pending (ms_dial ms) - dial_passed g)"
  by (auto simp: collecting_def unfinished_def)

lemma passed_simps [simp]:
  "convo_passed (forget_convo R g) = convo_passed g - {R}" "dial_passed (forget_convo R g) = dial_passed g"
  "dial_passed (forget_dial R g) = dial_passed g - {R}" "convo_passed (forget_dial R g) = convo_passed g"
  "convo_passed (convo_hand R rest g) = insert R (convo_passed g)" "dial_passed (convo_hand R rest g) = dial_passed g"
  "dial_passed (dial_hand R rest' g) = insert R (dial_passed g)" "convo_passed (dial_hand R rest' g) = convo_passed g"
  "dial_passed (convo_end R rest g) = dial_passed g" "convo_passed (dial_end R rest' g) = convo_passed g"
  "convo_passed no_closing = {}" "dial_passed no_closing = {}"
  by (auto simp: convo_passed_def dial_passed_def forget_convo_def forget_dial_def convo_hand_def dial_hand_def convo_end_def dial_end_def no_closing_def)

lemma passed_end: "convo_passed g \<subseteq> convo_passed (convo_end R rest g)" "dial_passed g \<subseteq> dial_passed (dial_end R rest' g)"
  by (auto simp: convo_passed_def dial_passed_def convo_end_def dial_end_def rev_image_eqI)

lemma on_convo_Ret:
  assumes "on_convo act ms r = Ret (res, ms', r')"
  obtains srv' where "act ((ms_convo ms)\<lparr>Idle := ms_idle ms\<rparr>) r = Ret (res, srv', r')" "ms' = ms\<lparr>ms_convo := srv', ms_idle := Idle srv'\<rparr>"
  using assms by (auto simp: on_convo_def outcome_simps)

lemma on_dial_Ret:
  assumes "on_dial act ms r = Ret (res, ms', r')"
  obtains srv' where "act ((ms_dial ms)\<lparr>d_Idle := ms_idle ms\<rparr>) r = Ret (res, srv', r')" "ms' = ms\<lparr>ms_dial := srv', ms_idle := d_Idle srv'\<rparr>"
  using assms by (auto simp: on_dial_def outcome_simps)

lemma on_convo_next_Ret:
  assumes "on_convo_next act (ms, c) r = Ret (res, (ms', c'), r')"
  obtains srv' where "act ((ms_convo ms)\<lparr>Idle := ms_idle ms\<rparr>, c) r = Ret (res, (srv', c'), r')" "ms' = ms\<lparr>ms_convo := srv', ms_idle := Idle srv'\<rparr>"
  using assms by (auto simp: on_convo_next_def outcome_simps)

lemma on_dial_next_Ret:
  assumes "on_dial_next act (ms, c) r = Ret (res, (ms', c'), r')"
  obtains srv' where "act ((ms_dial ms)\<lparr>d_Idle := ms_idle ms\<rparr>, c) r = Ret (res, (srv', c'), r')" "ms' = ms\<lparr>ms_dial := srv', ms_idle := d_Idle srv'\<rparr>"
  using assms by (auto simp: on_dial_next_def outcome_simps)

lemma server_step_locks:
  assumes "server_step N F convo dial orders order x y"
  shows "lock_step (collecting (fst x) (fst (snd x))) (ms_idle (fst x)) (collecting (fst y) (fst (snd y))) (ms_idle (fst y))"
  using assms
proof cases
  case (convo_NewRound R ms r res ms' r' g' g c)
  from convo_NewRound(3) show ?thesis
    by (rule on_convo_Ret) (use convo_NewRound in \<open>auto simp: collecting_eq dest!: convo_NewRound_locks intro!: lock_start [where R = "Inl R"]\<close>)
next
  case (dial_NewRound R ms r res ms' r' g' g c)
  from dial_NewRound(3) show ?thesis
    by (rule on_dial_Ret) (use dial_NewRound in \<open>auto simp: collecting_eq dest!: dial_NewRound_locks intro!: lock_start [where R = "Inr R"]\<close>)
next
  case (convo_Close_begins R g ms c r rest ms' c' r')
  from convo_Close_begins(4) show ?thesis
    by (rule on_convo_next_Ret) (use convo_Close_begins in \<open>auto simp: collecting_eq image_iff subset_iff dest!: convo_Close_begin_locks intro!: lock_finish [where R = "Inl R"]\<close>)
next
  case (dial_Close_begins R g ms c r rest ms' c' r')
  from dial_Close_begins(4) show ?thesis
    by (rule on_dial_next_Ret) (use dial_Close_begins in \<open>auto simp: collecting_eq image_iff subset_iff dest!: dial_Close_begin_locks intro!: lock_finish [where R = "Inr R"]\<close>)
next
  case (convo_Close_ends R rest g ms c r res ms' c' r')
  from convo_Close_ends(4) show ?thesis
    by (rule on_convo_next_Ret) (use convo_Close_ends passed_end(1) [of g R rest] in \<open>auto simp: collecting_eq image_iff subset_iff dest!: convo_Close_end_locks intro!: lock_keep\<close>)
next
  case (dial_Close_ends R rest g ms c r res ms' c' r')
  from dial_Close_ends(4) show ?thesis
    by (rule on_dial_next_Ret) (use dial_Close_ends passed_end(2) [of g R rest] in \<open>auto simp: collecting_eq image_iff subset_iff dest!: dial_Close_end_locks intro!: lock_keep\<close>)
qed (auto simp: collecting_eq image_iff subset_iff elim!: on_convo_Ret on_dial_Ret on_convo_next_Ret on_dial_next_Ret
    dest!: convo_quiet convo_Add_quiet convo_Close_begin_locks dial_quiet dial_Close_begin_locks intro!: lock_keep)

interpretation one_mutex: shared_mutex "server_step N F convo dial orders order" "\<lambda>x. collecting (fst x) (fst (snd x))" "\<lambda>x. ms_idle (fst x)"
  by unfold_locales (rule server_step_locks)

section \<open>What main starts\<close>

lemma server_main_started:
  assumes "server_main dial listen ncpu mu pki conf = Ret (Inr ms)"
  shows "\<exists>sk. sc_PrivateKey conf = Some sk \<and> ms_idle ms = False
    \<and> srv_PKI (ms_convo ms) = pki \<and> ServerName (ms_convo ms) = sc_ServerName conf \<and> PrivateKey (ms_convo ms) = sk
    \<and> rounds (ms_convo ms) = Map.empty \<and> \<not> Idle (ms_convo ms) \<and> (LastServer (ms_convo ms) \<longleftrightarrow> NextServer pki (sc_ServerName conf) = Ret [])
    \<and> d_PKI (ms_dial ms) = pki \<and> d_ServerName (ms_dial ms) = sc_ServerName conf \<and> d_PrivateKey (ms_dial ms) = sk
    \<and> d_rounds (ms_dial ms) = Map.empty \<and> \<not> d_Idle (ms_dial ms) \<and> (d_LastServer (ms_dial ms) \<longleftrightarrow> NextServer pki (sc_ServerName conf) = Ret [])"
  using assms
  by (auto simp: server_main_def server_services_def connect_next_def InitConvoService_def InitDialService_def Let_def outcome_simps
      split: option.splits if_splits sum.splits)

text \<open>Which \<open>Close\<close> needs the mutex, and what a failed one leaves.\<close>

lemma convo_Close_ok:
  assumes "Convo_Close N client orders R (srv, c) r = Ret (Inr (), (srv', c'), r')"
  shows "Idle srv \<and> \<not> Idle srv'"
proof (cases "getRound srv R convoRoundOpen")
  case (Inr rd0)
  then obtain rd where filt: "filterIncoming rd0 = Ret rd" using assms by (auto simp: Convo_Close_eq outcome_simps)
  show ?thesis
  proof (cases "LastServer srv")
    case True
    show ?thesis by (rule Convo_Close_last [OF assms Inr filt True]) (simp add: report_access_def)
  next
    case False
    show ?thesis by (rule Convo_Close_relay [OF assms Inr filt False]) auto
  qed
qed (use assms in \<open>simp add: Convo_Close_eq\<close>)

lemma convo_Close_failed:
  assumes "Convo_Close N client orders R (srv, c) r = Ret (Inl (Wrapped ''RunConvoRound'' err), (srv', c'), r')"
  shows "\<not> Idle srv' \<and> R \<in> convo_pending srv'"
proof (cases "getRound srv R convoRoundOpen")
  case (Inl e)
  then show ?thesis using assms by (auto simp: Convo_Close_eq getRound_def split: option.splits if_splits)
next
  case (Inr rd0)
  then obtain rd where filt: "filterIncoming rd0 = Ret rd" using assms by (auto simp: Convo_Close_eq outcome_simps)
  then have "status rd = convoRoundOpen" using getRound_pending [OF Inr] filterIncoming_status [OF filt] by simp
  moreover have "\<not> LastServer srv"
  proof
    assume "LastServer srv"
    from Convo_Close_last [OF assms Inr filt this] show False by blast
  qed
  ultimately show ?thesis
    by (elim Convo_Close_relay [OF assms Inr filt]) (auto simp: convo_pending_put)
qed

lemma chain_okI:
  assumes "\<forall>i < length ss. srv_PKI (ss ! i) = pki \<and> Index pki (ServerName (ss ! i)) + (length ss - i) = length (ServerOrder pki)
    \<and> (LastServer (ss ! i) \<longleftrightarrow> Suc i = length ss)"
  shows "chain_ok pki ss"
  using assms
proof (induction ss)
  case (Cons s ss)
  show ?case using Cons.prems [rule_format, of 0] Cons.prems [rule_format, of "Suc _"] by (auto intro!: Cons.IH)
qed simp

lemma dial_chain_okI:
  assumes "\<forall>i < length ss. d_PKI (ss ! i) = pki \<and> Index pki (d_ServerName (ss ! i)) + (length ss - i) = length (ServerOrder pki)
    \<and> (d_LastServer (ss ! i) \<longleftrightarrow> Suc i = length ss)"
  shows "dial_chain_ok pki ss"
  using assms
proof (induction ss)
  case (Cons s ss)
  show ?case using Cons.prems [rule_format, of 0] Cons.prems [rule_format, of "Suc _"] by (auto intro!: Cons.IH)
qed simp

section \<open>Properties\<close>

text \<open>
  C11: what \<^verbatim>\<open>main\<close> starts on the servers of a directory fits together.  When every server listed was started with the
  directory \<open>ReadPKI\<close> accepted and a configuration with its name and the private key of its listed public key, the
  conversation services and the dialing services form chains in the order of the directory, the last one and only the last
  one takes itself for the last, the invariants of the services hold, and the keys clients seal for are those the
  servers open with.
\<close>

theorem deployment_ok:
  assumes "ReadPKI pki0 = Ret (Inr pki)" "distinct (ServerOrder pki)" "map sc_ServerName confs = ServerOrder pki"
    and "length mss = length confs"
    and "\<forall>i < length confs. server_main (dial i) (listen i) (ncpu i) (mu i) pki (confs ! i) = Ret (Inr (mss ! i))"
    and "\<forall>conf \<in> set confs. key_of pki (sc_ServerName conf) = map_option (box_PublicOf N) (sc_PrivateKey conf)"
  shows "mss \<noteq> []
    \<and> chain_ok pki (map ms_convo mss) \<and> (\<forall>s \<in> set (map ms_convo mss). convo_inv N s \<and> \<not> Idle s \<and> rounds s = Map.empty)
    \<and> dial_chain_ok pki (map ms_dial mss) \<and> (\<forall>s \<in> set (map ms_dial mss). dial_inv N s \<and> \<not> d_Idle s \<and> d_rounds s = Map.empty)
    \<and> ServerKeys pki = Ret (public_keys N (map PrivateKey (map ms_convo mss)))
    \<and> ServerKeys pki = Ret (public_keys N (map d_PrivateKey (map ms_dial mss)))"
proof -
  note pki = ReadPKI_accepts(1) [OF assms(1)]
  let ?n = "length (ServerOrder pki)"
  have n: "length confs = ?n" "length mss = ?n" "mss \<noteq> []"
    using arg_cong [OF assms(3), of length] assms(4) pki by (auto simp: pki_ok_def)
  have name: "sc_ServerName (confs ! i) = ServerOrder pki ! i" if "i < ?n" for i
    using arg_cong [OF assms(3), of "\<lambda>l. l ! i"] that n by simp
  have started: "\<exists>sk. sc_PrivateKey (confs ! i) = Some sk \<and> ms_idle (mss ! i) = False
    \<and> srv_PKI (ms_convo (mss ! i)) = pki \<and> ServerName (ms_convo (mss ! i)) = ServerOrder pki ! i \<and> PrivateKey (ms_convo (mss ! i)) = sk
    \<and> rounds (ms_convo (mss ! i)) = Map.empty \<and> \<not> Idle (ms_convo (mss ! i)) \<and> (LastServer (ms_convo (mss ! i)) \<longleftrightarrow> Suc i = ?n)
    \<and> d_PKI (ms_dial (mss ! i)) = pki \<and> d_ServerName (ms_dial (mss ! i)) = ServerOrder pki ! i \<and> d_PrivateKey (ms_dial (mss ! i)) = sk
    \<and> d_rounds (ms_dial (mss ! i)) = Map.empty \<and> \<not> d_Idle (ms_dial (mss ! i)) \<and> (d_LastServer (ms_dial (mss ! i)) \<longleftrightarrow> Suc i = ?n)"
    if "i < ?n" for i
    using server_main_started [OF assms(5) [rule_format, of i]] server_position [OF pki assms(2) that, of N] that n(1) name [OF that] by simp
  have index: "Index pki (ServerOrder pki ! i) + (?n - i) = ?n" if "i < ?n" for i
    using Index_found [OF assms(2) that] that by simp
  have "chain_ok pki (map ms_convo mss)" "dial_chain_ok pki (map ms_dial mss)"
    using started index n(2) by (auto intro!: chain_okI dial_chain_okI)
  moreover have "\<forall>s \<in> set (map ms_convo mss). convo_inv N s \<and> \<not> Idle s \<and> rounds s = Map.empty"
    "\<forall>s \<in> set (map ms_dial mss). dial_inv N s \<and> \<not> d_Idle s \<and> d_rounds s = Map.empty"
    using started pki n(2) by (auto simp: in_set_conv_nth convo_inv_def dial_inv_def)
  moreover have "key_of pki (ServerOrder pki ! i) = Some (box_PublicOf N (PrivateKey (ms_convo (mss ! i))))
      \<and> d_PrivateKey (ms_dial (mss ! i)) = PrivateKey (ms_convo (mss ! i))" if "i < ?n" for i
    using started [OF that] assms(6) [rule_format, OF nth_mem, of i] name [OF that] that n(1) by auto
  then have "map (key_of pki) (ServerOrder pki) = public_keys N (map PrivateKey (map ms_convo mss))"
    "map d_PrivateKey (map ms_dial mss) = map PrivateKey (map ms_convo mss)"
    using n(2) by (auto simp: list_eq_iff_nth_eq)
  ultimately show ?thesis using n(3) ServerKeys_ok [OF pki] by simp
qed

definition sample_conf :: "string \<Rightarrow> byte \<Rightarrow> server_Conf" where
  "sample_conf name k = \<lparr>sc_ServerName = name, sc_PublicKey = Some (replicate 32 k), sc_PrivateKey = Some (replicate 32 k),
     sc_ListenAddr = [], sc_DebugAddr = [], sc_ConvoMu = 100, sc_ConvoB = 10, sc_DialMu = 50, sc_DialB = 5\<rparr>"


text \<open>
  C12: the two services of a server share the mutex \<^verbatim>\<open>Idle\<close>.  From the start on, as long as no round is closed again after its
  \<open>Close\<close> has given the mutex back, at most one round of both services together is collecting messages, from its creation
  to the point where its \<open>Close\<close> hands it on; the mutex is held while there is one, and then a new round of either kind
  waits.  Rounds that were handed on may be running, or may have failed, beside it.
\<close>

theorem one_round_at_a_time:
  assumes "server_main d listen ncpu mu pki conf = Ret (Inr ms0)"
    and "(server_step N F convo dial orders order)\<^sup>*\<^sup>* (ms0, no_closing, c0) (ms, g, c)"
  shows "(\<forall>x \<in> collecting ms g. \<forall>y \<in> collecting ms g. x = y)
    \<and> (collecting ms g \<noteq> {} \<longrightarrow> ms_idle ms \<and> on_convo (Convo_NewRound N F Round) ms r = Hang \<and> on_dial (Dial_NewRound N F Round) ms r = Hang)"
proof -
  have "unfinished ms0 = {}"
    using server_main_started [OF assms(1)] by (auto simp: unfinished_def convo_pending_def dial_pending_def)
  then have "collecting ms0 no_closing = {}" by (simp add: collecting_def)
  then have "one_mutex.alone (ms0, no_closing, c0)" by (simp add: one_mutex.alone_def)
  then have "one_mutex.alone (ms, g, c)" by (rule one_mutex.alone_run [OF assms(2)])
  then show ?thesis by (auto simp: one_mutex.alone_def on_convo_def on_dial_def Convo_NewRound_def Dial_NewRound_def)
qed

text \<open>
  C40: a \<open>Close\<close> that fails while the next server runs the round leaves the round open and the mutex free; the round can
  then not be closed until another round has taken the mutex, and closing it gives back the mutex of that round.
\<close>

theorem failed_round_unlocks:
  assumes "on_convo_next (Convo_Close N convo orders Round) (ms, c) r = Ret (Inl (Wrapped ''RunConvoRound'' err), (ms', c'), r')"
  shows "\<not> ms_idle ms' \<and> Inl Round \<in> unfinished ms'
    \<and> (\<forall>c r res x r'. on_convo_next (Convo_Close N convo orders Round) (ms', c) r = Ret (res, x, r') \<longrightarrow> res \<noteq> Inr ())
    \<and> (\<forall>b c r x r'. on_convo_next (Convo_Close N convo orders Round) (ms'\<lparr>ms_idle := b\<rparr>, c) r = Ret (Inr (), x, r') \<longrightarrow> \<not> ms_idle (fst x))"
proof -
  obtain srv' where run: "Convo_Close N convo orders Round ((ms_convo ms)\<lparr>Idle := ms_idle ms\<rparr>, c) r = Ret (Inl (Wrapped ''RunConvoRound'' err), (srv', c'), r')"
    and ms': "ms' = ms\<lparr>ms_convo := srv', ms_idle := Idle srv'\<rparr>"
    using assms by (auto simp: on_convo_next_def outcome_simps)
  have left: "\<not> ms_idle ms'" "Inl Round \<in> unfinished ms'" using convo_Close_failed [OF run] by (simp_all add: ms' unfinished_def)
  have closing: "b \<and> \<not> ms_idle (fst x)" if "on_convo_next (Convo_Close N convo orders Round) (ms'\<lparr>ms_idle := b\<rparr>, c) r = Ret (Inr (), x, r')" for b c r x r'
    using that convo_Close_ok [of N convo orders Round "(ms_convo ms')\<lparr>Idle := b\<rparr>" c r] by (fastforce simp: on_convo_next_def outcome_simps)
  have same: "ms'\<lparr>ms_idle := False\<rparr> = ms'" using left(1) by simp
  show ?thesis using left closing closing [of False, unfolded same] by blast
qed

section \<open>Witnesses\<close>

text \<open>The directory of two servers as \<open>ReadPKI\<close> returns it, and the two servers started with it.\<close>

definition sample_pki' :: PKI where
  "sample_pki' = sample_pki\<lparr>Servers := (Servers sample_pki)(''a'' \<mapsto> Some \<lparr>Address = ''localhost:2718'', PublicKey = Some (replicate 32 1)\<rparr>)\<rparr>"

definition sample_dialing :: "string \<Rightarrow> nat \<Rightarrow> gerr + unit" where
  "sample_dialing addr i = (if addr = ''localhost:2719'' then Inr () else Inl (Foreign ''refused''))"

abbreviation start_sample :: "server_Conf \<Rightarrow> (gerr + unit mix_server) outcome" where
  "start_sample conf \<equiv> server_main sample_dialing (\<lambda>_. None) 2 (- 1) sample_pki' conf"

lemma sample_read: "ReadPKI sample_pki = Ret (Inr sample_pki')"
  by (simp add: ReadPKI_def sample_pki_def sample_pki'_def check_server_def JoinHostPort_def DefaultServerPort_def)

lemma sample_started:
  "start_sample (sample_conf ''a'' 1) = Ret (Inr (server_services sample_pki' (sample_conf ''a'' 1) (replicate 32 1) (Some [(), ()]) '':2718''))"
  "start_sample (sample_conf ''b'' 2) = Ret (Inr (server_services sample_pki' (sample_conf ''b'' 2) (replicate 32 2) None '':2718''))"
  by (simp_all add: server_main_def sample_conf_def connect_next_def NextServer_def Index_def sample_pki'_def sample_pki_def server_info_def
      vrpc_Dial_def sample_dialing_def DefaultServerAddr_def numeral_2_eq_2)

theorem deployment_ok_witness:
  "\<exists>a b. start_sample (sample_conf ''a'' 1) = Ret (Inr a) \<and> start_sample (sample_conf ''b'' 2) = Ret (Inr b)
    \<and> chain_ok sample_pki' [ms_convo a, ms_convo b] \<and> dial_chain_ok sample_pki' [ms_dial a, ms_dial b]
    \<and> ServerKeys sample_pki' = Ret (public_keys clear_box [PrivateKey (ms_convo a), PrivateKey (ms_convo b)])"
proof -
  let ?a = "server_services sample_pki' (sample_conf ''a'' 1) (replicate 32 1) (Some [(), ()]) '':2718''"
  let ?b = "server_services sample_pki' (sample_conf ''b'' 2) (replicate 32 2) None '':2718''"
  let ?confs = "[sample_conf ''a'' 1, sample_conf ''b'' 2]"
  have "distinct (ServerOrder sample_pki')" "map sc_ServerName ?confs = ServerOrder sample_pki'" "length [?a, ?b] = length ?confs"
    by (simp_all add: sample_pki'_def sample_pki_def sample_conf_def)
  moreover have "\<forall>i < length ?confs. start_sample (?confs ! i) = Ret (Inr ([?a, ?b] ! i))"
    by (auto simp: sample_started less_Suc_eq)
  moreover have "\<forall>conf \<in> set ?confs. key_of sample_pki' (sc_ServerName conf) = map_option (box_PublicOf clear_box) (sc_PrivateKey conf)"
    by (simp add: key_of_def sample_pki'_def sample_pki_def sample_conf_def clear_box_def)
  ultimately have "chain_ok sample_pki' (map ms_convo [?a, ?b]) \<and> dial_chain_ok sample_pki' (map ms_dial [?a, ?b])
      \<and> ServerKeys sample_pki' = Ret (public_keys clear_box (map PrivateKey (map ms_convo [?a, ?b])))"
    using deployment_ok [OF sample_read, of ?confs "[?a, ?b]" "\<lambda>_. sample_dialing" "\<lambda>_ _. None" "\<lambda>_. 2" "\<lambda>_. - 1" clear_box] by blast
  then show ?thesis using sample_started by (intro exI [of _ ?a] exI [of _ ?b]) simp
qed

text \<open>
  The last server collects a conversation round and hands it on; while that one is still open it starts a dialing round, and
  the next conversation round has to wait.
\<close>

definition quick_conf :: server_Conf where
  "quick_conf = (sample_conf ''b'' 2)\<lparr>sc_DialMu := 0, sc_DialB := 0\<rparr>"

abbreviation quick_server :: "unit mix_server" where
  "quick_server \<equiv> server_services sample_pki' quick_conf (replicate 32 2) None '':2718''"

definition quiet_dial :: "unit dial_client" where
  "quiet_dial = \<lparr>call_DialNewRound = \<lambda>_. give (), call_DialAdd = \<lambda>_ _. give (), call_DialClose = \<lambda>_. give ()\<rparr>"

lemma quick_started: "start_sample quick_conf = Ret (Inr quick_server)"
  by (simp add: server_main_def quick_conf_def sample_conf_def connect_next_def NextServer_def Index_def sample_pki'_def sample_pki_def DefaultServerAddr_def)

lemma quick_draws: "dial_noise clear_box exact_float64 ((ms_dial quick_server)\<lparr>d_Idle := True\<rparr>) n (\<lambda>_. 1) = Ret ([], \<lambda>_. 1)"
proof -
  have "cappedFlooredLaplace exact_float64 0 0 (\<lambda>_. 1) = Some (0, \<lambda>_. 1)"
    using cappedFlooredLaplace_finds [of exact_float64 0 0 "\<lambda>_. 1" 0] by (simp add: laplace_of_ones min_int_def)
  then show ?thesis
    by (simp add: dial_noise_def dial_counts_def TotalDialBuckets_def server_services_def InitDialService_def quick_conf_def sample_conf_def
        sample_pki'_def sample_pki_def NextServerKeys_def Index_def FillWithFakeIntroductions_def copy_into_def wrap_int_def keys_of_def)
qed

abbreviation quick_open :: ConvoRound where
  "quick_open \<equiv> new_round\<lparr>numIncoming := 0, sharedKeys := [], incoming := [], incomingIndex := [], replies := [], status := convoRoundOpen\<rparr>"

lemma quick_steps:
  defines "ms1 \<equiv> quick_server\<lparr>ms_convo := put_round 7 new_round ((ms_convo quick_server)\<lparr>Idle := True\<rparr>), ms_idle := True\<rparr>"
    and "ms2 \<equiv> quick_server\<lparr>ms_convo := put_round 7 quick_open ((ms_convo quick_server)\<lparr>Idle := True\<rparr>), ms_idle := True\<rparr>"
    and "ms3 \<equiv> quick_server\<lparr>ms_convo := put_round 7 quick_open ((ms_convo quick_server)\<lparr>Idle := False\<rparr>), ms_idle := False\<rparr>"
    and "ms4 \<equiv> quick_server\<lparr>ms_convo := put_round 7 quick_open ((ms_convo quick_server)\<lparr>Idle := False\<rparr>), ms_idle := True,
      ms_dial := put_dial 1 \<lparr>d_status = dialRoundOpen, d_incoming = [], d_noise = Some []\<rparr> ((ms_dial quick_server)\<lparr>d_Idle := True\<rparr>)\<rparr>"
  shows "on_convo (Convo_NewRound clear_box exact_float64 7) quick_server (\<lambda>_. 1) = Ret (Inr (), ms1, \<lambda>_. 1)"
    and "on_convo (Convo_Open 7 0) ms1 (\<lambda>_. 1) = Ret (Inr (), ms2, \<lambda>_. 1)"
    and "on_convo_next (Convo_Close_begin clear_box client 7) (ms2, ()) (\<lambda>_. 1) = Ret (Inr (LastRest \<lparr>Singles = 0, Doubles = 0\<rparr>), (ms3, ()), \<lambda>_. 1)"
    and "on_dial (Dial_NewRound clear_box exact_float64 1) ms3 (\<lambda>_. 1) = Ret (Inr (), ms4, \<lambda>_. 1)"
    and "unfinished ms4 = {Inl 7, Inr 1}"
proof -
  have dial: "d_rounds (ms_dial quick_server) = Map.empty" by (simp add: server_services_def InitDialService_def)
  show "on_convo (Convo_NewRound clear_box exact_float64 7) quick_server (\<lambda>_. 1) = Ret (Inr (), ms1, \<lambda>_. 1)"
    by (simp add: ms1_def on_convo_def Convo_NewRound_def server_services_def InitConvoService_def)
  show "on_convo (Convo_Open 7 0) ms1 (\<lambda>_. 1) = Ret (Inr (), ms2, \<lambda>_. 1)"
    by (simp add: ms1_def ms2_def on_convo_def Convo_Open_def getRound_def put_round_def new_round_def)
  show "on_convo_next (Convo_Close_begin clear_box client 7) (ms2, ()) (\<lambda>_. 1) = Ret (Inr (LastRest \<lparr>Singles = 0, Doubles = 0\<rparr>), (ms3, ()), \<lambda>_. 1)"
    by (simp add: ms2_def ms3_def on_convo_next_def Convo_Close_begin_def getRound_def put_round_def filterIncoming_def new_round_def unlock_idle_def
        exchange_all_def server_services_def InitConvoService_def Let_def)
  show "on_dial (Dial_NewRound clear_box exact_float64 1) ms3 (\<lambda>_. 1) = Ret (Inr (), ms4, \<lambda>_. 1)"
    using quick_draws dial by (simp add: ms3_def ms4_def on_dial_def Dial_NewRound_def)
  show "unfinished ms4 = {Inl 7, Inr 1}"
    by (simp add: ms4_def unfinished_def convo_pending_put dial_pending_put)
      (auto simp: convo_pending_def dial_pending_def server_services_def InitConvoService_def InitDialService_def)
qed

theorem one_round_at_a_time_witness:
  "\<exists>g (ms :: unit mix_server). start_sample quick_conf = Ret (Inr quick_server)
    \<and> (server_step clear_box exact_float64 yes_client quiet_dial ((\<lambda>_. []), (\<lambda>_. [])) (\<lambda>_. []))\<^sup>*\<^sup>* (quick_server, no_closing, ()) (ms, g, ())
    \<and> unfinished ms = {Inl 7, Inr 1} \<and> collecting ms g = {Inr 1} \<and> on_convo (Convo_NewRound clear_box exact_float64 8) ms (\<lambda>_. 1) = Hang"
proof -
  let ?step = "server_step clear_box exact_float64 yes_client quiet_dial ((\<lambda>_. []), (\<lambda>_. [])) (\<lambda>_. [])"
  let ?rest = "LastRest \<lparr>Singles = 0, Doubles = 0\<rparr>"
  let ?g = "convo_hand 7 ?rest (forget_convo 7 no_closing)"
  obtain ms1 ms2 ms3 ms4 where steps: "on_convo (Convo_NewRound clear_box exact_float64 7) quick_server (\<lambda>_. 1) = Ret (Inr (), ms1, \<lambda>_. 1)"
    "on_convo (Convo_Open 7 0) ms1 (\<lambda>_. 1) = Ret (Inr (), ms2, \<lambda>_. 1)"
    "on_convo_next (Convo_Close_begin clear_box yes_client 7) (ms2, ()) (\<lambda>_. 1) = Ret (Inr ?rest, (ms3, ()), \<lambda>_. 1)"
    "on_dial (Dial_NewRound clear_box exact_float64 1) ms3 (\<lambda>_. 1) = Ret (Inr (), ms4, \<lambda>_. 1)" and un: "unfinished ms4 = {Inl 7, Inr 1}"
    using quick_steps by blast
  have "?step (quick_server, no_closing, ()) (ms1, forget_convo 7 no_closing, ())" by (rule convo_NewRound [OF steps(1)]) simp
  moreover have "?step (ms1, forget_convo 7 no_closing, ()) (ms2, forget_convo 7 no_closing, ())" by (rule convo_Open [OF steps(2)])
  moreover have "?step (ms2, forget_convo 7 no_closing, ()) (ms3, ?g, ())" by (rule convo_Close_begins [OF _ steps(3)]) simp
  moreover have "?step (ms3, ?g, ()) (ms4, forget_dial 1 ?g, ())" by (rule dial_NewRound [OF steps(4)]) simp
  ultimately have run: "?step\<^sup>*\<^sup>* (quick_server, no_closing, ()) (ms4, forget_dial 1 ?g, ())"
    by (meson rtranclp.rtrancl_refl rtranclp.rtrancl_into_rtrancl)
  have coll: "collecting ms4 (forget_dial 1 ?g) = {Inr 1}" by (auto simp: collecting_def un)
  from one_round_at_a_time [OF quick_started run, of 8 "\<lambda>_. 1"] coll
  have "on_convo (Convo_NewRound clear_box exact_float64 8) ms4 (\<lambda>_. 1) = Hang" by simp
  with quick_started run un coll show ?thesis by (intro exI conjI) assumption+
qed

text \<open>A next server that accepts the round and refuses to open it.\<close>

definition refusing_client :: "unit convo_client" where
  "refusing_client = \<lparr>call_NewRound = \<lambda>_. give (), call_Open = \<lambda>_ _ s r. Ret (Inl (Foreign ''busy''), s, r), call_Add = \<lambda>_ _ _. give (),
     call_Close = \<lambda>_. give (), call_Get = \<lambda>_ _ _. give [], call_Delete = \<lambda>_. give ()\<rparr>"

theorem failed_round_unlocks_witness:
  "\<exists>ms' :: unit mix_server. on_convo_next (Convo_Close clear_box refusing_client ((\<lambda>_. []), (\<lambda>_. [])) 7)
      ((server_services sample_pki' (sample_conf ''a'' 1) (replicate 32 1) (Some [(), ()]) '':2718'')
        \<lparr>ms_idle := True, ms_convo := put_round 7 (new_round\<lparr>status := convoRoundOpen\<rparr>)
          (ms_convo (server_services sample_pki' (sample_conf ''a'' 1) (replicate 32 1) (Some [(), ()]) '':2718''))\<rparr>, ()) (\<lambda>_. 0)
      = Ret (Inl (Wrapped ''RunConvoRound'' (Wrapped ''Open'' (Foreign ''busy''))), (ms', ()), \<lambda>_. 0)
    \<and> \<not> ms_idle ms' \<and> Inl 7 \<in> unfinished ms'"
proof -
  let ?ms = "(server_services sample_pki' (sample_conf ''a'' 1) (replicate 32 1) (Some [(), ()]) '':2718'')
        \<lparr>ms_idle := True, ms_convo := put_round 7 (new_round\<lparr>status := convoRoundOpen\<rparr>)
          (ms_convo (server_services sample_pki' (sample_conf ''a'' 1) (replicate 32 1) (Some [(), ()]) '':2718''))\<rparr>"
  obtain ms' where run: "on_convo_next (Convo_Close clear_box refusing_client ((\<lambda>_. []), (\<lambda>_. [])) 7) (?ms, ()) (\<lambda>_. 0)
      = Ret (Inl (Wrapped ''RunConvoRound'' (Wrapped ''Open'' (Foreign ''busy''))), (ms', ()), \<lambda>_. 0)"
    by (simp add: on_convo_next_def Convo_Close_eq getRound_def put_round_def filterIncoming_def new_round_def server_services_def InitConvoService_def
        NewShuffler_def Shuffle_def NewConvoRound_def RunConvoRound_def refusing_client_def give_def attempt_def unlock_idle_def Let_def)
  from failed_round_unlocks [OF this] run show ?thesis by blast
qed

end
