(* ===== verification/Spec2Isabelle.thy ===== *)
theory Spec2Isabelle
  imports Spans ParallelFor Shuffle Nacl Wire Onionbox PKI Laplace Noise Vrpc DeadDrops Convo Rounds ConvoErrors Chain MixRound Delivery EndToEnd Dial DialRounds DialDelivery Json EntryAPI EntryServer EntryRounds EntryReplies
    Sha256 Varint Conversation Talk Dialer Introduce Client Window ClientRuns Config Log Rand Histogram Server
begin

text \<open>
  \<^bold>\<open>Vuvuzela\<close> is a messaging system that hides who talks to whom.  Clients send one onion of fixed size per round to the
  \<^emph>\<open>entry server\<close>; it runs the onions of a round through a chain of \<^emph>\<open>mix servers\<close>.  Every server removes a layer, drops
  duplicates, adds cover traffic and shuffles; the last server exchanges the messages that meet at a \<^emph>\<open>dead drop\<close>, and the replies
  go back the same way.  \<^emph>\<open>Dialing\<close> rounds work alike, but end in buckets of introductions that every client
  downloads and scans.  This library models the Go program function by function and proves what makes it correct, from the
  bytes of the wire formats to the text that a user reads in the window.

  \<^bold>\<open>How the code is modelled.\<close>  A call returns (\<open>Ret\<close>), panics (\<open>Panic\<close>) or does not return (\<open>Hang\<close>); Go errors are values
  of type \<open>gerr\<close> in a sum type.  Structs are records, \<^verbatim>\<open>byte\<close>, \<^verbatim>\<open>uint32\<close> and \<^verbatim>\<open>uint64\<close> are words, and an \<^verbatim>\<open>int\<close> that a caller
  chooses is an integer with the wrap-around of 64 bits.  Random bytes come from a sequence that the theorems quantify over.
  A call that waits for a mutex or for room in a channel is a \<open>Hang\<close> in the state in which it is made; a step relation has no step for
  it there, and one as soon as the state lets it return.  Where goroutines interleave, the interleaving is an argument (an order) or a
  step relation, whose steps are the handlers of the code.  A handler that gives a mutex back halfway, or reads a shared field
  again without one, is cut there into definitions whose composition is the function of the source, and its parts are steps of
  their own (\<open>Convo_Close_begin\<close> and \<open>Convo_Close_end\<close>, the same for dialing, \<open>registerRound\<close> and \<open>askHandler\<close>, the parts of
  \<open>gui_Connect\<close>); between such points a handler is taken to be atomic.  Loops that need not end are \<^theory_text>\<open>partial_function (option)\<close>, and the theorems about them say when they return; no
  model has fuel.  Packages outside the repository are parameters with named assumptions:

  \<^item> \<open>nacl\<close> with \<open>nacl_ok\<close>: opening what was sealed, agreement of the two ends of a shared key, the lengths of keys and tags;
  \<^item> \<open>float64\<close>: rounding and logarithm of the machine's floating-point numbers;
  \<^item> \<open>base32\<close>, the websocket (\<open>websocket\<close>, or which writes succeed), \<^verbatim>\<open>net/rpc\<close> (\<open>convo_client\<close>, \<open>dial_client\<close>, the order of
    concurrent calls), the Salsa20 stream (\<open>stream_ok\<close>), the window library.

  Witnesses instantiate them with concrete functions (\<open>clear_box\<close>, \<open>exact_float64\<close>, \<open>plain_base32\<close>).

  \<^bold>\<open>Foundations.\<close>  \<open>Prelude\<close>: outcomes, machine integers, slices, big-endian integers.  \<open>Spans\<close> (\<^verbatim>\<open>internal/span.go\<close>) and
  \<open>ParallelFor\<close> (\<^verbatim>\<open>internal/parallelfor.go\<close>): every index is handed out exactly once in every interleaving, and the loop ends.
  \<open>Shuffle\<close> (\<^verbatim>\<open>shuffle.go\<close>): unshuffling undoes shuffling, shufflers and permutations correspond one to one, the
  rejection sampler is unbiased.  \<open>Rand\<close> (\<^verbatim>\<open>rand/salsa20rand.go\<close>): reads on any CPU return consecutive pieces of that
  CPU's keystream.  \<open>Nacl\<close>, \<open>Sha256\<close>, \<open>Varint\<close> and \<open>Json\<close> hold what is used of libraries: the first as a parameter, the
  others, which belong to Go, as definitions.

  \<^bold>\<open>Formats.\<close>  \<open>Wire\<close> (\<^verbatim>\<open>vuvuzela.go\<close>, \<^verbatim>\<open>boxkey.go\<close>, \<^verbatim>\<open>params.go\<close>), \<open>Onionbox\<close> (\<^verbatim>\<open>onionbox/onion.go\<close>), \<open>EntryAPI\<close> (\<^verbatim>\<open>entry_api.go\<close>,
  \<^verbatim>\<open>msgtype_string.go\<close>): round trips and sizes, short input as an error, and an onion opened layer by layer with its reply on the
  way back.  \<open>PKI\<close> (\<^verbatim>\<open>pki.go\<close>): the directory; lookups do not panic on one that \<open>ReadPKI\<close> accepted, and an unknown server name
  is taken for the last server's.

  \<^bold>\<open>Mix servers.\<close>  \<open>Laplace\<close> and \<open>Noise\<close> (\<^verbatim>\<open>laplace.go\<close>, \<^verbatim>\<open>noise.go\<close>): the amount and the form of the cover traffic.
  \<open>Vrpc\<close> (\<^verbatim>\<open>vrpc/client.go\<close>): connections, calls and batches of calls.  \<open>DeadDrops\<close> and \<open>Convo\<close> (\<^verbatim>\<open>convo.go\<close>): the handlers of the
  conversation service; \<open>Rounds\<close> has its invariant and the order of statuses over all sequences of calls, \<open>ConvoErrors\<close> the
  errors.  \<open>Chain\<close> connects the services, \<open>MixRound\<close> is the abstract mix, and \<open>Delivery\<close> and \<open>EndToEnd\<close> show that
  a completed round of the chain is a behaviour of the mix.  \<open>Dial\<close>, \<open>DialRounds\<close> and \<open>DialDelivery\<close> (\<^verbatim>\<open>dial.go\<close>) do
  the same for dialing.  \<open>Server\<close> (\<^verbatim>\<open>vuvuzela-server/server.go\<close>): the servers that \<^verbatim>\<open>main\<close> starts form the chain the other theorems
  ask for, and the mutex shared by the two services lets one round at a time collect messages, from its creation until its \<open>Close\<close> hands
  it on, provided no round is closed again after that; rounds that were handed on run beside it, and what happens when one
  of them fails is a theorem of its own.
  \<open>Histogram\<close> (\<^verbatim>\<open>vuvuzela-server/histogram.go\<close>): the display of access counts.  \<open>Log\<close> (\<^verbatim>\<open>internal/log.go\<close>,
  \<^verbatim>\<open>internal/ansi.go\<close>): log lines, which without their colours are the plain ones, and are single lines.

  \<^bold>\<open>Entry server.\<close>  \<open>EntryServer\<close> (\<^verbatim>\<open>vuvuzela-entry-server/server.go\<close>) is a state machine whose goroutines are pending jobs;
  \<open>EntryRounds\<close> shows that each batch consists of the requests made for its round, in every order of events, and is run once;
  \<open>EntryReplies\<close> that every connection is sent the replies to its own requests and the bucket of its own key.

  \<^bold>\<open>Client.\<close>  \<open>Conversation\<close> and \<open>Dialer\<close> (\<^verbatim>\<open>vuvuzela-client/conversation.go\<close>, \<^verbatim>\<open>dialer.go\<close>); \<open>Talk\<close> and \<open>Introduce\<close> compose
  them with everything above: in a completed round each of two partners reads the text the other queued, under the assumptions below,
  and a user who is dialed is told by whom.  \<open>Client\<close>, \<open>Window\<close> and \<open>Config\<close> (\<^verbatim>\<open>client.go\<close>, \<^verbatim>\<open>gui.go\<close>, \<^verbatim>\<open>main.go\<close>, \<^verbatim>\<open>internal/json.go\<close>) model the
  process; \<open>ClientRuns\<close> interleaves its goroutines, and has its invariant over all sequences of events, which conversation a response
  reaches, that it is lost when the user switches between the two reads of the handler, and what goes wrong at the window.

  \<^bold>\<open>Interfaces.\<close>  Locales carry what several components share, and are interpreted on the model: \<open>exactly_once\<close> (bodies of a
  parallel loop), \<open>mix_net\<close> (shufflers), \<open>codec\<close> (wire structs), \<open>round_loop\<close> (the two loops of the entry server)
  and \<open>shared_mutex\<close> (the two services of a mix server).

  \<^bold>\<open>Assumptions of the delivery theorems.\<close>  They speak of rounds that complete.  That the onion of a user is not displaced
  by another onion with the same last eight bytes after decryption, which the filter takes for a duplicate, is the hypothesis
  \<open>undisturbed\<close>, and that no third exchange names the same dead drop is stated as such; both fail only with
  negligible probability or when somebody else's onion is made for it.  Nothing is proved about probabilities or secrecy.

  \<^bold>\<open>Not modelled.\<close>  Parsing of JSON text (documents are trees), the JSON of the directory file and of the server's configuration,
  flags, files other than the client's configuration, listening and the HTTP upgrade, waiting times and write deadlines, the drawing
  of windows and charts, the hook that sends log entries to the client's window, format strings with flags, and the
  number of the current CPU: these are input and output, or calls of libraries.  A directory entry that is \<^verbatim>\<open>null\<close> for a person is
  outside the model of \<open>PKI\<close>.  \<^verbatim>\<open>internal/box\<close> has no code.
\<close>

end
